(* ===== verification/Muggle_Prelude.thy ===== *)
theory Muggle_Prelude
  imports Main "HOL-Library.Multiset"
begin

text \<open>
  Shared vocabulary of the development: C pointers, \<open>malloc\<close>, fixed-width casts, \<open>memcpy\<close>,
  the error codes of \<^verbatim>\<open>muggle/c/base/err.h\<close>, and the generic facts about rings (cyclic
  windows of an array) that the memory pools and the queues of the library rest on.
\<close>

section \<open>Types\<close>

text \<open>A \<^verbatim>\<open>void*\<close>: \<^const>\<open>None\<close> is \<^verbatim>\<open>NULL\<close>, \<open>Some x\<close> points to the datum \<open>x\<close>.\<close>

type_synonym 'a ptr = "'a option"

text \<open>
  What one \<^verbatim>\<open>malloc\<close> call returns: \<^const>\<open>None\<close> is \<^verbatim>\<open>NULL\<close>; \<open>Some junk\<close> is a fresh block whose
  cells hold the indeterminate values \<open>junk 0, junk 1, \<dots>\<close>. Operations that allocate take it as
  an argument, so every statement holds for every outcome and every initial content.
\<close>

type_synonym 'a malloc = "(nat \<Rightarrow> 'a) option"

definition malloc_array :: "'a malloc \<Rightarrow> nat \<Rightarrow> 'a list option" where
  "malloc_array m n = map_option (\<lambda>junk. map junk [0..<n]) m"

text \<open>The error codes, in the order of the enumeration.\<close>

datatype muggle_err =
    MUGGLE_OK
  | MUGGLE_ERR_UNKNOWN
  | MUGGLE_ERR_TODO
  | MUGGLE_ERR_MEM_ALLOC
  | MUGGLE_ERR_MEM_DUPLICATE_FREE
  | MUGGLE_ERR_NULL_PARAM
  | MUGGLE_ERR_INVALID_PARAM
  | MUGGLE_ERR_ACQ_LOCK
  | MUGGLE_ERR_SYS_CALL
  | MUGGLE_ERR_INTERRUPT
  | MUGGLE_ERR_BEYOND_RANGE
  | MUGGLE_ERR_FULL
  | MUGGLE_ERR_CRYPT_PLAINTEXT_SIZE
  | MUGGLE_ERR_CRYPT_KEY_SIZE

section \<open>Fixed-width arithmetic\<close>

text \<open>Unsigned results modulo the width, and the conversion to \<^verbatim>\<open>int\<close> (two's complement).\<close>

definition u32 :: "nat \<Rightarrow> nat" where
  "u32 n = n mod 2 ^ 32"

definition u64 :: "nat \<Rightarrow> nat" where
  "u64 n = n mod 2 ^ 64"

definition to_int32 :: "int \<Rightarrow> int" where
  "to_int32 x = (x + 2 ^ 31) mod 2 ^ 32 - 2 ^ 31"

definition to_u64 :: "int \<Rightarrow> nat" where
  "to_u64 x = nat (x mod 2 ^ 64)"

text \<open>
  The number of cells of \<open>sz\<close> bytes in the block that \<^verbatim>\<open>malloc(sz * n)\<close> returns: the product
  is a \<^verbatim>\<open>size_t\<close> and wraps around.
\<close>

definition cells :: "nat \<Rightarrow> nat \<Rightarrow> nat" where
  "cells sz n = u64 (sz * n) div sz"

lemma u32_small [simp]: "n < 2 ^ 32 \<Longrightarrow> u32 n = n"
  by (simp add: u32_def)

lemma u64_small [simp]: "n < 2 ^ 64 \<Longrightarrow> u64 n = n"
  by (simp add: u64_def)

lemma to_int32_small [simp]: "- (2 ^ 31) \<le> x \<Longrightarrow> x < 2 ^ 31 \<Longrightarrow> to_int32 x = x"
  by (simp add: to_int32_def)

lemma to_u64_small [simp]: "0 \<le> x \<Longrightarrow> x < 2 ^ 64 \<Longrightarrow> to_u64 x = nat x"
  by (simp add: to_u64_def)

lemma cells_small [simp]: "0 < sz \<Longrightarrow> sz * n < 2 ^ 64 \<Longrightarrow> cells sz n = n"
  by (simp add: cells_def)

lemma malloc_array_Some:
  "malloc_array m n = Some xs \<Longrightarrow> length xs = n"
  by (auto simp: malloc_array_def)

lemma malloc_array_simps [simp]:
  "malloc_array None n = None"
  "malloc_array (Some junk) n = Some (map junk [0..<n])"
  by (simp_all add: malloc_array_def)

section \<open>Block copies\<close>

text \<open>
  \<^verbatim>\<open>memcpy(dst + di, src + si, n)\<close> between two distinct arrays of cells. The callers' bounds
  are part of the lemmas: \<open>di + n \<le> length dst\<close> and \<open>si + n \<le> length src\<close>.
\<close>

definition blit :: "'a list \<Rightarrow> nat \<Rightarrow> 'a list \<Rightarrow> nat \<Rightarrow> nat \<Rightarrow> 'a list" where
  "blit src si dst di n = take di dst @ take n (drop si src) @ drop (di + n) dst"

lemma length_blit [simp]:
  "si + n \<le> length src \<Longrightarrow> di + n \<le> length dst \<Longrightarrow> length (blit src si dst di n) = length dst"
  by (simp add: blit_def)

lemma nth_blit:
  "si + n \<le> length src \<Longrightarrow> di + n \<le> length dst \<Longrightarrow> i < length dst \<Longrightarrow>
   blit src si dst di n ! i = (if di \<le> i \<and> i < di + n then src ! (si + (i - di)) else dst ! i)"
  by (auto simp: blit_def nth_append)

lemma blit_0 [simp]: "blit src si dst di 0 = dst"
  by (simp add: blit_def)

lemma take_blit_append:
  "si + n \<le> length src \<Longrightarrow> di + n \<le> length dst \<Longrightarrow>
   take (di + n) (blit src si dst di n) = take di dst @ take n (drop si src)"
  by (simp add: blit_def)

text \<open>Consecutive copies into a fresh array build its content from left to right.\<close>

lemma blit_start: "blit src si new 0 n = take n (drop si src) @ drop n new"
  by (simp add: blit_def)

lemma blit_extend:
  "length pre = di \<Longrightarrow> blit src si (pre @ drop di new) di n = (pre @ take n (drop si src)) @ drop (di + n) new"
  by (simp add: blit_def add.commute)

lemma blit_extend2:
  "length pre + length pre' = di \<Longrightarrow>
   blit src si (pre @ pre' @ drop di new) di n = pre @ pre' @ take n (drop si src) @ drop (di + n) new"
  using blit_extend[of "pre @ pre'" di src si new n] by simp

section \<open>Writing a run of cells\<close>

text \<open>\<^verbatim>\<open>for (i = 0; i < n; i++) a[off + i] = f(i);\<close>\<close>

definition fill :: "(nat \<Rightarrow> 'a) \<Rightarrow> nat \<Rightarrow> nat \<Rightarrow> 'a list \<Rightarrow> 'a list" where
  "fill f off n xs = fold (\<lambda>i ys. ys[off + i := f i]) [0..<n] xs"

lemma fill_0 [simp]: "fill f off 0 xs = xs"
  by (simp add: fill_def)

lemma fill_Suc [simp]: "fill f off (Suc n) xs = (fill f off n xs)[off + n := f n]"
  by (simp add: fill_def)

lemma length_fill [simp]: "length (fill f off n xs) = length xs"
  by (induction n) simp_all

lemma fill_eq:
  "off + n \<le> length xs \<Longrightarrow> fill f off n xs = take off xs @ map f [0..<n] @ drop (off + n) xs"
proof (induction n)
  case 0
  then show ?case by simp
next
  case (Suc n)
  then have "drop (off + n) xs = xs ! (off + n) # drop (off + Suc n) xs"
    by (simp add: Cons_nth_drop_Suc)
  with Suc show ?case by (simp add: list_update_append)
qed

text \<open>The copy loop of the growing arrays.\<close>

lemma take_fill_copy:
  assumes "n \<le> length old" "n \<le> length new"
  shows "take n (fill (\<lambda>i. old ! i) 0 n new) = take n old"
  using assms by (auto simp: fill_eq intro!: nth_equalityI)

section \<open>Rings\<close>

text \<open>
  \<open>ring_window xs s n\<close> is the sequence of \<open>n\<close> cells of the ring \<open>xs\<close> that starts at index \<open>s\<close>
  and wraps around at the end of the array.
\<close>

definition ring_window :: "'a list \<Rightarrow> nat \<Rightarrow> nat \<Rightarrow> 'a list" where
  "ring_window xs s n = map (\<lambda>i. xs ! ((s + i) mod length xs)) [0..<n]"

named_theorems ring_rules

lemma length_ring_window [simp]: "length (ring_window xs s n) = n"
  by (simp add: ring_window_def)

lemma ring_window_0 [simp]: "ring_window xs s 0 = []"
  by (simp add: ring_window_def)

lemma nth_ring_window: "i < n \<Longrightarrow> ring_window xs s n ! i = xs ! ((s + i) mod length xs)"
  by (simp add: ring_window_def)

lemma ring_window_mod: "ring_window xs (s mod length xs) n = ring_window xs s n"
  by (simp add: ring_window_def mod_simps)

text \<open>Taking the first cell of a window.\<close>

lemma ring_window_Suc:
  "ring_window xs s (Suc n) = xs ! (s mod length xs) # ring_window xs (s + 1) n"
  by (simp add: ring_window_def upt_rec[of 0] map_Suc_upt[symmetric] del: upt_Suc)

lemma ring_window_hd [ring_rules]:
  "0 < n \<Longrightarrow> s < length xs \<Longrightarrow> hd (ring_window xs s n) = xs ! s"
  by (cases n) (simp_all add: ring_window_Suc)

lemma ring_window_tl [ring_rules]:
  "0 < n \<Longrightarrow> tl (ring_window xs s n) = ring_window xs ((s + 1) mod length xs) (n - 1)"
  by (cases n) (simp_all add: ring_window_Suc ring_window_mod)

text \<open>Distinct offsets of a ring are distinct cells.\<close>

lemma ring_index_inj:
  fixes i j :: nat
  assumes "(s + i) mod c = (s + j) mod c" "i < c" "j < c"
  shows "i = j"
proof -
  have *: "a = b" if "(s + a) mod c = (s + b) mod c" "a \<le> b" "b < c" for a b
  proof -
    from that(1) have "c dvd (s + b) - (s + a)"
      using that(2) by (metis add_le_cancel_left mod_eq_dvd_iff_nat)
    then have "c dvd b - a" by simp
    with that(2,3) show ?thesis
      by (metis diff_is_0_eq dvd_imp_le le_antisym less_imp_diff_less not_le gr0I)
  qed
  show ?thesis using *[of i j] *[of j i] assms by (cases "i \<le> j") auto
qed

text \<open>Writing the cell just behind a window that does not fill the ring appends to it.\<close>

lemma ring_window_snoc [ring_rules]:
  assumes "n < length xs"
  shows "ring_window (xs[(s + n) mod length xs := x]) s (Suc n) = ring_window xs s n @ [x]"
proof (rule nth_equalityI)
  show "length (ring_window (xs[(s + n) mod length xs := x]) s (Suc n)) =
    length (ring_window xs s n @ [x])" by simp
next
  fix i assume "i < length (ring_window (xs[(s + n) mod length xs := x]) s (Suc n))"
  then have i: "i \<le> n" by simp
  have "(s + n) mod length xs < length xs" using assms by (auto intro: mod_less_divisor)
  moreover have "(s + i) mod length xs \<noteq> (s + n) mod length xs" if "i < n"
    using ring_index_inj[of s i "length xs" n] that assms by auto
  ultimately show "ring_window (xs[(s + n) mod length xs := x]) s (Suc n) ! i =
    (ring_window xs s n @ [x]) ! i"
    using i by (cases "i = n") (auto simp: nth_ring_window nth_append)
qed

text \<open>A write outside a window does not change it.\<close>

lemma ring_window_update_outside:
  assumes "n \<le> m" "m < length xs"
  shows "ring_window (xs[(s + m) mod length xs := x]) s n = ring_window xs s n"
proof (rule nth_equalityI)
  fix i assume "i < length (ring_window (xs[(s + m) mod length xs := x]) s n)"
  then have i: "i < n" by simp
  then have "(s + i) mod length xs \<noteq> (s + m) mod length xs"
    using ring_index_inj[of s i "length xs" m] assms by auto
  with i show "ring_window (xs[(s + m) mod length xs := x]) s n ! i = ring_window xs s n ! i"
    by (simp add: nth_ring_window)
qed simp

text \<open>Cutting a window in two, and a window that does not reach the end of the array.\<close>

lemma ring_window_append:
  "ring_window xs s (m + n) = ring_window xs s m @ ring_window xs ((s + m) mod length xs) n"
proof -
  have "ring_window xs s (m + n) = ring_window xs s m @ ring_window xs (s + m) n"
    by (rule nth_equalityI) (auto simp: nth_ring_window nth_append add.assoc)
  then show ?thesis by (simp add: ring_window_mod)
qed

lemma ring_window_straight:
  assumes "s + n \<le> length xs"
  shows "ring_window xs s n = take n (drop s xs)"
  using assms by (intro nth_equalityI) (auto simp: nth_ring_window)

lemma set_ring_window_subset:
  "xs \<noteq> [] \<Longrightarrow> set (ring_window xs s n) \<subseteq> set xs"
  by (auto simp: ring_window_def)

section \<open>Lists\<close>

lemma take_update_snoc:
  "n < length xs \<Longrightarrow> take (Suc n) (xs[n := x]) = take n xs @ [x]"
  by (simp add: take_Suc_conv_app_nth)

text \<open>The cells from \<open>i\<close> up to \<open>j\<close>.\<close>

definition seg :: "'a list \<Rightarrow> nat \<Rightarrow> nat \<Rightarrow> 'a list" where
  "seg xs i j = take (j - i) (drop i xs)"

lemma seg_empty [simp]: "j \<le> i \<Longrightarrow> seg xs i j = []"
  by (simp add: seg_def)

lemma length_seg [simp]: "j \<le> length xs \<Longrightarrow> length (seg xs i j) = j - i"
  by (simp add: seg_def)

lemma nth_seg: "j \<le> length xs \<Longrightarrow> k < j - i \<Longrightarrow> seg xs i j ! k = xs ! (i + k)"
  by (simp add: seg_def)

lemma seg_append:
  assumes "i \<le> j" "j \<le> k"
  shows "seg xs i j @ seg xs j k = seg xs i k"
proof -
  have "k - i = (j - i) + (k - j)" "(j - i) + i = j" using assms by simp_all
  then show ?thesis by (simp only: seg_def take_add drop_drop)
qed

end
