(* ===== verification/Memory_Pool.thy ===== *)
theory Memory_Pool
  imports Muggle_Prelude
begin

text \<open>
  The block pool of \<^verbatim>\<open>muggle/c/memory/memory_pool.c\<close>. The pool keeps a ring of block
  addresses (\<open>memory_pool_ptr_buf\<close>): allocation takes the address at \<open>alloc_index\<close>, release
  writes the address back at \<open>free_index\<close>, growth lays the ring out again in a larger array.

  The abstract view is \<open>mp_avail\<close>, the queue of the blocks that can be handed out.
  \<open>mp_reach\<close> is the pool in the hands of a client that returns each block at most once, as long as
  the sizes in bytes of the data buffers stay below \<open>2 ^ 32\<close>; its invariant says that no block is
  handed out twice and every block lies inside its buffer. The code computes these sizes in
  \<^verbatim>\<open>unsigned int\<close> and does not check them: \<open>mp_size_wraps\<close> and \<open>mp_double_wraps\<close> are what happens
  beyond the limit.
\<close>

unbundle bit_operations_syntax

section \<open>State\<close>

text \<open>
  A block address is a data buffer (by its index in \<open>memory_pool_data_bufs\<close>) and a byte offset
  in it. \<open>mp_data_bufs\<close> holds the sizes in bytes of the data buffers. The counters are
  \<^verbatim>\<open>unsigned int\<close>: results that can pass \<open>2 ^ 32\<close> go through \<^const>\<open>u32\<close>.
\<close>

type_synonym mp_addr = "nat \<times> nat"

record memory_pool =
  mp_data_bufs :: "nat list"
  mp_ptr_buf :: "mp_addr list"
  mp_alloc_index :: nat
  mp_free_index :: nat
  mp_capacity :: nat
  mp_used :: nat
  mp_block_size :: nat
  mp_num_buf :: nat
  mp_flag :: nat
  mp_peak :: nat

definition MUGGLE_MEMORY_POOL_CONSTANT_SIZE :: nat where
  "MUGGLE_MEMORY_POOL_CONSTANT_SIZE = 1"

text \<open>\<^verbatim>\<open>memset(pool, 0, sizeof(*pool))\<close>.\<close>

definition mp_zero :: memory_pool where
  "mp_zero = \<lparr>mp_data_bufs = [], mp_ptr_buf = [], mp_alloc_index = 0, mp_free_index = 0,
     mp_capacity = 0, mp_used = 0, mp_block_size = 0, mp_num_buf = 0, mp_flag = 0, mp_peak = 0\<rparr>"

text \<open>
  The outcomes of the three \<^verbatim>\<open>malloc\<close> calls of an operation: the array of data buffers, the
  array of block addresses with its indeterminate content, the data buffer.
\<close>

record mp_mallocs =
  m_data_bufs :: bool
  m_ptr_buf :: "mp_addr malloc"
  m_data :: bool

section \<open>Operations\<close>

text \<open>The address of block \<open>i\<close> of a buffer: \<^verbatim>\<open>(char*)buf + i * block_size\<close>, in 32-bit arithmetic.\<close>

definition mp_block :: "nat \<Rightarrow> nat \<Rightarrow> nat \<Rightarrow> mp_addr" where
  "mp_block buf block_size i = (buf, u32 (i * block_size))"

definition muggle_memory_pool_init ::
    "mp_mallocs \<Rightarrow> nat \<Rightarrow> nat \<Rightarrow> bool \<times> memory_pool" where
  "muggle_memory_pool_init m init_capacity block_size =
    (let init_capacity = (if init_capacity = 0 then 8 else init_capacity) in
     if block_size = 0 then (False, mp_zero)
     else if \<not> m_data_bufs m then (False, mp_zero)
     else case malloc_array (m_ptr_buf m) init_capacity of
       None \<Rightarrow> (False, mp_zero)
     | Some ptr_buf \<Rightarrow>
         if \<not> m_data m then (False, mp_zero)
         else (True,
           \<lparr>mp_data_bufs = [u32 (block_size * init_capacity)],
            mp_ptr_buf = fill (mp_block 0 block_size) 0 init_capacity ptr_buf,
            mp_alloc_index = 0, mp_free_index = 0,
            mp_capacity = init_capacity, mp_used = 0,
            mp_block_size = block_size, mp_num_buf = 1, mp_flag = 0, mp_peak = 0\<rparr>))"

definition muggle_memory_pool_destroy :: "memory_pool \<Rightarrow> memory_pool" where
  "muggle_memory_pool_destroy p = mp_zero"

text \<open>
  The alloc and free sections of the old ring as (start, length) pairs, in the order in which
  \<open>muggle_memory_pool_ensure_space\<close> copies them: the slots of the blocks in use first, the
  available blocks after them.
\<close>

definition mp_sections ::
    "memory_pool \<Rightarrow> (nat \<times> nat) \<times> (nat \<times> nat) \<times> (nat \<times> nat) \<times> (nat \<times> nat)" where
  "mp_sections p =
    (if mp_used p = mp_capacity p then
       ((mp_free_index p, mp_capacity p - mp_free_index p), (0, mp_free_index p), (0, 0), (0, 0))
     else if mp_alloc_index p > mp_free_index p then
       ((mp_free_index p, mp_alloc_index p - mp_free_index p), (0, 0),
        (mp_alloc_index p, mp_capacity p - mp_alloc_index p), (0, mp_free_index p))
     else
       ((mp_free_index p, mp_capacity p - mp_free_index p), (0, mp_alloc_index p),
        (mp_alloc_index p, mp_free_index p - mp_alloc_index p), (0, 0)))"

definition mp_relocate :: "memory_pool \<Rightarrow> mp_addr list \<Rightarrow> nat \<times> nat \<times> mp_addr list" where
  "mp_relocate p new_ptr_buf =
    (let (free1, free2, alloc1, alloc2) = mp_sections p;
         old = mp_ptr_buf p;
         offset = 0;
         new_ptr_buf = blit old (fst free1) new_ptr_buf offset (snd free1);
         offset = offset + snd free1;
         (new_ptr_buf, offset) =
           (if snd free2 > 0
            then (blit old (fst free2) new_ptr_buf offset (snd free2), offset + snd free2)
            else (new_ptr_buf, offset));
         alloc_index = offset;
         (new_ptr_buf, offset) =
           (if snd free1 > 0 then
              let new_ptr_buf = blit old (fst alloc1) new_ptr_buf offset (snd alloc1);
                  offset = offset + snd alloc1
              in if snd alloc2 > 0
                 then (blit old (fst alloc2) new_ptr_buf offset (snd alloc2), offset + snd alloc2)
                 else (new_ptr_buf, offset)
            else (new_ptr_buf, offset))
     in (alloc_index, offset, new_ptr_buf))"

definition muggle_memory_pool_ensure_space ::
    "mp_mallocs \<Rightarrow> nat \<Rightarrow> memory_pool \<Rightarrow> bool \<times> memory_pool" where
  "muggle_memory_pool_ensure_space m capacity p =
    (if capacity \<le> mp_capacity p then (True, p)
     else if mp_flag p AND MUGGLE_MEMORY_POOL_CONSTANT_SIZE \<noteq> 0 then (False, p)
     else
       let delta_size = capacity - mp_capacity p in
       if \<not> m_data_bufs m then (False, p)
       else if \<not> m_data m then (False, p)
       else case malloc_array (m_ptr_buf m) capacity of
         None \<Rightarrow> (False, p)
       | Some new_ptr_buf \<Rightarrow>
           let (alloc_index, offset, new_ptr_buf) = mp_relocate p new_ptr_buf;
               new_ptr_buf =
                 fill (mp_block (mp_num_buf p) (mp_block_size p)) offset delta_size new_ptr_buf
           in (True,
               p\<lparr>mp_data_bufs := mp_data_bufs p @ [u32 (mp_block_size p * delta_size)],
                 mp_free_index := 0,
                 mp_alloc_index := alloc_index,
                 mp_ptr_buf := new_ptr_buf,
                 mp_num_buf := mp_num_buf p + 1,
                 mp_capacity := capacity\<rparr>))"

definition muggle_memory_pool_alloc ::
    "mp_mallocs \<Rightarrow> memory_pool \<Rightarrow> mp_addr ptr \<times> memory_pool" where
  "muggle_memory_pool_alloc m p =
    (let (ok, p) = (if mp_used p = mp_capacity p
                    then muggle_memory_pool_ensure_space m (u32 (mp_capacity p * 2)) p
                    else (True, p))
     in if \<not> ok then (None, p)
        else
          let p = p\<lparr>mp_used := u32 (mp_used p + 1)\<rparr>;
              p = (if mp_used p > mp_peak p then p\<lparr>mp_peak := mp_used p\<rparr> else p);
              ret = mp_ptr_buf p ! mp_alloc_index p;
              p = p\<lparr>mp_alloc_index := u32 (mp_alloc_index p + 1)\<rparr>;
              p = (if mp_alloc_index p = mp_capacity p then p\<lparr>mp_alloc_index := 0\<rparr> else p)
          in (Some ret, p))"

definition muggle_memory_pool_free :: "memory_pool \<Rightarrow> mp_addr \<Rightarrow> memory_pool" where
  "muggle_memory_pool_free p p_data =
    (let p = p\<lparr>mp_ptr_buf := (mp_ptr_buf p)[mp_free_index p := p_data]\<rparr>;
         p = p\<lparr>mp_free_index := u32 (mp_free_index p + 1)\<rparr>;
         p = (if mp_free_index p = mp_capacity p then p\<lparr>mp_free_index := 0\<rparr> else p)
     in p\<lparr>mp_used := u32 (mp_used p + (2 ^ 32 - 1))\<rparr>)"

definition muggle_memory_pool_get_flag :: "memory_pool \<Rightarrow> nat" where
  "muggle_memory_pool_get_flag p = mp_flag p"

definition muggle_memory_pool_set_flag :: "memory_pool \<Rightarrow> nat \<Rightarrow> memory_pool" where
  "muggle_memory_pool_set_flag p flag = p\<lparr>mp_flag := flag\<rparr>"


section \<open>The pool as a queue of available blocks\<close>

definition mp_wf :: "memory_pool \<Rightarrow> bool" where
  "mp_wf p \<longleftrightarrow>
     0 < mp_capacity p \<and> mp_capacity p < 2 ^ 32 \<and>
     length (mp_ptr_buf p) = mp_capacity p \<and>
     mp_free_index p < mp_capacity p \<and> mp_used p \<le> mp_capacity p \<and>
     mp_alloc_index p = (mp_free_index p + mp_used p) mod mp_capacity p"

definition mp_avail :: "memory_pool \<Rightarrow> mp_addr list" where
  "mp_avail p = ring_window (mp_ptr_buf p) (mp_alloc_index p) (mp_capacity p - mp_used p)"

text \<open>The blocks a growth from the present capacity to \<open>capacity\<close> adds.\<close>

definition mp_new_blocks :: "memory_pool \<Rightarrow> nat \<Rightarrow> mp_addr list" where
  "mp_new_blocks p capacity =
     map (mp_block (mp_num_buf p) (mp_block_size p)) [0..<capacity - mp_capacity p]"

text \<open>
  The size in bytes of a data buffer of \<open>n\<close> blocks stays below \<open>2 ^ 32\<close>: neither
  \<^verbatim>\<open>block_size * n\<close> nor the offset \<^verbatim>\<open>i * block_size\<close> of a block wraps. A growth to \<open>capacity\<close> blocks
  adds one buffer with the blocks that are missing; an allocation grows only a pool without
  available blocks.
\<close>

definition mp_fits :: "nat \<Rightarrow> nat \<Rightarrow> bool" where
  "mp_fits block_size n \<longleftrightarrow> block_size * n < 2 ^ 32"

definition mp_grow_fits :: "memory_pool \<Rightarrow> nat \<Rightarrow> bool" where
  "mp_grow_fits p capacity \<longleftrightarrow> capacity < 2 ^ 32 \<and> mp_fits (mp_block_size p) (capacity - mp_capacity p)"

definition mp_alloc_fits :: "memory_pool \<Rightarrow> bool" where
  "mp_alloc_fits p \<longleftrightarrow> (mp_used p = mp_capacity p \<longrightarrow> mp_grow_fits p (mp_capacity p * 2))"

text \<open>
  A pool with the set of blocks its client holds. A client returns only blocks it holds, and it
  asks for growth only while it holds a block: growing an idle pool breaks the ring, see
  \<open>mp_idle_growth_duplicates\<close>. No buffer is larger than the 32-bit size computations can
  express: the operations that allocate a buffer carry this as a condition, which the code does
  not check, see \<open>mp_size_wraps\<close>.
\<close>

inductive mp_reach :: "memory_pool \<Rightarrow> mp_addr set \<Rightarrow> bool" where
  init: "muggle_memory_pool_init m capacity block_size = (True, p) \<Longrightarrow>
    mp_fits block_size (mp_capacity p) \<Longrightarrow> mp_reach p {}"
| alloc: "mp_reach p out \<Longrightarrow> mp_alloc_fits p \<Longrightarrow>
    muggle_memory_pool_alloc m p = (Some a, p') \<Longrightarrow> mp_reach p' (insert a out)"
| alloc_null: "mp_reach p out \<Longrightarrow>
    muggle_memory_pool_alloc m p = (None, p') \<Longrightarrow> mp_reach p' out"
| free: "mp_reach p out \<Longrightarrow> a \<in> out \<Longrightarrow>
    mp_reach (muggle_memory_pool_free p a) (out - {a})"
| ensure_space: "mp_reach p out \<Longrightarrow> capacity \<le> mp_capacity p \<or> mp_used p \<noteq> 0 \<and> mp_grow_fits p capacity \<Longrightarrow>
    muggle_memory_pool_ensure_space m capacity p = (ok, p') \<Longrightarrow> mp_reach p' out"
| set_flag: "mp_reach p out \<Longrightarrow> mp_reach (muggle_memory_pool_set_flag p flag) out"

text \<open>A block inside its data buffer, aligned to the block size.\<close>

definition mp_block_ok :: "memory_pool \<Rightarrow> mp_addr \<Rightarrow> bool" where
  "mp_block_ok p a \<longleftrightarrow>
     fst a < length (mp_data_bufs p) \<and>
     snd a + mp_block_size p \<le> mp_data_bufs p ! fst a \<and> mp_block_size p dvd snd a"

definition mp_inv :: "memory_pool \<Rightarrow> mp_addr set \<Rightarrow> bool" where
  "mp_inv p out \<longleftrightarrow>
     mp_wf p \<and> 0 < mp_block_size p \<and> mp_num_buf p = length (mp_data_bufs p) \<and>
     finite out \<and> card out = mp_used p \<and>
     distinct (mp_avail p) \<and> set (mp_avail p) \<inter> out = {} \<and>
     (\<forall>a \<in> set (mp_avail p) \<union> out. mp_block_ok p a)"

text \<open>The bytes of a block.\<close>

definition mp_bytes :: "memory_pool \<Rightarrow> mp_addr \<Rightarrow> (nat \<times> nat) set" where
  "mp_bytes p a = {(fst a, i) | i. snd a \<le> i \<and> i < snd a + mp_block_size p}"

lemma ring_window_full:
  assumes "s < length xs"
  shows "ring_window xs s (length xs) = drop s xs @ take s xs"
proof -
  have "ring_window xs s (length xs - s + s) =
    ring_window xs s (length xs - s) @ ring_window xs ((s + (length xs - s)) mod length xs) s"
    by (rule ring_window_append)
  then show ?thesis using assms by (simp add: ring_window_straight)
qed

lemma mp_alloc_index_cases:
  assumes "mp_wf p"
  shows "mp_alloc_index p =
    (if mp_free_index p + mp_used p < mp_capacity p then mp_free_index p + mp_used p
     else mp_free_index p + mp_used p - mp_capacity p)"
  using assms by (auto simp: mp_wf_def mod_if)

text \<open>Relocation unrolls the old ring from \<open>free_index\<close> on, whatever its layout.\<close>

lemma mp_relocate_eq:
  assumes wf: "mp_wf p" and len: "mp_capacity p \<le> length new"
  shows "mp_relocate p new =
    (if mp_used p = 0 then mp_capacity p else mp_used p, mp_capacity p,
     ring_window (mp_ptr_buf p) (mp_free_index p) (mp_capacity p) @ drop (mp_capacity p) new)"
proof -
  have w: "ring_window (mp_ptr_buf p) (mp_free_index p) (mp_capacity p) =
    drop (mp_free_index p) (mp_ptr_buf p) @ take (mp_free_index p) (mp_ptr_buf p)"
    using ring_window_full[of "mp_free_index p" "mp_ptr_buf p"] wf by (simp add: mp_wf_def)
  have l: "length (mp_ptr_buf p) = mp_capacity p" "mp_free_index p < mp_capacity p"
    "mp_used p \<le> mp_capacity p" using wf by (simp_all add: mp_wf_def)
  note a = mp_alloc_index_cases[OF wf]
  let ?f = "mp_free_index p" and ?a = "mp_alloc_index p" and ?old = "mp_ptr_buf p"
  show ?thesis
  proof (cases "mp_used p = mp_capacity p")
    case True
    then have "mp_relocate p new = (mp_capacity p, mp_capacity p,
      (drop ?f ?old @ take ?f ?old) @ drop (mp_capacity p) new)"
      using l len by (simp add: mp_relocate_def mp_sections_def Let_def blit_start blit_extend blit_extend2)
    then show ?thesis unfolding w[symmetric] using True l by simp
  next
    case False
    show ?thesis
    proof (cases "?f < ?a")
      case True
      with a l have eq: "?a = ?f + mp_used p" by (auto split: if_splits)
      have lt: "?f + mp_used p < mp_capacity p"
        using wf eq by (metis mod_less_divisor mp_wf_def)
      have sum: "mp_used p + (mp_capacity p - (?f + mp_used p)) = mp_capacity p - ?f"
        "min (mp_capacity p - ?f) (mp_used p) = mp_used p" using lt by simp_all
      have lst: "(take (?a - ?f) (drop ?f ?old) @ drop ?a ?old) @ take ?f ?old =
        drop ?f ?old @ take ?f ?old"
        using True by (simp add: eq) (metis append_take_drop_id drop_drop add.commute)
      have "mp_relocate p new = (?a - ?f, mp_capacity p,
        ((take (?a - ?f) (drop ?f ?old) @ drop ?a ?old) @ take ?f ?old) @ drop (mp_capacity p) new)"
        using False True l len eq lt
        by (simp add: mp_relocate_def mp_sections_def Let_def blit_start blit_extend blit_extend2 sum)
      then show ?thesis unfolding lst w[symmetric] using True eq by simp
    next
      case nle: False
      with a l False have eq: "mp_capacity p - ?f + ?a =
        (if mp_used p = 0 then mp_capacity p else mp_used p)" by (auto split: if_splits)
      have lst: "(drop ?f ?old @ take ?a ?old) @ take (?f - ?a) (drop ?a ?old) =
        drop ?f ?old @ take ?f ?old"
        using nle take_add[of ?a "?f - ?a" ?old] by simp
      have "mp_relocate p new = (mp_capacity p - ?f + ?a, mp_capacity p,
        ((drop ?f ?old @ take ?a ?old) @ take (?f - ?a) (drop ?a ?old)) @ drop (mp_capacity p) new)"
        using False nle l len
        by (simp add: mp_relocate_def mp_sections_def Let_def blit_start blit_extend blit_extend2)
      then show ?thesis unfolding lst w[symmetric] eq by simp
    qed
  qed
qed

section \<open>Operations on the queue of available blocks\<close>

lemma length_mp_avail: "length (mp_avail p) = mp_capacity p - mp_used p"
  by (simp add: mp_avail_def)

lemma mp_alloc_index_less: "mp_wf p \<Longrightarrow> mp_alloc_index p < mp_capacity p"
  by (simp add: mp_wf_def)

lemma mp_ensure_space_refused:
  "muggle_memory_pool_ensure_space m capacity p = (False, p') \<Longrightarrow> p' = p"
  by (auto simp: muggle_memory_pool_ensure_space_def Let_def split: if_splits option.splits prod.splits)

lemma mp_ensure_space_noop:
  "capacity \<le> mp_capacity p \<Longrightarrow> muggle_memory_pool_ensure_space m capacity p = (True, p)"
  by (simp add: muggle_memory_pool_ensure_space_def)

lemma mp_ensure_space_grown:
  assumes wf: "mp_wf p" and gt: "mp_capacity p < capacity"
    and run: "muggle_memory_pool_ensure_space m capacity p = (True, p')"
  shows "p' = p\<lparr>mp_data_bufs := mp_data_bufs p @ [u32 (mp_block_size p * (capacity - mp_capacity p))],
    mp_free_index := 0,
    mp_alloc_index := (if mp_used p = 0 then mp_capacity p else mp_used p),
    mp_ptr_buf := ring_window (mp_ptr_buf p) (mp_free_index p) (mp_capacity p) @ mp_new_blocks p capacity,
    mp_num_buf := mp_num_buf p + 1,
    mp_capacity := capacity\<rparr>"
proof -
  from run gt obtain new where new: "malloc_array (m_ptr_buf m) capacity = Some new"
    by (auto simp: muggle_memory_pool_ensure_space_def Let_def split: if_splits option.splits)
  then have len: "length new = capacity" by (rule malloc_array_Some)
  have r: "mp_relocate p new =
    (if mp_used p = 0 then mp_capacity p else mp_used p, mp_capacity p,
     ring_window (mp_ptr_buf p) (mp_free_index p) (mp_capacity p) @ drop (mp_capacity p) new)"
    using mp_relocate_eq[OF wf, of new] gt len by simp
  have "fill (mp_block (mp_num_buf p) (mp_block_size p)) (mp_capacity p) (capacity - mp_capacity p)
      (ring_window (mp_ptr_buf p) (mp_free_index p) (mp_capacity p) @ drop (mp_capacity p) new) =
    ring_window (mp_ptr_buf p) (mp_free_index p) (mp_capacity p) @ mp_new_blocks p capacity"
    using gt len by (subst fill_eq) (simp_all add: mp_new_blocks_def)
  with run gt new r show ?thesis
    by (auto simp: muggle_memory_pool_ensure_space_def Let_def split: if_splits)
qed

lemma mp_ensure_space_avail:
  assumes wf: "mp_wf p" and used: "0 < mp_used p" and gt: "mp_capacity p < capacity"
    and lim: "capacity < 2 ^ 32"
    and run: "muggle_memory_pool_ensure_space m capacity p = (True, p')"
  shows "mp_wf p'" "mp_avail p' = mp_avail p @ mp_new_blocks p capacity"
proof -
  note p' = mp_ensure_space_grown[OF wf gt run]
  have l: "length (mp_ptr_buf p) = mp_capacity p" "mp_used p \<le> mp_capacity p"
    "mp_alloc_index p = (mp_free_index p + mp_used p) mod mp_capacity p"
    using wf by (simp_all add: mp_wf_def)
  show "mp_wf p'" using l used gt lim unfolding p'
    by (auto simp: mp_wf_def mp_new_blocks_def)
  have "ring_window (mp_ptr_buf p) (mp_free_index p) (mp_used p + (mp_capacity p - mp_used p)) =
    ring_window (mp_ptr_buf p) (mp_free_index p) (mp_used p) @ mp_avail p"
    using l by (subst ring_window_append) (simp add: mp_avail_def)
  then have "drop (mp_used p) (ring_window (mp_ptr_buf p) (mp_free_index p) (mp_capacity p)) = mp_avail p"
    using l by simp
  then show "mp_avail p' = mp_avail p @ mp_new_blocks p capacity"
    using l used gt length_mp_avail[of p] unfolding p'
    by (simp add: mp_avail_def[of "_\<lparr>mp_capacity := _\<rparr>"] ring_window_straight mp_new_blocks_def)
qed

lemma mp_alloc_eq:
  assumes wf: "mp_wf p" and avail: "mp_used p < mp_capacity p"
  shows "muggle_memory_pool_alloc m p = (Some (hd (mp_avail p)),
    p\<lparr>mp_used := mp_used p + 1, mp_peak := max (mp_peak p) (mp_used p + 1),
      mp_alloc_index := (mp_alloc_index p + 1) mod mp_capacity p\<rparr>)"
proof -
  have l: "length (mp_ptr_buf p) = mp_capacity p" "mp_capacity p < 2 ^ 32"
    using wf by (simp_all add: mp_wf_def)
  have a: "mp_alloc_index p < mp_capacity p" by (rule mp_alloc_index_less[OF wf])
  have wrap: "(if mp_alloc_index p + 1 = mp_capacity p then 0 else mp_alloc_index p + 1) =
    (mp_alloc_index p + 1) mod mp_capacity p"
    using a by (auto simp: mod_if)
  have u: "u32 (mp_used p + 1) = mp_used p + 1" "u32 (mp_alloc_index p + 1) = mp_alloc_index p + 1"
    using a l avail by simp_all
  show ?thesis unfolding wrap[symmetric] using avail a l u
    by (auto simp: muggle_memory_pool_alloc_def Let_def mp_avail_def ring_window_hd max_def)
qed

lemma mp_alloc_avail:
  assumes wf: "mp_wf p" and avail: "mp_used p < mp_capacity p"
    and run: "muggle_memory_pool_alloc m p = (r, p')"
  shows "r = Some (hd (mp_avail p))" "mp_wf p'" "mp_avail p' = tl (mp_avail p)"
    "mp_used p' = mp_used p + 1" "mp_block_size p' = mp_block_size p"
    "mp_data_bufs p' = mp_data_bufs p" "mp_num_buf p' = mp_num_buf p"
    "mp_capacity p' = mp_capacity p"
proof -
  have p': "p' = p\<lparr>mp_used := mp_used p + 1, mp_peak := max (mp_peak p) (mp_used p + 1),
      mp_alloc_index := (mp_alloc_index p + 1) mod mp_capacity p\<rparr>"
    and r: "r = Some (hd (mp_avail p))"
    using mp_alloc_eq[OF wf avail, of m] run by auto
  show "r = Some (hd (mp_avail p))" by (rule r)
  show "mp_wf p'" using wf avail unfolding p' by (auto simp: mp_wf_def mod_Suc_eq)
  show "mp_avail p' = tl (mp_avail p)"
    using wf avail unfolding p' by (simp add: mp_avail_def ring_window_tl mp_wf_def)
qed (use mp_alloc_eq[OF wf avail, of m] run in auto)

lemma mp_free_eq:
  assumes wf: "mp_wf p" and used: "0 < mp_used p"
  shows "muggle_memory_pool_free p a = p\<lparr>mp_ptr_buf := (mp_ptr_buf p)[mp_free_index p := a],
    mp_free_index := (mp_free_index p + 1) mod mp_capacity p, mp_used := mp_used p - 1\<rparr>"
proof -
  have l: "mp_capacity p < 2 ^ 32" "mp_free_index p < mp_capacity p" "mp_used p \<le> mp_capacity p"
    using wf by (simp_all add: mp_wf_def)
  have wrap: "(if mp_free_index p + 1 = mp_capacity p then 0 else mp_free_index p + 1) =
    (mp_free_index p + 1) mod mp_capacity p"
    using l by (auto simp: mod_if)
  have u: "u32 (Suc (mp_free_index p)) = Suc (mp_free_index p)" using l by simp
  obtain n where n: "mp_used p = Suc n" using used by (cases "mp_used p") auto
  with l have "u32 (mp_used p + (2 ^ 32 - 1)) = mp_used p - 1"
    by (simp add: u32_def)
  then show ?thesis unfolding wrap[symmetric]
    using u by (simp add: muggle_memory_pool_free_def Let_def)
qed

lemma mp_free_avail:
  assumes wf: "mp_wf p" and used: "0 < mp_used p"
  shows "mp_wf (muggle_memory_pool_free p a)"
    "mp_avail (muggle_memory_pool_free p a) = mp_avail p @ [a]"
proof -
  have l: "length (mp_ptr_buf p) = mp_capacity p" "mp_used p \<le> mp_capacity p"
    "mp_free_index p < mp_capacity p"
    "mp_alloc_index p = (mp_free_index p + mp_used p) mod mp_capacity p"
    using wf by (simp_all add: mp_wf_def)
  show "mp_wf (muggle_memory_pool_free p a)"
  proof -
    obtain n where n: "mp_used p = Suc n" using used by (cases "mp_used p") auto
    have "(Suc (mp_free_index p) mod mp_capacity p + n) mod mp_capacity p =
      (mp_free_index p + mp_used p) mod mp_capacity p"
      unfolding n by (metis add_Suc_shift mod_add_left_eq)
    then show ?thesis
      using wf used l n by (simp add: mp_free_eq[OF wf used] mp_wf_def)
  qed
  have f: "mp_free_index p = (mp_alloc_index p + (mp_capacity p - mp_used p)) mod mp_capacity p"
  proof -
    have "(mp_alloc_index p + (mp_capacity p - mp_used p)) mod mp_capacity p =
      (mp_free_index p + mp_used p + (mp_capacity p - mp_used p)) mod mp_capacity p"
      unfolding l(4) by (rule mod_add_left_eq)
    then show ?thesis using l by simp
  qed
  have n: "mp_capacity p - (mp_used p - 1) = Suc (mp_capacity p - mp_used p)" using used l by simp
  show "mp_avail (muggle_memory_pool_free p a) = mp_avail p @ [a]"
    using ring_window_snoc[of "mp_capacity p - mp_used p" "mp_ptr_buf p" "mp_alloc_index p" a] used l(1-3)
    unfolding mp_free_eq[OF wf used] mp_avail_def
    by (simp only: l(1) f[symmetric] n memory_pool.simps) (simp add: Suc_diff_le)
qed

section \<open>Invariant of a pool in use\<close>

lemma mp_fits_capacity:
  assumes "mp_fits block_size capacity" "0 < block_size"
  shows "capacity < 2 ^ 32"
proof -
  have "capacity \<le> block_size * capacity" using assms(2) by simp
  then show ?thesis using assms(1) unfolding mp_fits_def by (rule le_less_trans)
qed

text \<open>The blocks of one buffer of \<open>n\<close> blocks: distinct, aligned, inside the buffer.\<close>

lemma mp_block_fits:
  assumes "mp_fits bs n" "i < n"
  shows "mp_block b bs i = (b, i * bs)" "i * bs + bs \<le> u32 (bs * n)"
proof -
  have "Suc i * bs \<le> n * bs" using assms(2) by (intro mult_le_mono1) simp
  then have le: "i * bs + bs \<le> bs * n" by (simp add: mult.commute)
  have lim: "bs * n < 2 ^ 32" using assms(1) by (simp add: mp_fits_def)
  from le lim have "i * bs < 2 ^ 32" by linarith
  then show "mp_block b bs i = (b, i * bs)" by (simp add: mp_block_def)
  show "i * bs + bs \<le> u32 (bs * n)" using le lim by simp
qed

lemma mp_blocks_distinct:
  assumes "mp_fits bs n" "0 < bs"
  shows "distinct (map (mp_block b bs) [0..<n])"
  using assms by (auto simp: distinct_map inj_on_def mp_block_fits[OF assms(1)])

lemma mp_new_blocks_props:
  assumes fits: "mp_fits (mp_block_size p) (capacity - mp_capacity p)" and bs: "0 < mp_block_size p"
  shows "distinct (mp_new_blocks p capacity)"
    "\<And>a. a \<in> set (mp_new_blocks p capacity) \<Longrightarrow> fst a = mp_num_buf p \<and>
      snd a + mp_block_size p \<le> u32 (mp_block_size p * (capacity - mp_capacity p)) \<and>
      mp_block_size p dvd snd a"
  using mp_blocks_distinct[OF fits bs] mp_block_fits[OF fits]
  by (auto simp: mp_new_blocks_def)

lemma mp_inv_init:
  assumes run: "muggle_memory_pool_init m capacity block_size = (True, p)"
    and fits: "mp_fits block_size (mp_capacity p)"
  shows "mp_inv p {}"
proof -
  let ?c = "if capacity = 0 then 8 else capacity"
  from run obtain new where new: "malloc_array (m_ptr_buf m) ?c = Some new" and bs: "0 < block_size"
    by (auto simp: muggle_memory_pool_init_def Let_def split: if_splits option.splits)
  then have len: "length new = ?c" by (auto dest: malloc_array_Some)
  have c: "mp_capacity p = ?c" using run new
    by (auto simp: muggle_memory_pool_init_def Let_def split: if_splits option.splits)
  then have fits': "mp_fits block_size ?c" using fits by simp
  have "fill (mp_block 0 block_size) 0 ?c new = map (mp_block 0 block_size) [0..<?c]"
    using len by (subst fill_eq) simp_all
  with run new bs have p: "p = \<lparr>mp_data_bufs = [u32 (block_size * ?c)],
    mp_ptr_buf = map (mp_block 0 block_size) [0..<?c], mp_alloc_index = 0, mp_free_index = 0,
    mp_capacity = ?c, mp_used = 0, mp_block_size = block_size, mp_num_buf = 1, mp_flag = 0,
    mp_peak = 0\<rparr>"
    by (auto simp: muggle_memory_pool_init_def Let_def split: if_splits option.splits)
  have av: "mp_avail p = map (mp_block 0 block_size) [0..<?c]"
    unfolding p by (simp add: mp_avail_def ring_window_straight)
  have "mp_wf p" using mp_fits_capacity[OF fits' bs] unfolding p by (auto simp: mp_wf_def)
  moreover have "\<forall>a \<in> set (mp_avail p). mp_block_ok p a"
    unfolding av using mp_block_fits[OF fits'] by (auto simp: mp_block_ok_def p)
  ultimately show ?thesis
    using mp_blocks_distinct[OF fits' bs, of 0] bs unfolding mp_inv_def av by (simp add: p)
qed

lemma mp_inv_free:
  assumes inv: "mp_inv p out" and a: "a \<in> out"
  shows "mp_inv (muggle_memory_pool_free p a) (out - {a})"
proof -
  have wf: "mp_wf p" and used: "0 < mp_used p"
    using inv a by (auto simp: mp_inv_def intro: card_gt_0_iff[THEN iffD2])
  have ok: "mp_block_ok (muggle_memory_pool_free p a) b = mp_block_ok p b" for b
    by (simp add: mp_free_eq[OF wf used] mp_block_ok_def)
  have "mp_used (muggle_memory_pool_free p a) = mp_used p - 1"
    "mp_block_size (muggle_memory_pool_free p a) = mp_block_size p"
    "mp_num_buf (muggle_memory_pool_free p a) = mp_num_buf p"
    "mp_data_bufs (muggle_memory_pool_free p a) = mp_data_bufs p"
    by (simp_all add: mp_free_eq[OF wf used])
  with inv a mp_free_avail[OF wf used, of a] show ?thesis
    by (auto simp: mp_inv_def ok)
qed

lemma mp_inv_grow:
  assumes inv: "mp_inv p out" and used: "mp_used p \<noteq> 0"
    and gt: "mp_capacity p < capacity" and fits: "mp_grow_fits p capacity"
    and run: "muggle_memory_pool_ensure_space m capacity p = (True, p')"
  shows "mp_inv p' out"
proof -
  have wf: "mp_wf p" and bs: "0 < mp_block_size p" and nb: "mp_num_buf p = length (mp_data_bufs p)"
    using inv by (auto simp: mp_inv_def)
  have lim: "capacity < 2 ^ 32" and fits': "mp_fits (mp_block_size p) (capacity - mp_capacity p)"
    using fits by (simp_all add: mp_grow_fits_def)
  have used': "0 < mp_used p" using used by simp
  note av = mp_ensure_space_avail[OF wf used' gt lim run]
  note p' = mp_ensure_space_grown[OF wf gt run]
  note nw = mp_new_blocks_props[OF fits' bs]
  have old: "mp_block_ok p' a \<and> fst a < mp_num_buf p" if "a \<in> set (mp_avail p) \<union> out" for a
  proof -
    have "mp_block_ok p a" using inv that unfolding mp_inv_def by blast
    then show ?thesis using nb by (auto simp: mp_block_ok_def p' nth_append)
  qed
  have new: "mp_block_ok p' a \<and> fst a = mp_num_buf p" if "a \<in> set (mp_new_blocks p capacity)" for a
    using nw(2)[OF that] nb by (auto simp: mp_block_ok_def p' nth_append)
  have disj: "set (mp_new_blocks p capacity) \<inter> (set (mp_avail p) \<union> out) = {}"
    using old new by fastforce
  have same: "mp_used p' = mp_used p" "mp_block_size p' = mp_block_size p"
    "mp_num_buf p' = length (mp_data_bufs p')" using nb by (simp_all add: p')
  show ?thesis
    using inv av disj nw(1) old new same unfolding mp_inv_def by auto
qed

lemma mp_inv_ensure_space:
  assumes "mp_inv p out" "capacity \<le> mp_capacity p \<or> mp_used p \<noteq> 0 \<and> mp_grow_fits p capacity"
    "muggle_memory_pool_ensure_space m capacity p = (ok, p')"
  shows "mp_inv p' out"
  using assms mp_inv_grow[of p out capacity m p'] mp_ensure_space_refused[of m capacity p p']
    mp_ensure_space_noop[of capacity p m]
  by (cases "capacity \<le> mp_capacity p"; cases ok) auto

text \<open>An allocation, with the growth step it may start with.\<close>

lemma mp_alloc_split:
  assumes inv: "mp_inv p out" and fits: "mp_alloc_fits p"
    and run: "muggle_memory_pool_alloc m p = (Some a, p')"
  obtains q where "mp_inv q out" "mp_used q < mp_capacity q" "muggle_memory_pool_alloc m q = (Some a, p')"
    "mp_block_size q = mp_block_size p"
proof (cases "mp_used p = mp_capacity p")
  case False
  with inv that[of p] run show ?thesis by (auto simp: mp_inv_def mp_wf_def)
next
  case True
  have wf: "mp_wf p" using inv by (simp add: mp_inv_def)
  then have pos: "0 < mp_capacity p" by (simp add: mp_wf_def)
  have grow: "mp_grow_fits p (mp_capacity p * 2)" using fits True by (simp add: mp_alloc_fits_def)
  then have lim: "mp_capacity p * 2 < 2 ^ 32" by (simp add: mp_grow_fits_def)
  then have u: "u32 (mp_capacity p * 2) = mp_capacity p * 2" by simp
  obtain ok q where e: "muggle_memory_pool_ensure_space m (mp_capacity p * 2) p = (ok, q)"
    by (cases "muggle_memory_pool_ensure_space m (mp_capacity p * 2) p")
  with run True u have ok by (auto simp: muggle_memory_pool_alloc_def Let_def split: if_splits)
  with e have e: "muggle_memory_pool_ensure_space m (mp_capacity p * 2) p = (True, q)" by simp
  have gt: "mp_capacity p < mp_capacity p * 2" using pos by simp
  have inv': "mp_inv q out" using mp_inv_ensure_space[OF inv _ e] True pos grow by simp
  have q: "mp_used q = mp_used p" "mp_capacity q = mp_capacity p * 2" "mp_block_size q = mp_block_size p"
    by (simp_all add: mp_ensure_space_grown[OF wf gt e])
  then have less: "mp_used q < mp_capacity q" using True pos by simp
  have "muggle_memory_pool_alloc m q = muggle_memory_pool_alloc m p"
    using True e u less by (simp add: muggle_memory_pool_alloc_def)
  with that[of q] inv' less run q show ?thesis by simp
qed

lemma mp_inv_alloc:
  assumes inv: "mp_inv p out" and fits: "mp_alloc_fits p"
    and run: "muggle_memory_pool_alloc m p = (Some a, p')"
  shows "mp_inv p' (insert a out)" "a \<notin> out"
proof -
  obtain q where q: "mp_inv q out" "mp_used q < mp_capacity q"
    "muggle_memory_pool_alloc m q = (Some a, p')"
    using mp_alloc_split[OF inv fits run] by metis
  have wf: "mp_wf q" using q(1) by (simp add: mp_inv_def)
  note r = mp_alloc_avail[OF wf q(2,3)]
  have "mp_avail q \<noteq> []" using q(2) length_mp_avail[of q] by force
  then obtain x xs where av: "mp_avail q = x # xs" by (cases "mp_avail q") auto
  with r have a: "a = x" and tl: "mp_avail p' = xs" by auto
  show "a \<notin> out" using q(1) av a by (auto simp: mp_inv_def)
  then show "mp_inv p' (insert a out)"
    using q(1) r av a tl by (auto simp: mp_inv_def mp_block_ok_def)
qed

lemma mp_alloc_null:
  assumes "muggle_memory_pool_alloc m p = (None, p')"
  shows "p' = p" "mp_used p = mp_capacity p"
    "fst (muggle_memory_pool_ensure_space m (u32 (mp_capacity p * 2)) p) = False"
  using assms
  by (auto simp: muggle_memory_pool_alloc_def Let_def dest: mp_ensure_space_refused
      split: if_splits prod.splits)

lemma mp_inv_reach: "mp_reach p out \<Longrightarrow> mp_inv p out"
proof (induction rule: mp_reach.induct)
  case init
  then show ?case by (rule mp_inv_init)
next
  case (alloc p out m a p')
  show ?case by (rule mp_inv_alloc(1)[OF alloc.IH alloc.hyps(2,3)])
next
  case (alloc_null p out m p')
  then show ?case using mp_alloc_null[of m p p'] by simp
next
  case (free p out a)
  show ?case by (rule mp_inv_free[OF free.IH free.hyps(2)])
next
  case (ensure_space p out capacity m ok p')
  show ?case by (rule mp_inv_ensure_space[OF ensure_space.IH ensure_space.hyps(2,3)])
next
  case (set_flag p out flag)
  then show ?case
    by (auto simp: mp_inv_def mp_wf_def mp_avail_def mp_block_ok_def muggle_memory_pool_set_flag_def)
qed

section \<open>Properties\<close>

lemma mp_bytes_disjoint:
  assumes "mp_block_ok p a" "mp_block_ok p b" "a \<noteq> b"
  shows "mp_bytes p a \<inter> mp_bytes p b = {}"
proof -
  obtain i j where ij: "snd a = mp_block_size p * i" "snd b = mp_block_size p * j"
    using assms(1,2) unfolding mp_block_ok_def dvd_def by blast
  have *: "mp_block_size p * k + mp_block_size p \<le> mp_block_size p * l" if "k < l" for k l
    using that mult_le_mono2[of "Suc k" l "mp_block_size p"] by simp
  show ?thesis
  proof (cases "fst a = fst b")
    case True
    with assms(3) have "snd a \<noteq> snd b" by (auto simp: prod_eq_iff)
    then have "i < j \<or> j < i" using ij by (metis nat_neq_iff)
    then show ?thesis using *[of i j] *[of j i] ij by (auto simp: mp_bytes_def)
  qed (auto simp: mp_bytes_def)
qed


definition mp_demo_mallocs :: mp_mallocs where
  "mp_demo_mallocs = \<lparr>m_data_bufs = True, m_ptr_buf = Some (\<lambda>_. (7, 7)), m_data = True\<rparr>"

definition mp_demo :: memory_pool where
  "mp_demo = \<lparr>mp_data_bufs = [4], mp_ptr_buf = [(0, 0)], mp_alloc_index = 0, mp_free_index = 0,
     mp_capacity = 1, mp_used = 1, mp_block_size = 4, mp_num_buf = 1, mp_flag = 0, mp_peak = 1\<rparr>"

lemmas mp_eval = muggle_memory_pool_init_def muggle_memory_pool_alloc_def
  muggle_memory_pool_free_def muggle_memory_pool_ensure_space_def mp_relocate_def mp_sections_def
  mp_block_def blit_def u32_def MUGGLE_MEMORY_POOL_CONSTANT_SIZE_def mp_demo_mallocs_def
  mp_demo_def Let_def fill_def

lemma mp_demo_reach: "mp_reach mp_demo {(0, 0)}"
proof -
  have "muggle_memory_pool_init mp_demo_mallocs 1 4 = (True, mp_demo\<lparr>mp_used := 0, mp_peak := 0\<rparr>)"
    by (simp add: mp_eval)
  then have init: "mp_reach (mp_demo\<lparr>mp_used := 0, mp_peak := 0\<rparr>) {}"
    by (rule mp_reach.init) (simp add: mp_fits_def mp_demo_def)
  have "muggle_memory_pool_alloc mp_demo_mallocs (mp_demo\<lparr>mp_used := 0, mp_peak := 0\<rparr>) =
    (Some (0, 0), mp_demo)"
    by (simp add: mp_eval)
  from mp_reach.alloc[OF init _ this] show ?thesis by (simp add: mp_alloc_fits_def mp_demo_def)
qed


text \<open>An allocation from a full pool: the new buffer's first block, or, where the doubled capacity
  wraps and \<open>ensure_space\<close> has nothing to do, whatever address the next slot of the ring holds.\<close>

lemma mp_alloc_full:
  assumes wf: "mp_wf p" and full: "mp_used p = mp_capacity p" and lim: "mp_capacity p * 2 < 2 ^ 32"
    and some: "fst (muggle_memory_pool_alloc m p) \<noteq> None"
  shows "\<exists>p'. muggle_memory_pool_alloc m p = (Some (hd (mp_new_blocks p (mp_capacity p * 2))), p') \<and>
    mp_wf p' \<and> mp_avail p' = tl (mp_new_blocks p (mp_capacity p * 2)) \<and>
    mp_capacity p' = mp_capacity p * 2 \<and> mp_used p' = mp_used p + 1"
proof -
  have pos: "0 < mp_capacity p" using wf by (simp add: mp_wf_def)
  have u: "u32 (mp_capacity p * 2) = mp_capacity p * 2" using lim by simp
  obtain ok q where e: "muggle_memory_pool_ensure_space m (mp_capacity p * 2) p = (ok, q)" by (rule prod.exhaust)
  have ok using some e full u by (auto simp: muggle_memory_pool_alloc_def Let_def split: if_splits)
  with e have e: "muggle_memory_pool_ensure_space m (mp_capacity p * 2) p = (True, q)" by simp
  have gt: "mp_capacity p < mp_capacity p * 2" and used: "0 < mp_used p" using pos full by simp_all
  note av = mp_ensure_space_avail[OF wf used gt lim e]
  have q: "mp_used q = mp_used p" "mp_capacity q = mp_capacity p * 2"
    by (simp_all add: mp_ensure_space_grown[OF wf gt e])
  then have less: "mp_used q < mp_capacity q" using full pos by simp
  have same: "muggle_memory_pool_alloc m q = muggle_memory_pool_alloc m p"
    using full e u less by (simp add: muggle_memory_pool_alloc_def)
  have "mp_avail p = []" using full length_mp_avail[of p] by simp
  then show ?thesis using mp_alloc_avail[OF av(1) less, of m] av(2) q same by (metis append_Nil surj_pair)
qed

lemma mp_double_wraps:
  assumes wf: "mp_wf p" and full: "mp_used p = mp_capacity p" and lim: "2 ^ 31 \<le> mp_capacity p"
  shows "fst (muggle_memory_pool_alloc m p) = Some (mp_ptr_buf p ! mp_alloc_index p)"
proof -
  have "mp_capacity p < 2 ^ 32" using wf by (simp add: mp_wf_def)
  then have "u32 (mp_capacity p * 2) = mp_capacity p * 2 - 2 ^ 32" using lim by (simp add: u32_def mod_if)
  then have "u32 (mp_capacity p * 2) \<le> mp_capacity p" using \<open>mp_capacity p < 2 ^ 32\<close> by simp
  then show ?thesis using full
    by (simp add: muggle_memory_pool_alloc_def Let_def mp_ensure_space_noop)
qed

text \<open>
  C2 (the pool is a queue of blocks). On a well-formed pool an allocation takes the front of the
  queue of available blocks, a release puts the block at its end, a growth while blocks are in use
  appends the new blocks, and an allocation from a full pool that can grow does both; each keeps
  well-formedness. An allocation returns \<^verbatim>\<open>NULL\<close> only when all blocks are in use and the growth to
  twice the capacity is refused; it leaves the pool as it is, as does every growth that is refused
  or not needed. Two cases are not those of a queue: a growth of a pool with no block in use
  starts allocating at the old capacity but releasing at 0, so that the pool is no longer
  well-formed; and a full pool of \<open>2 ^ 31\<close> blocks or more does not grow, because twice its capacity
  wraps, and hands out the address in its next slot although no block is available.
\<close>

theorem mp_queue_of_blocks:
  assumes wf: "mp_wf p"
  shows "(mp_used p < mp_capacity p \<longrightarrow>
      (\<exists>p'. muggle_memory_pool_alloc m p = (Some (hd (mp_avail p)), p') \<and>
        mp_wf p' \<and> mp_avail p' = tl (mp_avail p) \<and> mp_used p' = mp_used p + 1)) \<and>
    (0 < mp_used p \<longrightarrow> mp_wf (muggle_memory_pool_free p a) \<and>
      mp_avail (muggle_memory_pool_free p a) = mp_avail p @ [a] \<and>
      mp_used (muggle_memory_pool_free p a) = mp_used p - 1) \<and>
    (0 < mp_used p \<and> mp_capacity p < capacity \<and> capacity < 2 ^ 32 \<and>
      muggle_memory_pool_ensure_space m capacity p = (True, q) \<longrightarrow>
      mp_wf q \<and> mp_avail q = mp_avail p @ mp_new_blocks p capacity \<and> mp_capacity q = capacity) \<and>
    (fst (muggle_memory_pool_alloc m p) = None \<longrightarrow>
      snd (muggle_memory_pool_alloc m p) = p \<and> mp_used p = mp_capacity p \<and>
      \<not> fst (muggle_memory_pool_ensure_space m (u32 (mp_capacity p * 2)) p)) \<and>
    (mp_used p = mp_capacity p \<and> mp_capacity p * 2 < 2 ^ 32 \<and> fst (muggle_memory_pool_alloc m p) \<noteq> None \<longrightarrow>
      (\<exists>p'. muggle_memory_pool_alloc m p = (Some (hd (mp_new_blocks p (mp_capacity p * 2))), p') \<and>
        mp_wf p' \<and> mp_avail p' = tl (mp_new_blocks p (mp_capacity p * 2)) \<and>
        mp_capacity p' = mp_capacity p * 2 \<and> mp_used p' = mp_used p + 1)) \<and>
    (muggle_memory_pool_ensure_space m capacity p = (ok, q) \<and> (\<not> ok \<or> capacity \<le> mp_capacity p) \<longrightarrow> q = p) \<and>
    (mp_used p = 0 \<and> mp_capacity p < capacity \<and> muggle_memory_pool_ensure_space m capacity p = (True, q) \<longrightarrow>
      mp_alloc_index q = mp_capacity p \<and> mp_free_index q = 0 \<and> \<not> mp_wf q) \<and>
    (mp_used p = mp_capacity p \<and> 2 ^ 31 \<le> mp_capacity p \<longrightarrow>
      fst (muggle_memory_pool_alloc m p) = Some (mp_ptr_buf p ! mp_alloc_index p))"
proof (intro conjI impI)
  assume "mp_used p < mp_capacity p"
  from mp_alloc_avail[OF wf this]
  show "\<exists>p'. muggle_memory_pool_alloc m p = (Some (hd (mp_avail p)), p') \<and>
      mp_wf p' \<and> mp_avail p' = tl (mp_avail p) \<and> mp_used p' = mp_used p + 1"
    by (metis surj_pair)
next
  assume used: "0 < mp_used p"
  show "mp_wf (muggle_memory_pool_free p a)"
    "mp_avail (muggle_memory_pool_free p a) = mp_avail p @ [a]"
    "mp_used (muggle_memory_pool_free p a) = mp_used p - 1"
    using mp_free_avail[OF wf used] by (simp_all add: mp_free_eq[OF wf used])
next
  assume g: "0 < mp_used p \<and> mp_capacity p < capacity \<and> capacity < 2 ^ 32 \<and>
    muggle_memory_pool_ensure_space m capacity p = (True, q)"
  then show "mp_wf q" "mp_avail q = mp_avail p @ mp_new_blocks p capacity" "mp_capacity q = capacity"
    using mp_ensure_space_avail[OF wf, of capacity m q] mp_ensure_space_grown[OF wf, of capacity m q]
    by simp_all
next
  assume "fst (muggle_memory_pool_alloc m p) = None"
  then have "muggle_memory_pool_alloc m p = (None, snd (muggle_memory_pool_alloc m p))"
    by (simp add: prod_eq_iff)
  from mp_alloc_null[OF this]
  show "snd (muggle_memory_pool_alloc m p) = p" "mp_used p = mp_capacity p"
    "\<not> fst (muggle_memory_pool_ensure_space m (u32 (mp_capacity p * 2)) p)"
    by simp_all
next
  assume "mp_used p = mp_capacity p \<and> mp_capacity p * 2 < 2 ^ 32 \<and> fst (muggle_memory_pool_alloc m p) \<noteq> None"
  then show "\<exists>p'. muggle_memory_pool_alloc m p = (Some (hd (mp_new_blocks p (mp_capacity p * 2))), p') \<and>
      mp_wf p' \<and> mp_avail p' = tl (mp_new_blocks p (mp_capacity p * 2)) \<and>
      mp_capacity p' = mp_capacity p * 2 \<and> mp_used p' = mp_used p + 1"
    using mp_alloc_full[OF wf, of m] by blast
next
  assume "muggle_memory_pool_ensure_space m capacity p = (ok, q) \<and> (\<not> ok \<or> capacity \<le> mp_capacity p)"
  then show "q = p" using mp_ensure_space_refused[of m capacity p q] mp_ensure_space_noop[of capacity p m] by auto
next
  assume g: "mp_used p = 0 \<and> mp_capacity p < capacity \<and> muggle_memory_pool_ensure_space m capacity p = (True, q)"
  then have q: "mp_alloc_index q = mp_capacity p" "mp_free_index q = 0" "mp_used q = 0" "mp_capacity q = capacity"
    using mp_ensure_space_grown[OF wf, of capacity m q] by simp_all
  then show "mp_alloc_index q = mp_capacity p" "mp_free_index q = 0" by simp_all
  show "\<not> mp_wf q" using q g wf by (simp add: mp_wf_def)
next
  assume "mp_used p = mp_capacity p \<and> 2 ^ 31 \<le> mp_capacity p"
  then show "fst (muggle_memory_pool_alloc m p) = Some (mp_ptr_buf p ! mp_alloc_index p)"
    using mp_double_wraps[OF wf] by simp
qed

theorem mp_queue_of_blocks_witness:
  "mp_wf mp_demo \<and> mp_avail (muggle_memory_pool_free mp_demo (0, 0)) = [(0, 0)] \<and>
   fst (muggle_memory_pool_alloc (mp_demo_mallocs\<lparr>m_data := False\<rparr>) mp_demo) = None \<and>
   snd (muggle_memory_pool_alloc (mp_demo_mallocs\<lparr>m_data := False\<rparr>) mp_demo) = mp_demo"
proof -
  have wf: "mp_wf mp_demo" by (simp add: mp_wf_def mp_demo_def)
  have used: "0 < mp_used mp_demo" and av: "mp_avail mp_demo = []"
    by (simp_all add: mp_demo_def mp_avail_def)
  have "fst (muggle_memory_pool_alloc (mp_demo_mallocs\<lparr>m_data := False\<rparr>) mp_demo) = None"
    by (simp add: mp_eval)
  with mp_queue_of_blocks[OF wf, of "mp_demo_mallocs\<lparr>m_data := False\<rparr>" "(0, 0)"] wf used av
  show ?thesis by simp
qed

text \<open>
  A pool of 65537 blocks of 65536 bytes: the size \<open>2 ^ 32 + 2 ^ 16\<close> of its data buffer wraps to that
  of a single block, all but the first and the last block lie outside it, and the last block is
  the first one again.
\<close>

lemma mp_size_wraps:
  assumes "muggle_memory_pool_init m 65537 65536 = (True, p)"
  shows "mp_data_bufs p = [65536] \<and> mp_ptr_buf p ! 65536 = mp_ptr_buf p ! 0 \<and>
    mp_ptr_buf p ! 1 = (0, 65536) \<and> \<not> mp_block_ok p (0, 65536)"
proof -
  from assms obtain new where new: "malloc_array (m_ptr_buf m) 65537 = Some new"
    by (auto simp: muggle_memory_pool_init_def Let_def split: if_splits option.splits)
  then have len: "length new = 65537" by (auto dest: malloc_array_Some)
  have "mp_ptr_buf p = fill (mp_block 0 65536) 0 65537 new" and p: "mp_data_bufs p = [65536]" "mp_block_size p = 65536"
    using assms new by (auto simp: muggle_memory_pool_init_def Let_def u32_def split: if_splits)
  moreover have "fill (mp_block 0 65536) 0 65537 new = map (mp_block 0 65536) [0..<65537]"
    using len by (subst fill_eq) simp_all
  ultimately show ?thesis by (simp add: mp_block_def u32_def mp_block_ok_def del: upt_rec_numeral)
qed

text \<open>
  Growing an idle pool (\<open>used = 0\<close>) copies all blocks into the slots of blocks in use and starts
  allocation behind them, while \<open>free_index\<close> is reset to 0. The first release then overwrites a
  block that was never handed out and leaves the released one in the ring twice: of the next
  \<open>capacity\<close> allocations two return the same address.
\<close>

fun mp_alloc_n :: "mp_mallocs \<Rightarrow> nat \<Rightarrow> memory_pool \<Rightarrow> mp_addr ptr list" where
  "mp_alloc_n m 0 p = []"
| "mp_alloc_n m (Suc n) p =
     (let (a, p') = muggle_memory_pool_alloc m p in a # mp_alloc_n m n p')"

definition mp_idle :: "mp_addr list \<Rightarrow> nat \<Rightarrow> nat \<Rightarrow> nat \<Rightarrow> nat \<Rightarrow> memory_pool" where
  "mp_idle ptrs alloc_index free_index used peak =
     \<lparr>mp_data_bufs = [8, 8], mp_ptr_buf = ptrs, mp_alloc_index = alloc_index,
      mp_free_index = free_index, mp_capacity = 4, mp_used = used, mp_block_size = 4,
      mp_num_buf = 2, mp_flag = 0, mp_peak = peak\<rparr>"

lemma mp_idle_alloc:
  "i < 4 \<Longrightarrow> used < 4 \<Longrightarrow> length ptrs = 4 \<Longrightarrow>
   muggle_memory_pool_alloc m (mp_idle ptrs i f used peak) =
    (Some (ptrs ! i), mp_idle ptrs (if i = 3 then 0 else Suc i) f (Suc used) (max peak (Suc used)))"
  by (auto simp: muggle_memory_pool_alloc_def mp_idle_def Let_def u32_def max_def)

lemma mp_idle_growth_duplicates:
  "let p0 = snd (muggle_memory_pool_init mp_demo_mallocs 2 4);
       p1 = snd (muggle_memory_pool_ensure_space mp_demo_mallocs 4 p0);
       p2 = snd (muggle_memory_pool_alloc mp_demo_mallocs p1);
       p3 = muggle_memory_pool_free p2 (1, 0)
   in fst (muggle_memory_pool_alloc mp_demo_mallocs p1) = Some (1, 0) \<and>
      mp_alloc_n mp_demo_mallocs (Suc (Suc (Suc (Suc 0)))) p3 =
        [Some (1, 4), Some (1, 0), Some (0, 4), Some (1, 0)]"
proof -
  have "snd (muggle_memory_pool_ensure_space mp_demo_mallocs 4
      (snd (muggle_memory_pool_init mp_demo_mallocs 2 4))) =
    mp_idle [(0, 0), (0, 4), (1, 0), (1, 4)] 2 0 0 0"
    by (simp add: mp_eval mp_idle_def upt_conv_Cons)
  moreover have "muggle_memory_pool_free (mp_idle [(0, 0), (0, 4), (1, 0), (1, 4)] 3 0 1 1) (1, 0) =
    mp_idle [(1, 0), (0, 4), (1, 0), (1, 4)] 3 1 0 1"
    by (simp add: mp_eval mp_idle_def upt_conv_Cons)
  ultimately show ?thesis by (simp add: mp_idle_alloc)
qed

end
