(* ===== verification/Dsaa_Utils.thy ===== *)
theory Dsaa_Utils
  imports Muggle_Prelude
begin

text \<open>
  What the containers share (\<^verbatim>\<open>muggle/c/dsaa/dsaa_utils.h\<close>): the contract of a compare
  callback as the locale \<open>data_cmp\<close>, and the capacity check. The contract is interpreted on
  the string comparison that the repository's own tests pass to the containers.
\<close>

section \<open>Definitions\<close>

text \<open>
  \<^verbatim>\<open>MUGGLE_DS_CAP_IS_VALID\<close>. The constant \<^verbatim>\<open>1<<31\<close> is an \<^verbatim>\<open>int\<close>: it is \<open>- 2 ^ 31\<close>, and its
  conversion to \<^verbatim>\<open>uint64_t\<close> sign-extends it.
\<close>

definition MUGGLE_DS_CAP_IS_VALID :: "nat \<Rightarrow> bool" where
  "MUGGLE_DS_CAP_IS_VALID capacity =
     (if capacity \<ge> to_u64 (to_int32 (2 ^ 31)) then False else True)"

text \<open>\<^verbatim>\<open>strncmp\<close> on zero-terminated strings: characters compare as \<^verbatim>\<open>unsigned char\<close>.\<close>

definition cstr_head :: "string \<Rightarrow> nat" where
  "cstr_head s = (case s of [] \<Rightarrow> 0 | c # _ \<Rightarrow> of_char c)"

fun strncmp :: "nat \<Rightarrow> string \<Rightarrow> string \<Rightarrow> int" where
  "strncmp 0 s1 s2 = 0"
| "strncmp (Suc n) s1 s2 =
     (if cstr_head s1 \<noteq> cstr_head s2 then int (cstr_head s1) - int (cstr_head s2)
      else if cstr_head s1 = 0 then 0
      else strncmp n (tl s1) (tl s2))"

text \<open>
  \<open>test_utils_cmp_str\<close>. Two equal pointers compare as 0 without a look at the strings; equal
  strings compare as 0 too, so pointers to equal strings need not be told apart.
\<close>

definition test_utils_cmp_str :: "string ptr \<Rightarrow> string ptr \<Rightarrow> int" where
  "test_utils_cmp_str p1 p2 =
    (case (p1, p2) of
       (None, None) \<Rightarrow> 0
     | (None, Some _) \<Rightarrow> -1
     | (Some _, None) \<Rightarrow> 1
     | (Some s1, Some s2) \<Rightarrow> strncmp 64 s1 s2)"

text \<open>\<open>test_utils_cmp_int\<close>: the difference of two \<^verbatim>\<open>int\<close>s.\<close>

definition test_utils_cmp_int :: "int ptr \<Rightarrow> int ptr \<Rightarrow> int" where
  "test_utils_cmp_int p1 p2 =
    (case (p1, p2) of
       (None, None) \<Rightarrow> 0
     | (None, Some _) \<Rightarrow> -1
     | (Some _, None) \<Rightarrow> 1
     | (Some a, Some b) \<Rightarrow> to_int32 (a - b))"

section \<open>The compare contract\<close>

text \<open>
  The documented results of a compare callback: positive, zero or negative as the first datum is
  above, equal to or below the second, for some total preorder of the data.
\<close>

locale data_cmp =
  fixes cmp :: "'a \<Rightarrow> 'a \<Rightarrow> int"
  assumes cmp_sym: "sgn (cmp y x) = - sgn (cmp x y)"
    and cmp_trans: "cmp x y \<le> 0 \<Longrightarrow> cmp y z \<le> 0 \<Longrightarrow> cmp x z \<le> 0"
begin

lemma cmp_refl [simp]: "cmp x x = 0"
  using cmp_sym[of x x] by (simp add: sgn_if split: if_splits)

lemma cmp_neg_iff: "cmp x y < 0 \<longleftrightarrow> 0 < cmp y x"
  using cmp_sym[of x y] by (auto simp: sgn_if split: if_splits)

lemma cmp_le_iff: "cmp x y \<le> 0 \<longleftrightarrow> 0 \<le> cmp y x"
  using cmp_sym[of x y] by (auto simp: sgn_if split: if_splits)

lemma cmp_ge_iff: "0 \<le> cmp x y \<longleftrightarrow> cmp y x \<le> 0"
  by (rule cmp_le_iff[symmetric])

lemma cmp_zero_iff: "cmp x y = 0 \<longleftrightarrow> cmp y x = 0"
  using cmp_sym[of x y] by (auto simp: sgn_if split: if_splits)

lemma cmp_total: "cmp x y \<le> 0 \<or> cmp y x \<le> 0"
  using cmp_le_iff[of x y] by linarith

lemma cmp_less_trans: "cmp x y < 0 \<Longrightarrow> cmp y z \<le> 0 \<Longrightarrow> cmp x z < 0"
proof -
  assume xy: "cmp x y < 0" and yz: "cmp y z \<le> 0"
  have "\<not> cmp z x \<le> 0"
  proof
    assume "cmp z x \<le> 0"
    with yz have "cmp y x \<le> 0" by (rule cmp_trans)
    with xy show False using cmp_neg_iff[of x y] by simp
  qed
  then show "cmp x z < 0" using cmp_neg_iff[of x z] by simp
qed

lemma cmp_le_less_trans: "cmp x y \<le> 0 \<Longrightarrow> cmp y z < 0 \<Longrightarrow> cmp x z < 0"
proof -
  assume xy: "cmp x y \<le> 0" and yz: "cmp y z < 0"
  have "\<not> cmp z x \<le> 0"
  proof
    assume "cmp z x \<le> 0"
    then have "cmp z y \<le> 0" using xy by (rule cmp_trans)
    with yz show False using cmp_neg_iff[of y z] by simp
  qed
  then show "cmp x z < 0" using cmp_neg_iff[of x z] by simp
qed

text \<open>Data that compare as 0 behave alike in every comparison.\<close>

lemma cmp_zero_trans: "cmp x y = 0 \<Longrightarrow> cmp y z = 0 \<Longrightarrow> cmp x z = 0"
  using cmp_trans[of x y z] cmp_trans[of z y x] cmp_zero_iff[of x y] cmp_zero_iff[of y z] cmp_le_iff[of z x]
  by auto

lemma cmp_zero_left: "cmp x y = 0 \<Longrightarrow> cmp x z < 0 \<longleftrightarrow> cmp y z < 0"
  using cmp_le_less_trans[of x y z] cmp_le_less_trans[of y x z] cmp_zero_iff[of x y] by auto

end

section \<open>The string comparison is such a callback\<close>

lemma strncmp_sym: "strncmp n t s = - strncmp n s t"
proof (induction n arbitrary: s t)
  case (Suc n)
  show ?case using Suc.IH[of "tl t" "tl s"] by auto
qed simp

lemma strncmp_trans: "strncmp n s t \<le> 0 \<Longrightarrow> strncmp n t u \<le> 0 \<Longrightarrow> strncmp n s u \<le> 0"
  by (induction n arbitrary: s t u) (auto split: if_splits)

interpretation cmp_str: data_cmp test_utils_cmp_str
proof unfold_locales
  fix x y z
  show "sgn (test_utils_cmp_str y x) = - sgn (test_utils_cmp_str x y)"
    using strncmp_sym[of 64 "the x" "the y"]
    by (auto simp: test_utils_cmp_str_def sgn_if simp del: strncmp.simps split: option.splits)
  show "test_utils_cmp_str x y \<le> 0 \<Longrightarrow> test_utils_cmp_str y z \<le> 0 \<Longrightarrow> test_utils_cmp_str x z \<le> 0"
    using strncmp_trans[of 64 "the x" "the y" "the z"]
    by (auto simp: test_utils_cmp_str_def simp del: strncmp.simps split: option.splits)
qed

lemma data_cmp_test_utils_cmp_str: "data_cmp test_utils_cmp_str"
  by unfold_locales

text \<open>A compare callback on unbounded numbers that orders NULL first, for examples.\<close>

definition ex_cmp :: "int ptr \<Rightarrow> int ptr \<Rightarrow> int" where
  "ex_cmp p q = (case (p, q) of (None, None) \<Rightarrow> 0 | (None, Some _) \<Rightarrow> -1 | (Some _, None) \<Rightarrow> 1
     | (Some a, Some b) \<Rightarrow> a - b)"

lemma ex_cmp_simps [simp]:
  "ex_cmp None None = 0" "ex_cmp None (Some b) = -1" "ex_cmp (Some a) None = 1"
  "ex_cmp (Some a) (Some b) = a - b"
  by (simp_all add: ex_cmp_def)

lemma data_cmp_ex_cmp: "data_cmp ex_cmp"
  by unfold_locales (auto simp: ex_cmp_def sgn_if split: option.splits)

section \<open>The contract of a growing array\<close>

text \<open>
  Array list, stack and heap keep their items in an array that \<open>ensure\<close> reallocates. All three
  grow it to twice its capacity when it is full, before they store an item. \<open>lim\<close> bounds the
  capacities whose size in bytes is a \<^verbatim>\<open>size_t\<close>, and \<open>null\<close> is the failing allocation.
\<close>

locale growing_array =
  fixes ensure :: "'m \<Rightarrow> 's \<Rightarrow> nat \<Rightarrow> bool \<times> 's"
    and cap :: "'s \<Rightarrow> nat" and len :: "'s \<Rightarrow> nat"
    and items :: "'s \<Rightarrow> 'x list" and ok :: "'s \<Rightarrow> bool" and lim :: nat
    and null :: 'm
  assumes ensure_refused: "ensure m s c = (False, s') \<Longrightarrow> s' = s"
    and ensure_granted: "ok s \<Longrightarrow> c < lim \<Longrightarrow> ensure m s c = (True, s') \<Longrightarrow>
      ok s' \<and> items s' = items s \<and> len s' = len s \<and> c \<le> cap s' \<and> (cap s' = cap s \<or> cap s' = c)"
    and ensure_null: "ok s \<Longrightarrow> c < lim \<Longrightarrow> fst (ensure m s c) \<longleftrightarrow> c \<le> cap s \<or> m \<noteq> null"
    and cap_bounds: "ok s \<Longrightarrow> 0 < cap s \<and> len s \<le> cap s \<and> length (items s) = len s"
    and lim_bound: "lim \<le> 2 ^ 64"
begin

text \<open>The growth step that precedes an insertion.\<close>

lemma room_granted:
  assumes "ok s" "cap s * 2 < lim"
    and run: "(if len s = cap s then ensure m s (u64 (cap s * 2)) else (True, s)) = (True, s')"
  shows "ok s'" "items s' = items s" "len s' = len s" "len s' < cap s'" "cap s' \<le> cap s * 2"
proof -
  have small: "u64 (cap s * 2) = cap s * 2" using assms(2) lim_bound by simp
  have g: "ok s' \<and> items s' = items s \<and> len s' = len s \<and> len s' < cap s' \<and> cap s' \<le> cap s * 2"
  proof (cases "len s = cap s")
    case True
    with run small have "ensure m s (cap s * 2) = (True, s')" by simp
    from ensure_granted[OF assms(1,2) this] True cap_bounds[OF assms(1)] show ?thesis by auto
  next
    case False
    with run assms(1) cap_bounds[OF assms(1)] show ?thesis by auto
  qed
  from g show "ok s'" "items s' = items s" "len s' = len s" "len s' < cap s'" "cap s' \<le> cap s * 2"
    by blast+
qed

lemma room_cases:
  assumes ok: "ok s" and lim: "cap s * 2 < lim"
  obtains (refused) "len s = cap s" "m = null"
      "(if len s = cap s then ensure m s (u64 (cap s * 2)) else (True, s)) = (False, s)"
  | (granted) s' where "\<not> (len s = cap s \<and> m = null)"
      "(if len s = cap s then ensure m s (u64 (cap s * 2)) else (True, s)) = (True, s')"
      "ok s'" "items s' = items s" "len s' = len s" "len s' < cap s'" "cap s' \<le> cap s * 2"
proof -
  obtain b s' where run: "(if len s = cap s then ensure m s (u64 (cap s * 2)) else (True, s)) = (b, s')"
    by fastforce
  have small: "u64 (cap s * 2) = cap s * 2" using lim lim_bound by simp
  have null: "b \<longleftrightarrow> \<not> (len s = cap s \<and> m = null)"
    using run ensure_null[OF ok lim, of m] cap_bounds[OF ok] by (auto simp: small split: if_splits)
  show ?thesis
  proof (cases b)
    case True
    then show ?thesis using granted[of s'] room_granted[OF ok lim, of m s'] run null by simp
  next
    case False
    with run have "s' = s" by (auto dest: ensure_refused split: if_splits)
    then show ?thesis using refused run False null by simp
  qed
qed

end

section \<open>The capacity check\<close>

text \<open>The check accepts every capacity below \<open>2 ^ 64 - 2 ^ 31\<close>, not only those below \<open>2 ^ 31\<close>.\<close>

lemma ds_cap_is_valid_iff: "MUGGLE_DS_CAP_IS_VALID capacity \<longleftrightarrow> capacity < 2 ^ 64 - 2 ^ 31"
  by (simp add: MUGGLE_DS_CAP_IS_VALID_def to_u64_def to_int32_def)

end
