(* ===== verification/Array_List.thy ===== *)
theory Array_List
  imports Dsaa_Utils
begin

text \<open>
  The array list of \<^verbatim>\<open>muggle/c/dsaa/array_list.c\<close>: an array of data pointers with a size, indexed
  from the front (\<open>0, 1, \<dots>\<close>) or from the back (\<open>-1, -2, \<dots>\<close>). The abstract view is the list of the
  first \<open>size\<close> pointers; every operation is related to the list operation it stands for.
\<close>

section \<open>State\<close>

record 'a array_list =
  al_nodes :: "'a ptr list"
  al_capacity :: nat
  al_size :: nat

definition al_zero :: "'a array_list" where
  "al_zero = \<lparr>al_nodes = [], al_capacity = 0, al_size = 0\<rparr>"

section \<open>Operations\<close>

definition muggle_array_list_get_index :: "'a array_list \<Rightarrow> int \<Rightarrow> int" where
  "muggle_array_list_get_index al index =
    (if index \<ge> 0 then
       (if to_u64 index \<ge> al_size al then -1 else index)
     else
       (if to_u64 (to_int32 (- index)) > al_size al then -1
        else to_int32 (int (al_size al - to_u64 (to_int32 (- index))))))"

definition muggle_array_list_init :: "'a ptr malloc \<Rightarrow> nat \<Rightarrow> bool \<times> 'a array_list" where
  "muggle_array_list_init m capacity =
    (let capacity = (if capacity = 0 then 8 else capacity) in
     if \<not> MUGGLE_DS_CAP_IS_VALID capacity then (False, al_zero)
     else case malloc_array m (cells 8 capacity) of
       None \<Rightarrow> (False, al_zero)
     | Some nodes \<Rightarrow> (True, \<lparr>al_nodes = nodes, al_capacity = capacity, al_size = 0\<rparr>))"

definition muggle_array_list_is_empty :: "'a array_list \<Rightarrow> bool" where
  "muggle_array_list_is_empty al = (al_size al = 0)"

text \<open>
  The calls of \<open>func_free\<close> are returned as the list of the pointers passed to it, in order.
  \<open>func_free\<close> is \<^const>\<open>False\<close> when the caller passes \<^verbatim>\<open>NULL\<close>.
\<close>

definition muggle_array_list_clear :: "'a array_list \<Rightarrow> bool \<Rightarrow> 'a array_list \<times> 'a ptr list" where
  "muggle_array_list_clear al func_free =
    (let freed = (if func_free then filter (\<lambda>d. d \<noteq> None) (map ((!) (al_nodes al)) [0..<al_size al])
                  else [])
     in (al\<lparr>al_size := 0\<rparr>, freed))"

definition muggle_array_list_destroy :: "'a array_list \<Rightarrow> bool \<Rightarrow> 'a array_list \<times> 'a ptr list" where
  "muggle_array_list_destroy al func_free =
    (let (al, freed) = muggle_array_list_clear al func_free
     in (al\<lparr>al_nodes := []\<rparr>, freed))"

definition muggle_array_list_size :: "'a array_list \<Rightarrow> nat" where
  "muggle_array_list_size al = al_size al"

definition muggle_array_list_ensure_capacity ::
    "'a ptr malloc \<Rightarrow> 'a array_list \<Rightarrow> nat \<Rightarrow> bool \<times> 'a array_list" where
  "muggle_array_list_ensure_capacity m al capacity =
    (if al_capacity al \<ge> capacity then (True, al)
     else if \<not> MUGGLE_DS_CAP_IS_VALID capacity then (False, al)
     else case malloc_array m (cells 8 capacity) of
       None \<Rightarrow> (False, al)
     | Some new_nodes \<Rightarrow>
         (True, al\<lparr>al_nodes := fill (\<lambda>i. al_nodes al ! i) 0 (al_size al) new_nodes,
                  al_capacity := capacity\<rparr>))"

text \<open>Node pointers are indices into \<open>nodes\<close>.\<close>

definition muggle_array_list_index :: "'a array_list \<Rightarrow> int \<Rightarrow> nat ptr" where
  "muggle_array_list_index al index =
    (let idx = muggle_array_list_get_index al index
     in if idx < 0 then None else Some (nat idx))"

function al_find_from :: "('a ptr \<Rightarrow> 'a ptr \<Rightarrow> int) \<Rightarrow> 'a ptr \<Rightarrow> 'a array_list \<Rightarrow> nat \<Rightarrow> int" where
  "al_find_from cmp data al i =
    (if i < al_size al then
       (if cmp (al_nodes al ! i) data = 0 then to_int32 (int i) else al_find_from cmp data al (i + 1))
     else -1)"
  by pat_completeness auto
termination
  by (relation "measure (\<lambda>(cmp, data, al, i). al_size al - i)") auto

definition muggle_array_list_find ::
    "'a array_list \<Rightarrow> int \<Rightarrow> 'a ptr \<Rightarrow> ('a ptr \<Rightarrow> 'a ptr \<Rightarrow> int) \<Rightarrow> int" where
  "muggle_array_list_find al index data cmp =
    (let index = muggle_array_list_get_index al index
     in if index < 0 then -1 else al_find_from cmp data al (nat index))"

text \<open>\<^verbatim>\<open>for (i = hi; i >= lo; i--) nodes[i + 1].data = nodes[i].data;\<close>\<close>

function al_shift_up :: "int \<Rightarrow> int \<Rightarrow> 'b list \<Rightarrow> 'b list" where
  "al_shift_up i lo nodes =
    (if i \<ge> lo then al_shift_up (i - 1) lo (nodes[nat (i + 1) := nodes ! nat i]) else nodes)"
  by pat_completeness auto
termination
  by (relation "measure (\<lambda>(i, lo, nodes). nat (i - lo + 1))") auto

text \<open>\<^verbatim>\<open>for (i = lo; i < hi; i++) nodes[i].data = nodes[i + 1].data;\<close>\<close>

function al_shift_down :: "int \<Rightarrow> int \<Rightarrow> 'b list \<Rightarrow> 'b list" where
  "al_shift_down i hi nodes =
    (if i < hi then al_shift_down (i + 1) hi (nodes[nat i := nodes ! nat (i + 1)]) else nodes)"
  by pat_completeness auto
termination
  by (relation "measure (\<lambda>(i, hi, nodes). nat (hi - i))") auto

definition muggle_array_list_insert ::
    "'a ptr malloc \<Rightarrow> 'a array_list \<Rightarrow> int \<Rightarrow> 'a ptr \<Rightarrow> nat ptr \<times> 'a array_list" where
  "muggle_array_list_insert m al index data =
    (let (ok, al) = (if al_size al = al_capacity al
                     then muggle_array_list_ensure_capacity m al (u64 (al_capacity al * 2))
                     else (True, al))
     in if \<not> ok then (None, al)
        else
          let idx = muggle_array_list_get_index al index in
          if idx < 0 \<and> \<not> ((index = 0 \<or> index = -1) \<and> al_size al = 0) then (None, al)
          else
            let idx = (if idx < 0 then 0 else idx);
                nodes = al_shift_up (to_int32 (int (al_size al)) - 1) idx (al_nodes al);
                nodes = nodes[nat idx := data]
            in (Some (nat idx), al\<lparr>al_nodes := nodes, al_size := u64 (al_size al + 1)\<rparr>))"

definition muggle_array_list_append ::
    "'a ptr malloc \<Rightarrow> 'a array_list \<Rightarrow> int \<Rightarrow> 'a ptr \<Rightarrow> nat ptr \<times> 'a array_list" where
  "muggle_array_list_append m al index data =
    (let (ok, al) = (if al_size al = al_capacity al
                     then muggle_array_list_ensure_capacity m al (u64 (al_capacity al * 2))
                     else (True, al))
     in if \<not> ok then (None, al)
        else
          let idx = muggle_array_list_get_index al index in
          if idx < 0 \<and> \<not> ((index = 0 \<or> index = -1) \<and> al_size al = 0) then (None, al)
          else
            let idx = (if idx < 0 then 0 else idx);
                nodes = al_shift_up (to_int32 (int (al_size al)) - 1) (idx + 1) (al_nodes al);
                idx = (if al_size al = 0 then 0 else idx + 1);
                nodes = nodes[nat idx := data]
            in (Some (nat idx), al\<lparr>al_nodes := nodes, al_size := u64 (al_size al + 1)\<rparr>))"

definition muggle_array_list_remove ::
    "'a array_list \<Rightarrow> int \<Rightarrow> bool \<Rightarrow> bool \<times> 'a array_list \<times> 'a ptr list" where
  "muggle_array_list_remove al index func_free =
    (let index = muggle_array_list_get_index al index in
     if index < 0 then (False, al, [])
     else
       let freed = (if func_free then [al_nodes al ! nat index] else []);
           nodes = al_shift_down index (to_int32 (int (al_size al)) - 1) (al_nodes al)
       in (True, al\<lparr>al_nodes := nodes, al_size := al_size al - 1\<rparr>, freed))"

declare al_find_from.simps [simp del] al_shift_up.simps [simp del] al_shift_down.simps [simp del]

section \<open>The list it stands for\<close>

definition al_wf :: "'a array_list \<Rightarrow> bool" where
  "al_wf al \<longleftrightarrow> 0 < al_capacity al \<and> al_size al \<le> al_capacity al \<and>
     length (al_nodes al) = al_capacity al"

definition al_list :: "'a array_list \<Rightarrow> 'a ptr list" where
  "al_list al = take (al_size al) (al_nodes al)"

text \<open>The position an index denotes in a list of \<open>n\<close> items: from the front, or from the back.\<close>

definition al_pos :: "nat \<Rightarrow> int \<Rightarrow> nat option" where
  "al_pos n index =
    (if 0 \<le> index \<and> index < int n then Some (nat index)
     else if - int n \<le> index \<and> index < 0 then Some (nat (int n + index))
     else None)"

definition is_int32 :: "int \<Rightarrow> bool" where
  "is_int32 x \<longleftrightarrow> - (2 ^ 31) \<le> x \<and> x < 2 ^ 31"

section \<open>Lemmas\<close>

lemma al_pos_less: "al_pos n index = Some i \<Longrightarrow> i < n"
  by (auto simp: al_pos_def split: if_splits)

lemma al_get_index_eq:
  assumes "is_int32 index" "al_size al < 2 ^ 31"
  shows "muggle_array_list_get_index al index =
    (case al_pos (al_size al) index of None \<Rightarrow> -1 | Some i \<Rightarrow> int i)"
proof (cases "index = - (2 ^ 31)")
  case True
  then show ?thesis using assms(2)
    by (simp add: muggle_array_list_get_index_def al_pos_def to_int32_def to_u64_def)
next
  case False
  with assms(1) have r: "- (2 ^ 31) < index" "index < 2 ^ 31" by (auto simp: is_int32_def)
  then have "to_int32 (- index) = - index" by simp
  moreover have "to_u64 index = nat index" if "0 \<le> index" using that r by simp
  moreover have "to_u64 (- index) = nat (- index)" if "index < 0" using that r by simp
  moreover have "to_int32 (int (al_size al - nat (- index))) = int (al_size al - nat (- index))"
    using assms(2) by simp
  ultimately show ?thesis
    by (auto simp: muggle_array_list_get_index_def al_pos_def)
qed

lemma al_shift_up_props:
  assumes "0 \<le> lo" "i + 1 < int (length xs)"
  shows "length (al_shift_up i lo xs) = length xs \<and>
    (\<forall>j < length xs. al_shift_up i lo xs ! j =
      (if lo < int j \<and> int j \<le> i + 1 then xs ! (j - 1) else xs ! j))"
  using assms
proof (induction i lo xs rule: al_shift_up.induct)
  case (1 i lo xs)
  show ?case
  proof (cases "lo \<le> i")
    case True
    let ?ys = "xs[nat (i + 1) := xs ! nat i]"
    have IH: "length (al_shift_up (i - 1) lo ?ys) = length xs \<and>
      (\<forall>j < length xs. al_shift_up (i - 1) lo ?ys ! j =
        (if lo < int j \<and> int j \<le> i then ?ys ! (j - 1) else ?ys ! j))"
      using "1.IH"[OF True] "1.prems" by simp
    have "?ys ! (j - 1) = xs ! (j - 1)" if "lo < int j" "int j \<le> i" for j
      using that "1.prems" by (subst nth_list_update_neq) auto
    moreover have "?ys ! j = xs ! (j - 1)" if "int j = i + 1" for j
    proof -
      have "nat (i + 1) = j" "nat i = j - 1" using that by auto
      moreover have "j < length xs" using that "1.prems" by linarith
      ultimately show ?thesis by simp
    qed
    moreover have "?ys ! j = xs ! j" if "int j \<noteq> i + 1" "j < length xs" for j
      using that True "1.prems" by (subst nth_list_update_neq) auto
    ultimately show ?thesis using IH True "1.prems"
      by (auto simp: al_shift_up.simps[of i lo xs])
  next
    case False
    then show ?thesis using "1.prems" by (auto simp: al_shift_up.simps[of i lo xs])
  qed
qed

lemma al_shift_down_props:
  assumes "0 \<le> i" "hi < int (length xs)"
  shows "length (al_shift_down i hi xs) = length xs \<and>
    (\<forall>j < length xs. al_shift_down i hi xs ! j =
      (if i \<le> int j \<and> int j < hi then xs ! (j + 1) else xs ! j))"
  using assms
proof (induction i hi xs rule: al_shift_down.induct)
  case (1 i hi xs)
  show ?case
  proof (cases "i < hi")
    case True
    let ?ys = "xs[nat i := xs ! nat (i + 1)]"
    have IH: "length (al_shift_down (i + 1) hi ?ys) = length xs \<and>
      (\<forall>j < length xs. al_shift_down (i + 1) hi ?ys ! j =
        (if i + 1 \<le> int j \<and> int j < hi then ?ys ! (j + 1) else ?ys ! j))"
      using "1.IH"[OF True] "1.prems" by simp
    have "?ys ! (j + 1) = xs ! (j + 1)" if "i + 1 \<le> int j" for j
      using that "1.prems" by (subst nth_list_update_neq) auto
    moreover have "?ys ! j = xs ! (j + 1)" if "int j = i" for j
    proof -
      have "nat i = j" "nat (i + 1) = j + 1" using that by auto
      moreover have "j < length xs" using that True "1.prems" by linarith
      ultimately show ?thesis by simp
    qed
    moreover have "?ys ! j = xs ! j" if "int j \<noteq> i" for j
      using that "1.prems" by (subst nth_list_update_neq) auto
    ultimately show ?thesis using IH True "1.prems"
      by (auto simp: al_shift_down.simps[of i hi xs])
  next
    case False
    then show ?thesis using "1.prems" by (auto simp: al_shift_down.simps[of i hi xs])
  qed
qed

text \<open>Opening a gap at \<open>i\<close>, and closing it.\<close>

lemma al_insert_list:
  assumes len: "n < length nodes" and i: "i \<le> n"
  shows "take (Suc n) ((al_shift_up (int n - 1) (int i) nodes)[i := d]) =
    take i nodes @ d # drop i (take n nodes)"
proof -
  have s: "length (al_shift_up (int n - 1) (int i) nodes) = length nodes"
    "\<And>j. j < length nodes \<Longrightarrow> al_shift_up (int n - 1) (int i) nodes ! j =
      (if i < j \<and> j \<le> n then nodes ! (j - 1) else nodes ! j)"
    using al_shift_up_props[of "int i" "int n - 1" nodes] len by auto
  show ?thesis
    using len i by (intro nth_equalityI) (auto simp: s nth_append nth_list_update nth_Cons')
qed

lemma al_remove_list:
  assumes len: "n \<le> length nodes" and i: "i < n"
  shows "take (n - 1) (al_shift_down (int i) (int n - 1) nodes) =
    take i nodes @ drop (Suc i) (take n nodes)"
proof -
  have s: "length (al_shift_down (int i) (int n - 1) nodes) = length nodes"
    "\<And>j. j < length nodes \<Longrightarrow> al_shift_down (int i) (int n - 1) nodes ! j =
      (if i \<le> j \<and> j < n - 1 then nodes ! (j + 1) else nodes ! j)"
    using al_shift_down_props[of "int i" "int n - 1" nodes] len i by auto
  show ?thesis
    using len i by (intro nth_equalityI) (auto simp: s nth_append)
qed

interpretation al_grow: growing_array muggle_array_list_ensure_capacity al_capacity al_size
  al_list al_wf "2 ^ 61" None
proof unfold_locales
  fix m :: "'a ptr malloc" and s s' :: "'a array_list" and c :: nat
  show "s' = s" if "muggle_array_list_ensure_capacity m s c = (False, s')"
    using that by (auto simp: muggle_array_list_ensure_capacity_def split: if_splits option.splits)
  show "al_wf s' \<and> al_list s' = al_list s \<and> al_size s' = al_size s \<and> c \<le> al_capacity s' \<and>
      (al_capacity s' = al_capacity s \<or> al_capacity s' = c)"
    if wf: "al_wf s" and c: "c < 2 ^ 61" and run: "muggle_array_list_ensure_capacity m s c = (True, s')"
  proof (cases "c \<le> al_capacity s")
    case True
    with run wf show ?thesis by (auto simp: muggle_array_list_ensure_capacity_def)
  next
    case False
    with run c obtain new where new: "malloc_array m c = Some new"
      and s': "s' = s\<lparr>al_nodes := fill (\<lambda>i. al_nodes s ! i) 0 (al_size s) new, al_capacity := c\<rparr>"
      by (auto simp: muggle_array_list_ensure_capacity_def split: if_splits option.splits)
    have "length new = c" using new by (rule malloc_array_Some)
    then show ?thesis using wf False
      by (auto simp: s' al_wf_def al_list_def intro!: take_fill_copy)
  qed
  show "fst (muggle_array_list_ensure_capacity m s c) \<longleftrightarrow> c \<le> al_capacity s \<or> m \<noteq> None"
    if "c < 2 ^ 61" using that
    by (auto simp: muggle_array_list_ensure_capacity_def ds_cap_is_valid_iff malloc_array_def
        split: option.splits)
  show "0 < al_capacity s \<and> al_size s \<le> al_capacity s \<and> length (al_list s) = al_size s"
    if "al_wf s" using that by (auto simp: al_wf_def al_list_def)
qed simp

text \<open>Both insertions, after their growth step.\<close>

definition al_insert_pos :: "nat \<Rightarrow> int \<Rightarrow> nat option" where
  "al_insert_pos n index = (if n = 0 then (if index = 0 \<or> index = -1 then Some 0 else None)
     else al_pos n index)"

definition al_append_pos :: "nat \<Rightarrow> int \<Rightarrow> nat option" where
  "al_append_pos n index = (if n = 0 then (if index = 0 \<or> index = -1 then Some 0 else None)
     else map_option Suc (al_pos n index))"

lemma al_insert_pos_le: "al_insert_pos n index = Some i \<Longrightarrow> i \<le> n"
  by (auto simp: al_insert_pos_def split: if_splits dest: al_pos_less)

lemma al_append_pos_le: "al_append_pos n index = Some i \<Longrightarrow> i \<le> n"
  by (auto simp: al_append_pos_def split: if_splits dest: al_pos_less)

lemma al_pos_0 [simp]: "al_pos 0 index = None"
  by (auto simp: al_pos_def)

lemma al_insert_run:
  assumes room: "(if al_size al = al_capacity al
      then muggle_array_list_ensure_capacity m al (u64 (al_capacity al * 2)) else (True, al)) = (True, al1)"
    and size: "al_size al1 = al_size al" "al_size al < 2 ^ 31 - 1" and index: "is_int32 index"
  shows "muggle_array_list_insert m al index data =
    (case al_insert_pos (al_size al) index of
       None \<Rightarrow> (None, al1)
     | Some i \<Rightarrow> (Some i, al1\<lparr>al_nodes :=
         (al_shift_up (int (al_size al) - 1) (int i) (al_nodes al1))[i := data],
         al_size := al_size al + 1\<rparr>))"
  using size al_get_index_eq[OF index, of al1]
  by (auto simp: muggle_array_list_insert_def room Let_def al_insert_pos_def split: option.splits)

lemma al_append_run:
  assumes room: "(if al_size al = al_capacity al
      then muggle_array_list_ensure_capacity m al (u64 (al_capacity al * 2)) else (True, al)) = (True, al1)"
    and size: "al_size al1 = al_size al" "al_size al < 2 ^ 31 - 1" and index: "is_int32 index"
  shows "muggle_array_list_append m al index data =
    (case al_append_pos (al_size al) index of
       None \<Rightarrow> (None, al1)
     | Some i \<Rightarrow> (Some i, al1\<lparr>al_nodes :=
         (al_shift_up (int (al_size al) - 1) (int i) (al_nodes al1))[i := data],
         al_size := al_size al + 1\<rparr>))"
proof -
  have "nat (1 + int i) = Suc i" for i by simp
  then show ?thesis
    using size al_get_index_eq[OF index, of al1]
    by (auto simp: muggle_array_list_append_def room Let_def al_append_pos_def
        add.commute al_shift_up.simps[of "-1"] split: option.splits)
qed

lemma al_put_list:
  assumes "al_wf al1" "al_size al1 < al_capacity al1" "i \<le> al_size al1"
    and al2_def: "al2 = al1\<lparr>al_nodes := (al_shift_up (int (al_size al1) - 1) (int i) (al_nodes al1))[i := data],
         al_size := al_size al1 + 1\<rparr>"
  shows "al_wf al2 \<and> al_list al2 = take i (al_list al1) @ data # drop i (al_list al1)"
proof -
  have "length (al_shift_up (int (al_size al1) - 1) (int i) (al_nodes al1)) = length (al_nodes al1)"
    using al_shift_up_props[of "int i" "int (al_size al1) - 1" "al_nodes al1"] assms by (auto simp: al_wf_def)
  then show ?thesis
    using assms al_insert_list[of "al_size al1" "al_nodes al1" i data]
    by (auto simp: al_wf_def al_list_def al2_def min_def)
qed

text \<open>The search loop stops at the first item the comparison accepts.\<close>

lemma al_find_from_eq:
  assumes "al_size al < 2 ^ 31" "i \<le> al_size al"
  shows "al_find_from cmp data al i =
    (case find (\<lambda>j. cmp (al_nodes al ! j) data = 0) [i..<al_size al] of None \<Rightarrow> -1 | Some j \<Rightarrow> int j)"
  using assms(2)
proof (induction "al_size al - i" arbitrary: i)
  case 0
  then show ?case by (simp add: al_find_from.simps)
next
  case (Suc n)
  then have i: "i < al_size al" by simp
  from Suc i have "al_find_from cmp data al (i + 1) =
    (case find (\<lambda>j. cmp (al_nodes al ! j) data = 0) [i + 1..<al_size al] of None \<Rightarrow> -1 | Some j \<Rightarrow> int j)"
    by (intro Suc.hyps(1)) auto
  with i assms(1) show ?case
    by (subst al_find_from.simps) (simp add: upt_conv_Cons)
qed

lemma al_find_some:
  assumes "find P [i..<n] = Some j"
  shows "i \<le> j \<and> j < n \<and> P j \<and> (\<forall>k. i \<le> k \<and> k < j \<longrightarrow> \<not> P k)"
proof -
  from assms obtain k where k: "k < n - i" "P (i + k)" "j = i + k" "\<forall>l < k. \<not> P ([i..<n] ! l)"
    by (auto simp: find_Some_iff)
  have "\<not> P l" if "i \<le> l" "l < j" for l
  proof -
    have "l - i < k" "[i..<n] ! (l - i) = l" using that k by auto
    with k(4) show ?thesis by metis
  qed
  with k show ?thesis by auto
qed

section \<open>Properties\<close>

text \<open>C3. Inserting before, and appending after, a position refine insertion into the list. On a
  well-formed list with a capacity below \<open>2 ^ 30\<close>, \<open>insert\<close> and \<open>append\<close> fail exactly when the
  array is full and the growth allocation fails or when the index (counted from the front, or from
  the back when negative) denotes no position; then the list is unchanged. Otherwise they return the
  node of the new item, and the list gets the item at that node and keeps the order of the others. The
  result is well-formed in every case.\<close>

theorem al_insert_append_refine:
  assumes wf: "al_wf al" and index: "is_int32 index" and cap: "al_capacity al < 2 ^ 30"
    and op: "(run, pos) \<in> {(muggle_array_list_insert m al index data, al_insert_pos (al_size al) index),
                          (muggle_array_list_append m al index data, al_append_pos (al_size al) index)}"
  shows "al_wf (snd run) \<and>
    (case (if al_size al = al_capacity al \<and> m = None then None else pos) of
       None \<Rightarrow> fst run = None \<and> al_list (snd run) = al_list al
     | Some i \<Rightarrow> fst run = Some i \<and> i \<le> al_size al \<and>
         al_list (snd run) = take i (al_list al) @ data # drop i (al_list al))"
proof -
  have cap2: "al_capacity al * 2 < 2 ^ 61" using cap by simp
  show ?thesis
  proof (cases rule: al_grow.room_cases[OF wf cap2, of m, case_names refused granted])
    case refused
    then have "run = (None, al)"
      using op by (auto simp: muggle_array_list_insert_def muggle_array_list_append_def)
    with refused wf show ?thesis by simp
  next
    case (granted al1)
    have s: "al_size al < 2 ^ 31 - 1" using wf cap by (auto simp: al_wf_def)
    have "run = (case pos of None \<Rightarrow> (None, al1)
       | Some i \<Rightarrow> (Some i, al1\<lparr>al_nodes :=
           (al_shift_up (int (al_size al) - 1) (int i) (al_nodes al1))[i := data],
           al_size := al_size al + 1\<rparr>))"
      using op al_insert_run[OF granted(2,5) s index] al_append_run[OF granted(2,5) s index] by blast
    moreover have "i \<le> al_size al" if "pos = Some i" for i
      using op that by (auto dest: al_insert_pos_le[OF sym] al_append_pos_le[OF sym])
    ultimately show ?thesis
      using granted al_put_list[OF granted(3,6) _ refl, of _ data] by (auto split: option.splits)
  qed
qed

definition al_demo :: "int array_list" where
  "al_demo = \<lparr>al_nodes = [Some 5, Some 7], al_capacity = 2, al_size = 2\<rparr>"

theorem al_insert_append_refine_witness:
  "al_list (snd (muggle_array_list_insert (Some (\<lambda>_. None)) al_demo (-1) (Some 6))) =
     [Some 5, Some 6, Some 7] \<and>
   fst (muggle_array_list_append None al_demo 1 (Some 6)) = None"
  using al_insert_append_refine[of al_demo "-1"
      "muggle_array_list_insert (Some (\<lambda>_. None)) al_demo (-1) (Some 6)" "Some 1" "Some (\<lambda>_. None)" "Some 6"]
    al_insert_append_refine[of al_demo 1
      "muggle_array_list_append None al_demo 1 (Some 6)" "Some 2" None "Some 6"]
  by (simp add: al_demo_def al_wf_def is_int32_def al_insert_pos_def al_append_pos_def al_pos_def
      al_list_def)

text \<open>C4. Removing an item refines removal from the list. On a well-formed list of fewer than
  \<open>2 ^ 31\<close> items, \<open>remove\<close> refuses exactly the indices that denote no item and then changes
  nothing; otherwise exactly the item at that position leaves the list, the others keep their order,
  and that item, and no other, is passed to the release callback (when there is one). \<open>index\<close>
  returns the node of the position.\<close>

theorem al_remove_refines:
  assumes wf: "al_wf al" and index: "is_int32 index" and size: "al_size al < 2 ^ 31"
  shows "muggle_array_list_index al index = al_pos (al_size al) index \<and>
    (case muggle_array_list_remove al index func_free of (ok, al', freed) \<Rightarrow>
      al_wf al' \<and>
      (case al_pos (al_size al) index of
         None \<Rightarrow> \<not> ok \<and> al' = al \<and> freed = []
       | Some i \<Rightarrow> ok \<and> i < al_size al \<and>
           al_list al' = take i (al_list al) @ drop (Suc i) (al_list al) \<and>
           freed = (if func_free then [al_list al ! i] else [])))"
proof (cases "al_pos (al_size al) index")
  case None
  with al_get_index_eq[OF index size] wf show ?thesis
    by (simp add: muggle_array_list_index_def muggle_array_list_remove_def)
next
  case (Some i)
  have i: "i < al_size al" and n: "al_size al \<le> length (al_nodes al)"
    using Some wf by (auto dest: al_pos_less simp: al_wf_def)
  have "length (al_shift_down (int i) (int (al_size al) - 1) (al_nodes al)) = length (al_nodes al)"
    using al_shift_down_props[of "int i" "int (al_size al) - 1" "al_nodes al"] i n by auto
  then show ?thesis
    using al_get_index_eq[OF index size] Some i n wf size al_remove_list[OF n i]
    by (auto simp: muggle_array_list_index_def muggle_array_list_remove_def Let_def al_wf_def al_list_def)
qed

theorem al_remove_refines_witness:
  "case muggle_array_list_remove al_demo (-2) True of (ok, al', freed) \<Rightarrow>
     ok \<and> al_list al' = [Some 7] \<and> freed = [Some 5]"
  using al_remove_refines[of al_demo "-2" True]
  by (auto simp: al_demo_def al_wf_def is_int32_def al_pos_def al_list_def split: prod.splits)

text \<open>C5. Searching from a position returns the first item at or after it that compares equal to
  the argument, and \<open>-1\<close> when the index denotes no item or when no item from there on compares
  equal; it never returns a position of a later or of an earlier item.\<close>

theorem al_find_first:
  assumes index: "is_int32 index" and size: "al_size al < 2 ^ 31"
    and found: "muggle_array_list_find al index data cmp = r"
  shows "case al_pos (al_size al) index of
      None \<Rightarrow> r = -1
    | Some i \<Rightarrow>
        if \<exists>j < al_size al. i \<le> j \<and> cmp (al_nodes al ! j) data = 0
        then i \<le> nat r \<and> 0 \<le> r \<and> r < int (al_size al) \<and> cmp (al_nodes al ! nat r) data = 0 \<and>
             (\<forall>k. i \<le> k \<and> k < nat r \<longrightarrow> cmp (al_nodes al ! k) data \<noteq> 0)
        else r = -1"
proof (cases "al_pos (al_size al) index")
  case None
  with al_get_index_eq[OF index size] found show ?thesis by (simp add: muggle_array_list_find_def)
next
  case (Some i)
  have i: "i < al_size al" using Some by (rule al_pos_less)
  with found Some al_get_index_eq[OF index size]
  have r: "r = (case find (\<lambda>j. cmp (al_nodes al ! j) data = 0) [i..<al_size al] of None \<Rightarrow> -1 | Some j \<Rightarrow> int j)"
    by (simp add: muggle_array_list_find_def al_find_from_eq[OF size])
  show ?thesis
  proof (cases "find (\<lambda>j. cmp (al_nodes al ! j) data = 0) [i..<al_size al]")
    case None
    with r Some show ?thesis by (auto simp: find_None_iff)
  next
    case (Some j)
    from al_find_some[OF this] r Some \<open>al_pos (al_size al) index = Some i\<close>
    show ?thesis by auto
  qed
qed

theorem al_find_first_witness:
  "muggle_array_list_find al_demo (-1) (Some 7) test_utils_cmp_int = 1"
proof -
  have "is_int32 (-1)" "al_size al_demo < 2 ^ 31" "al_pos (al_size al_demo) (-1) = Some 1"
    "al_size al_demo = 2" "al_nodes al_demo ! 1 = Some 7"
    by (simp_all add: al_demo_def is_int32_def al_pos_def)
  moreover have "test_utils_cmp_int (Some 7) (Some 7) = 0" by (simp add: test_utils_cmp_int_def)
  ultimately show ?thesis
    using al_find_first[of "-1" al_demo "Some 7" test_utils_cmp_int, OF _ _ refl]
    by (auto split: if_splits)
qed

end
