(* ===== verification/Stack.thy ===== *)
theory Stack
  imports Dsaa_Utils
begin

text \<open>
  The array stack (\<^verbatim>\<open>muggle/c/dsaa/stack.c\<close>, \<^verbatim>\<open>stack.h\<close>): a growing array of
  data pointers with a top index. The group ends with its refinement of a list whose head is the top.
\<close>

section \<open>State and operations\<close>

record 'a stack =
  st_nodes :: "'a ptr list"
  st_capacity :: nat
  st_top :: nat

definition st_zero :: "'a stack" where
  "st_zero = \<lparr>st_nodes = [], st_capacity = 0, st_top = 0\<rparr>"

definition muggle_stack_init :: "'a ptr malloc \<Rightarrow> nat \<Rightarrow> bool \<times> 'a stack" where
  "muggle_stack_init m capacity =
    (let capacity = (if capacity = 0 then 8 else capacity) in
     if \<not> MUGGLE_DS_CAP_IS_VALID capacity then (False, st_zero)
     else case malloc_array m (cells 8 capacity) of
       None \<Rightarrow> (False, st_zero)
     | Some nodes \<Rightarrow> (True, st_zero\<lparr>st_nodes := nodes, st_capacity := capacity\<rparr>))"

definition muggle_stack_is_empty :: "'a stack \<Rightarrow> bool" where
  "muggle_stack_is_empty s \<longleftrightarrow> st_top s = 0"

definition muggle_stack_clear :: "'a stack \<Rightarrow> bool \<Rightarrow> 'a stack \<times> 'a ptr list" where
  "muggle_stack_clear s func_free =
    (s\<lparr>st_top := 0\<rparr>,
     if func_free then filter (\<lambda>d. d \<noteq> None) (map (\<lambda>i. st_nodes s ! i) [0..<st_top s]) else [])"

text \<open>\<open>destroy\<close> leaves no stack behind: what remains is the list of released data.\<close>

definition muggle_stack_destroy :: "'a stack \<Rightarrow> bool \<Rightarrow> 'a ptr list" where
  "muggle_stack_destroy s func_free = snd (muggle_stack_clear s func_free)"

definition muggle_stack_size :: "'a stack \<Rightarrow> nat" where
  "muggle_stack_size s = st_top s"

definition muggle_stack_ensure_capacity :: "'a ptr malloc \<Rightarrow> 'a stack \<Rightarrow> nat \<Rightarrow> bool \<times> 'a stack" where
  "muggle_stack_ensure_capacity m s capacity =
    (if st_capacity s \<ge> capacity then (True, s)
     else if \<not> MUGGLE_DS_CAP_IS_VALID capacity then (False, s)
     else case malloc_array m (cells 8 capacity) of
       None \<Rightarrow> (False, s)
     | Some new_nodes \<Rightarrow>
         (True, s\<lparr>st_nodes := fill (\<lambda>i. st_nodes s ! i) 0 (st_top s) new_nodes,
                 st_capacity := capacity\<rparr>))"

text \<open>Node pointers are indices into \<open>nodes\<close>.\<close>

definition muggle_stack_push :: "'a ptr malloc \<Rightarrow> 'a stack \<Rightarrow> 'a ptr \<Rightarrow> nat ptr \<times> 'a stack" where
  "muggle_stack_push m s data =
    (let (ok, s) = (if st_top s = st_capacity s
                    then muggle_stack_ensure_capacity m s (u64 (st_capacity s * 2)) else (True, s))
     in if \<not> ok then (None, s)
        else (Some (st_top s), s\<lparr>st_nodes := (st_nodes s)[st_top s := data],
                                 st_top := u64 (st_top s + 1)\<rparr>))"

definition muggle_stack_top :: "'a stack \<Rightarrow> nat ptr" where
  "muggle_stack_top s = (if st_top s = 0 then None else Some (st_top s - 1))"

definition muggle_stack_pop :: "'a stack \<Rightarrow> bool \<Rightarrow> 'a stack \<times> 'a ptr list" where
  "muggle_stack_pop s func_free =
    (if st_top s = 0 then (s, [])
     else let s = s\<lparr>st_top := st_top s - 1\<rparr>
       in (s, if func_free \<and> st_nodes s ! st_top s \<noteq> None then [st_nodes s ! st_top s] else []))"

section \<open>The list it stands for\<close>

definition st_wf :: "'a stack \<Rightarrow> bool" where
  "st_wf s \<longleftrightarrow> 0 < st_capacity s \<and> st_top s \<le> st_capacity s \<and> length (st_nodes s) = st_capacity s"

text \<open>Items from the bottom to the top.\<close>

definition st_items :: "'a stack \<Rightarrow> 'a ptr list" where
  "st_items s = take (st_top s) (st_nodes s)"

definition st_list :: "'a stack \<Rightarrow> 'a ptr list" where
  "st_list s = rev (st_items s)"

interpretation st_grow: growing_array muggle_stack_ensure_capacity st_capacity st_top
  st_items st_wf "2 ^ 61" None
proof unfold_locales
  fix m :: "'a ptr malloc" and s s' :: "'a stack" and c :: nat
  show "s' = s" if "muggle_stack_ensure_capacity m s c = (False, s')"
    using that by (auto simp: muggle_stack_ensure_capacity_def split: if_splits option.splits)
  show "st_wf s' \<and> st_items s' = st_items s \<and> st_top s' = st_top s \<and> c \<le> st_capacity s' \<and>
      (st_capacity s' = st_capacity s \<or> st_capacity s' = c)"
    if wf: "st_wf s" and c: "c < 2 ^ 61" and run: "muggle_stack_ensure_capacity m s c = (True, s')"
  proof (cases "c \<le> st_capacity s")
    case True
    with run wf show ?thesis by (auto simp: muggle_stack_ensure_capacity_def)
  next
    case False
    with run c obtain new where new: "malloc_array m c = Some new"
      and s': "s' = s\<lparr>st_nodes := fill (\<lambda>i. st_nodes s ! i) 0 (st_top s) new, st_capacity := c\<rparr>"
      by (auto simp: muggle_stack_ensure_capacity_def split: if_splits option.splits)
    have "length new = c" using new by (rule malloc_array_Some)
    then show ?thesis using wf False
      by (auto simp: s' st_wf_def st_items_def intro!: take_fill_copy)
  qed
  show "fst (muggle_stack_ensure_capacity m s c) \<longleftrightarrow> c \<le> st_capacity s \<or> m \<noteq> None"
    if "c < 2 ^ 61" using that
    by (auto simp: muggle_stack_ensure_capacity_def ds_cap_is_valid_iff malloc_array_def
        split: option.splits)
  show "0 < st_capacity s \<and> st_top s \<le> st_capacity s \<and> length (st_items s) = st_top s"
    if "st_wf s" using that by (auto simp: st_wf_def st_items_def)
qed simp

section \<open>Properties\<close>

text \<open>C6. The stack refines a list whose head is the top. On a well-formed stack of capacity
  below \<open>2 ^ 60\<close>, \<open>push\<close> fails exactly when the array is full and the growth allocation fails,
  leaving the stack unchanged, and otherwise conses the item and returns its node; \<open>pop\<close> drops
  the head and passes it to the release callback unless it is NULL; on an empty stack \<open>pop\<close> does
  nothing; \<open>top\<close> returns the node of the head, and NULL exactly on the empty stack. Well-formedness
  is kept.\<close>

theorem st_refines_list:
  assumes wf: "st_wf s" and cap: "st_capacity s < 2 ^ 60"
  shows "(case muggle_stack_push m s data of (r, s') \<Rightarrow> st_wf s' \<and>
       (if st_top s = st_capacity s \<and> m = None then r = None \<and> s' = s
        else r = Some (st_top s) \<and> st_list s' = data # st_list s)) \<and>
     (case muggle_stack_pop s func_free of (s', freed) \<Rightarrow> st_wf s' \<and>
        st_list s' = tl (st_list s) \<and>
        freed = (if func_free then filter (\<lambda>d. d \<noteq> None) (take 1 (st_list s)) else [])) \<and>
     (case muggle_stack_top s of None \<Rightarrow> st_list s = [] | Some i \<Rightarrow>
        st_list s \<noteq> [] \<and> st_nodes s ! i = hd (st_list s))"
proof (intro conjI)
  have cap2: "st_capacity s * 2 < 2 ^ 61" using cap by simp
  show "case muggle_stack_push m s data of (r, s') \<Rightarrow> st_wf s' \<and>
       (if st_top s = st_capacity s \<and> m = None then r = None \<and> s' = s
        else r = Some (st_top s) \<and> st_list s' = data # st_list s)"
  proof (cases rule: st_grow.room_cases[OF wf cap2, of m, case_names refused granted])
    case refused
    then show ?thesis using wf by (simp add: muggle_stack_push_def)
  next
    case (granted s1)
    have "take (Suc (st_top s1)) ((st_nodes s1)[st_top s1 := data]) = take (st_top s1) (st_nodes s1) @ [data]"
      using granted by (intro take_update_snoc) (simp add: st_wf_def)
    moreover have "st_top s1 + 1 < 2 ^ 64" using granted(6,7) cap by simp
    moreover have "muggle_stack_push m s data = (Some (st_top s1), s1\<lparr>st_nodes :=
        (st_nodes s1)[st_top s1 := data], st_top := u64 (st_top s1 + 1)\<rparr>)"
      unfolding muggle_stack_push_def granted(2) by simp
    ultimately show ?thesis
      using granted(1,3-6) by (auto simp: st_wf_def st_list_def st_items_def)
  qed
  have top: "st_list s = st_nodes s ! (st_top s - 1) # rev (take (st_top s - 1) (st_nodes s))"
    if "st_top s \<noteq> 0"
    using that wf take_Suc_conv_app_nth[of "st_top s - 1" "st_nodes s"]
    by (auto simp: st_wf_def st_list_def st_items_def)
  show "case muggle_stack_pop s func_free of (s', freed) \<Rightarrow> st_wf s' \<and>
        st_list s' = tl (st_list s) \<and>
        freed = (if func_free then filter (\<lambda>d. d \<noteq> None) (take 1 (st_list s)) else [])"
    using wf top by (cases "st_top s = 0")
      (auto simp: muggle_stack_pop_def Let_def st_wf_def, auto simp: st_list_def st_items_def)
  show "case muggle_stack_top s of None \<Rightarrow> st_list s = [] | Some i \<Rightarrow>
        st_list s \<noteq> [] \<and> st_nodes s ! i = hd (st_list s)"
    using top by (cases "st_top s = 0") (auto simp: muggle_stack_top_def st_list_def st_items_def)
qed

definition st_demo :: "nat stack" where
  "st_demo = \<lparr>st_nodes = [Some 5], st_capacity = 1, st_top = 1\<rparr>"

theorem st_refines_list_witness:
  "st_list (snd (muggle_stack_push (Some (\<lambda>_. None)) st_demo (Some 6))) = [Some 6, Some 5] \<and>
   snd (muggle_stack_pop st_demo True) = [Some 5]"
  using st_refines_list[of st_demo "Some (\<lambda>_. None)" "Some 6" True]
  by (auto simp: st_demo_def st_wf_def st_list_def st_items_def split: prod.splits)

end
