(* ===== verification/Heap.thy ===== *)
theory Heap
  imports Dsaa_Utils
begin

text \<open>
  The binary min-heap (\<^verbatim>\<open>muggle/c/dsaa/heap.c\<close>, \<^verbatim>\<open>heap.h\<close>): key/value nodes in an array
  whose root is at index 1. The percolation loops are recursive functions on the node array; the
  loop of \<open>remove\<close>, which may run forever under a compare callback that is no order, is a partial
  function. The theorems show the heap order, the contents as a multiset, and that the extracted
  node is a minimum.
\<close>

section \<open>State and operations\<close>

type_synonym ('k, 'v) heap_node = "'k \<times> 'v"

record ('k, 'v) heap =
  hp_capacity :: nat
  hp_size :: nat
  hp_nodes :: "('k ptr, 'v ptr) heap_node list"
  hp_cmp :: "'k ptr \<Rightarrow> 'k ptr \<Rightarrow> int"

text \<open>\<open>init\<close> leaves the structure it is given alone until the parameters are checked. (The
  compare callback of a heap whose allocation failed is NULL; the record keeps the old one.)\<close>

definition muggle_heap_init ::
    "('k ptr, 'v ptr) heap_node malloc \<Rightarrow> ('k, 'v) heap \<Rightarrow> ('k ptr \<Rightarrow> 'k ptr \<Rightarrow> int) ptr \<Rightarrow> nat \<Rightarrow>
      bool \<times> ('k, 'v) heap" where
  "muggle_heap_init m h cmp capacity =
    (case cmp of
       None \<Rightarrow> (False, h)
     | Some cmp \<Rightarrow>
         let capacity = (if capacity = 0 then 8 else capacity) in
         if \<not> MUGGLE_DS_CAP_IS_VALID capacity then (False, h)
         else case malloc_array m (cells 16 (capacity + 1)) of
           None \<Rightarrow> (False, h\<lparr>hp_capacity := 0, hp_size := 0, hp_nodes := []\<rparr>)
         | Some nodes \<Rightarrow> (True, \<lparr>hp_capacity = capacity, hp_size = 0, hp_nodes = nodes, hp_cmp = cmp\<rparr>))"

text \<open>
  The loop of \<open>clear\<close>: keys and values passed to the two release callbacks, in order, and the nodes
  with both pointers reset. A callback is \<^const>\<open>False\<close> when it is NULL.
\<close>

definition hp_release :: "bool \<Rightarrow> 'x ptr \<Rightarrow> 'x ptr list" where
  "hp_release func_free p = (if p \<noteq> None \<and> func_free then [p] else [])"

definition muggle_heap_clear ::
    "('k, 'v) heap \<Rightarrow> bool \<Rightarrow> bool \<Rightarrow> ('k, 'v) heap \<times> 'k ptr list \<times> 'v ptr list" where
  "muggle_heap_clear h key_free value_free =
    (h\<lparr>hp_nodes := fill (\<lambda>_. (None, None)) 1 (hp_size h) (hp_nodes h), hp_size := 0\<rparr>,
     concat (map (\<lambda>i. hp_release key_free (fst (hp_nodes h ! i))) [1..<Suc (hp_size h)]),
     concat (map (\<lambda>i. hp_release value_free (snd (hp_nodes h ! i))) [1..<Suc (hp_size h)]))"

definition muggle_heap_destroy ::
    "('k, 'v) heap \<Rightarrow> bool \<Rightarrow> bool \<Rightarrow> ('k, 'v) heap \<times> 'k ptr list \<times> 'v ptr list" where
  "muggle_heap_destroy h key_free value_free =
    (let (h, ks, vs) = muggle_heap_clear h key_free value_free
     in (h\<lparr>hp_nodes := []\<rparr>, ks, vs))"

definition muggle_heap_is_empty :: "('k, 'v) heap \<Rightarrow> bool" where
  "muggle_heap_is_empty h \<longleftrightarrow> hp_size h = 0"

definition muggle_heap_ensure_capacity ::
    "('k ptr, 'v ptr) heap_node malloc \<Rightarrow> ('k, 'v) heap \<Rightarrow> nat \<Rightarrow> bool \<times> ('k, 'v) heap" where
  "muggle_heap_ensure_capacity m h capacity =
    (if hp_capacity h \<ge> capacity then (True, h)
     else if \<not> MUGGLE_DS_CAP_IS_VALID capacity then (False, h)
     else case malloc_array m (cells 16 (capacity + 1)) of
       None \<Rightarrow> (False, h)
     | Some new_nodes \<Rightarrow>
         (True, h\<lparr>hp_nodes := fill (\<lambda>i. hp_nodes h ! (i + 1)) 1 (hp_size h) new_nodes,
                 hp_capacity := capacity\<rparr>))"

text \<open>The loop of \<open>insert\<close>: the hole moves up while its parent is greater than the new key.\<close>

function hp_sift_up ::
    "('k \<Rightarrow> 'k \<Rightarrow> int) \<Rightarrow> 'k \<Rightarrow> ('k, 'v) heap_node list \<Rightarrow> nat \<Rightarrow> ('k, 'v) heap_node list \<times> nat" where
  "hp_sift_up cmp key nodes idx =
    (let parent_idx = idx div 2 in
     if parent_idx = 0 then (nodes, idx)
     else if cmp (fst (nodes ! parent_idx)) key \<le> 0 then (nodes, idx)
     else hp_sift_up cmp key (nodes[idx := nodes ! parent_idx]) (idx div 2))"
  by pat_completeness auto
termination
  by (relation "measure (\<lambda>(cmp, key, nodes, idx). idx)") auto

definition muggle_heap_insert ::
    "('k ptr, 'v ptr) heap_node malloc \<Rightarrow> ('k, 'v) heap \<Rightarrow> 'k ptr \<Rightarrow> 'v ptr \<Rightarrow> bool \<times> ('k, 'v) heap" where
  "muggle_heap_insert m h key val =
    (let (ok, h) = (if hp_size h = hp_capacity h
                    then muggle_heap_ensure_capacity m h (u64 (hp_capacity h * 2)) else (True, h))
     in if \<not> ok then (False, h)
        else
          let h = h\<lparr>hp_size := u64 (hp_size h + 1)\<rparr>;
              (nodes, idx) = hp_sift_up (hp_cmp h) key (hp_nodes h) (hp_size h)
          in (True, h\<lparr>hp_nodes := nodes[idx := (key, val)]\<rparr>))"

text \<open>The smaller of the two children of a node, when it has two.\<close>

definition hp_smaller_child :: "('k \<Rightarrow> 'k \<Rightarrow> int) \<Rightarrow> nat \<Rightarrow> ('k, 'v) heap_node list \<Rightarrow> nat \<Rightarrow> nat" where
  "hp_smaller_child cmp sz nodes child =
    (if child \<noteq> sz \<and> cmp (fst (nodes ! (child + 1))) (fst (nodes ! child)) < 0
     then child + 1 else child)"

text \<open>
  The loop of \<open>extract\<close>. \<open>last_node\<close> is the index that pointer denotes: it is read through in each
  iteration. Indices are far below \<open>2 ^ 63\<close>, because the array of 16 byte nodes is in memory: \<open>i * 2\<close>
  does not wrap. The index starts at 1, so the guard \<open>0 < i\<close> always holds.
\<close>

function hp_sift_down ::
    "('k \<Rightarrow> 'k \<Rightarrow> int) \<Rightarrow> nat \<Rightarrow> nat \<Rightarrow> ('k, 'v) heap_node list \<Rightarrow> nat \<Rightarrow> ('k, 'v) heap_node list \<times> nat" where
  "hp_sift_down cmp sz last_node nodes i =
    (if 0 < i \<and> i * 2 \<le> sz then
       let child = hp_smaller_child cmp sz nodes (i * 2) in
       if cmp (fst (nodes ! last_node)) (fst (nodes ! child)) \<ge> 0
       then hp_sift_down cmp sz last_node (nodes[i := nodes ! child]) child
       else (nodes, i)
     else (nodes, i))"
  by pat_completeness auto
termination
  by (relation "measure (\<lambda>(cmp, sz, last_node, nodes, i). sz - i)") (auto simp: hp_smaller_child_def)

definition muggle_heap_extract ::
    "('k, 'v) heap \<Rightarrow> ('k ptr, 'v ptr) heap_node \<Rightarrow> bool \<times> ('k, 'v) heap \<times> ('k ptr, 'v ptr) heap_node" where
  "muggle_heap_extract h node =
    (if muggle_heap_is_empty h then (False, h, node)
     else
       let node = hp_nodes h ! 1;
           last_node = hp_size h;
           h = h\<lparr>hp_size := hp_size h - 1\<rparr>;
           (nodes, i) = hp_sift_down (hp_cmp h) (hp_size h) last_node (hp_nodes h) 1
       in (True, h\<lparr>hp_nodes := nodes[i := nodes ! last_node]\<rparr>, node))"

text \<open>Node pointers are indices into \<open>nodes\<close>.\<close>

function hp_find_from :: "('k \<Rightarrow> 'k \<Rightarrow> int) \<Rightarrow> 'k \<Rightarrow> nat \<Rightarrow> ('k, 'v) heap_node list \<Rightarrow> nat \<Rightarrow> nat ptr" where
  "hp_find_from cmp data sz nodes i =
    (if i \<le> sz then
       (if cmp (fst (nodes ! i)) data = 0 then Some i else hp_find_from cmp data sz nodes (i + 1))
     else None)"
  by pat_completeness auto
termination
  by (relation "measure (\<lambda>(cmp, data, sz, nodes, i). Suc sz - i)") auto

definition muggle_heap_find :: "('k, 'v) heap \<Rightarrow> 'k ptr \<Rightarrow> nat ptr" where
  "muggle_heap_find h data = hp_find_from (hp_cmp h) data (hp_size h) (hp_nodes h) 1"

text \<open>The loop of \<open>remove\<close>: the hole moves up or down; \<open>None\<close> is a loop that does not end.\<close>

partial_function (option) hp_settle ::
    "('k \<Rightarrow> 'k \<Rightarrow> int) \<Rightarrow> nat \<Rightarrow> nat \<Rightarrow> ('k, 'v) heap_node list \<Rightarrow> nat \<Rightarrow>
      (('k, 'v) heap_node list \<times> nat) option" where
  "hp_settle cmp sz last_node nodes idx =
    (let parent_idx = idx div 2 in
     if parent_idx \<noteq> 0 \<and> cmp (fst (nodes ! last_node)) (fst (nodes ! parent_idx)) < 0
     then hp_settle cmp sz last_node (nodes[idx := nodes ! parent_idx]) parent_idx
     else
       let child_idx = idx * 2 in
       if child_idx \<le> sz then
         let child_idx = hp_smaller_child cmp sz nodes child_idx in
         if cmp (fst (nodes ! last_node)) (fst (nodes ! child_idx)) \<ge> 0
         then hp_settle cmp sz last_node (nodes[idx := nodes ! child_idx]) child_idx
         else Some (nodes, idx)
       else Some (nodes, idx))"

definition muggle_heap_remove ::
    "('k, 'v) heap \<Rightarrow> int \<Rightarrow> bool \<Rightarrow> bool \<Rightarrow> (bool \<times> ('k, 'v) heap \<times> 'k ptr list \<times> 'v ptr list) option" where
  "muggle_heap_remove h node key_free value_free =
    (if muggle_heap_is_empty h then Some (False, h, [], [])
     else if node \<le> 0 \<or> node > int (hp_size h) then Some (False, h, [], [])
     else
       let idx = nat node;
           ks = hp_release key_free (fst (hp_nodes h ! idx));
           vs = hp_release value_free (snd (hp_nodes h ! idx));
           nodes = (hp_nodes h)[idx := (None, None)];
           last_node = hp_size h;
           h = h\<lparr>hp_size := hp_size h - 1\<rparr>
       in case hp_settle (hp_cmp h) (hp_size h) last_node nodes idx of
            None \<Rightarrow> None
          | Some (nodes, idx) \<Rightarrow> Some (True, h\<lparr>hp_nodes := nodes[idx := nodes ! last_node]\<rparr>, ks, vs))"

declare hp_sift_up.simps [simp del] hp_sift_down.simps [simp del] hp_find_from.simps [simp del]

section \<open>The heap order\<close>

definition hp_ordered :: "('k \<Rightarrow> 'k \<Rightarrow> int) \<Rightarrow> ('k, 'v) heap_node list \<Rightarrow> nat \<Rightarrow> bool" where
  "hp_ordered cmp nodes n \<longleftrightarrow>
    (\<forall>i. 2 \<le> i \<and> i \<le> n \<longrightarrow> cmp (fst (nodes ! (i div 2))) (fst (nodes ! i)) \<le> 0)"

text \<open>The order around a hole: everything but the hole is ordered, and the parent of the hole is
  not greater than the children of the hole.\<close>

definition hp_hole :: "('k \<Rightarrow> 'k \<Rightarrow> int) \<Rightarrow> ('k, 'v) heap_node list \<Rightarrow> nat \<Rightarrow> nat \<Rightarrow> bool" where
  "hp_hole cmp nodes n h \<longleftrightarrow>
    (\<forall>i. 2 \<le> i \<and> i \<le> n \<and> i \<noteq> h \<and> i div 2 \<noteq> h \<longrightarrow>
       cmp (fst (nodes ! (i div 2))) (fst (nodes ! i)) \<le> 0) \<and>
    (2 \<le> h \<longrightarrow> (\<forall>c. c \<le> n \<and> c div 2 = h \<longrightarrow>
       cmp (fst (nodes ! (h div 2))) (fst (nodes ! c)) \<le> 0))"

definition hp_items :: "('k, 'v) heap_node list \<Rightarrow> nat \<Rightarrow> ('k, 'v) heap_node list" where
  "hp_items nodes n = take n (tl nodes)"

definition hp_wf :: "('k, 'v) heap \<Rightarrow> bool" where
  "hp_wf h \<longleftrightarrow> 0 < hp_capacity h \<and> hp_size h \<le> hp_capacity h \<and> length (hp_nodes h) = hp_capacity h + 1"

definition hp_bag :: "('k, 'v) heap \<Rightarrow> ('k ptr, 'v ptr) heap_node multiset" where
  "hp_bag h = mset (hp_items (hp_nodes h) (hp_size h))"

definition hp_inv :: "('k, 'v) heap \<Rightarrow> bool" where
  "hp_inv h \<longleftrightarrow> hp_wf h \<and> hp_ordered (hp_cmp h) (hp_nodes h) (hp_size h)"

section \<open>Moving the hole\<close>

lemma hp_items_update:
  assumes "1 \<le> i"
  shows "hp_items (nodes[i := x]) n = (hp_items nodes n)[i - 1 := x]"
proof -
  obtain j where "i = Suc j" using assms by (cases i) auto
  then show ?thesis by (cases nodes) (auto simp: hp_items_def take_update_swap)
qed

lemma length_hp_items [simp]: "n < length nodes \<Longrightarrow> length (hp_items nodes n) = n"
  by (simp add: hp_items_def)

lemma nth_hp_items [simp]: "n < length nodes \<Longrightarrow> j < n \<Longrightarrow> hp_items nodes n ! j = nodes ! Suc j"
  by (cases nodes) (auto simp: hp_items_def)

lemma hp_items_outside: "n < i \<Longrightarrow> hp_items (nodes[i := x]) n = hp_items nodes n"
  by (cases nodes; cases i) (auto simp: hp_items_def)

text \<open>Filling the hole after it moved from \<open>h\<close> to \<open>c\<close> keeps the contents.\<close>

lemma hp_items_move:
  assumes "n < length nodes" "1 \<le> h" "h \<le> n" "1 \<le> c" "c \<le> n" "h \<noteq> c"
  shows "mset (hp_items (nodes[h := nodes ! c, c := x]) n) = mset (hp_items (nodes[h := x]) n)"
proof -
  define ls where "ls = hp_items (nodes[h := x]) n"
  have l: "length ls = n" using assms by (simp add: ls_def)
  have "ls ! (c - 1) = nodes ! c" "ls ! (h - 1) = x"
    using assms by (simp_all add: ls_def)
  moreover have "mset (ls[c - 1 := ls ! (h - 1), h - 1 := ls ! (c - 1)]) = mset ls"
    using assms l by (intro mset_swap) auto
  moreover have "hp_items (nodes[h := nodes ! c, c := x]) n = ls[c - 1 := x, h - 1 := nodes ! c]"
    using assms by (simp add: ls_def hp_items_update list_update_swap)
  ultimately show ?thesis by (simp add: ls_def)
qed

context data_cmp
begin

lemma hp_ordered_fill:
  assumes "hp_hole cmp nodes n h" "n < length nodes" "1 \<le> h" "h \<le> n"
    and "2 \<le> h \<Longrightarrow> cmp (fst (nodes ! (h div 2))) (fst x) \<le> 0"
    and "\<And>c. c \<le> n \<Longrightarrow> c div 2 = h \<Longrightarrow> cmp (fst x) (fst (nodes ! c)) \<le> 0"
  shows "hp_ordered cmp (nodes[h := x]) n"
  unfolding hp_ordered_def
proof (intro allI impI)
  fix i assume i: "2 \<le> i \<and> i \<le> n"
  consider "i = h" | "i div 2 = h" | "i \<noteq> h" "i div 2 \<noteq> h" by blast
  then show "cmp (fst (nodes[h := x] ! (i div 2))) (fst (nodes[h := x] ! i)) \<le> 0"
    using i assms by cases (auto simp: hp_hole_def)
qed

lemma hp_hole_up:
  assumes "hp_hole cmp nodes n h" "n < length nodes" "2 \<le> h" "h \<le> n"
  shows "hp_hole cmp (nodes[h := nodes ! (h div 2)]) n (h div 2)"
  unfolding hp_hole_def
proof (intro conjI allI impI)
  let ?p = "h div 2"
  fix i assume i: "2 \<le> i \<and> i \<le> n \<and> i \<noteq> ?p \<and> i div 2 \<noteq> ?p"
  then show "cmp (fst (nodes[h := nodes ! ?p] ! (i div 2))) (fst (nodes[h := nodes ! ?p] ! i)) \<le> 0"
    using assms by (cases "i div 2 = h") (auto simp: hp_hole_def)
next
  let ?p = "h div 2"
  fix c assume p: "2 \<le> ?p" and c: "c \<le> n \<and> c div 2 = ?p"
  have pp: "cmp (fst (nodes ! (?p div 2))) (fst (nodes ! ?p)) \<le> 0"
    using assms p by (auto simp: hp_hole_def)
  have "cmp (fst (nodes ! ?p)) (fst (nodes ! c)) \<le> 0" if "c \<noteq> h"
    using assms p c that unfolding hp_hole_def by (metis div_le_dividend dual_order.trans le_eq_less_or_eq less_irrefl)
  with pp show "cmp (fst (nodes[h := nodes ! ?p] ! (?p div 2))) (fst (nodes[h := nodes ! ?p] ! c)) \<le> 0"
    using assms p c cmp_trans[OF pp] by (cases "c = h") auto
qed

text \<open>A key less than the parent is less than all children of the hole moved up.\<close>

lemma hp_up_children:
  assumes hole: "hp_hole cmp nodes n h" and "n < length nodes" "2 \<le> h" "h \<le> n"
    and less: "cmp key (fst (nodes ! (h div 2))) < 0" and c: "c \<le> n" "c div 2 = h div 2"
  shows "cmp key (fst (nodes[h := nodes ! (h div 2)] ! c)) < 0"
proof (cases "c = h")
  case True
  with assms show ?thesis by simp
next
  case False
  have "1 \<le> c div 2" using c assms(3) by simp
  then have "2 \<le> c" "c div 2 \<noteq> h" using c assms(3) by auto
  then have "cmp (fst (nodes ! (c div 2))) (fst (nodes ! c)) \<le> 0"
    using hole c(1) False by (simp add: hp_hole_def)
  then have "cmp (fst (nodes ! (h div 2))) (fst (nodes ! c)) \<le> 0" by (simp only: c(2))
  with less have "cmp key (fst (nodes ! c)) < 0" by (rule cmp_less_trans)
  with False show ?thesis by simp
qed

lemma hp_sift_up_correct:
  assumes "hp_hole cmp nodes n h" "n < length nodes" "1 \<le> h" "h \<le> n"
    and "\<And>c. c \<le> n \<Longrightarrow> c div 2 = h \<Longrightarrow> cmp key (fst (nodes ! c)) \<le> 0"
    and "hp_sift_up cmp key nodes h = (nodes', h')"
  shows "length nodes' = length nodes \<and> (\<forall>j > n. nodes' ! j = nodes ! j) \<and>
    hp_ordered cmp (nodes'[h' := (key, v)]) n \<and>
    mset (hp_items (nodes'[h' := (key, v)]) n) = mset (hp_items (nodes[h := (key, v)]) n)"
  using assms
proof (induction h arbitrary: nodes rule: less_induct)
  case (less h)
  let ?p = "h div 2" and ?up = "nodes[h := nodes ! (h div 2)]"
  have step: "hp_sift_up cmp key nodes h =
    (if ?p = 0 \<or> cmp (fst (nodes ! ?p)) key \<le> 0 then (nodes, h) else hp_sift_up cmp key ?up ?p)"
    by (subst hp_sift_up.simps) (simp add: Let_def)
  show ?case
  proof (cases "?p = 0 \<or> cmp (fst (nodes ! ?p)) key \<le> 0")
    case True
    have "hp_ordered cmp (nodes[h := (key, v)]) n"
      using True less.prems(5) by (intro hp_ordered_fill[OF less.prems(1-4)]) auto
    then show ?thesis using less.prems(6) step True by simp
  next
    case False
    then have lt: "cmp key (fst (nodes ! ?p)) < 0" by (simp add: cmp_neg_iff)
    from False have h: "2 \<le> h" by (cases "h < 2") auto
    have run: "hp_sift_up cmp key ?up ?p = (nodes', h')"
      using less.prems(6) step False by simp
    have kids: "cmp key (fst (?up ! c)) \<le> 0" if "c \<le> n" "c div 2 = ?p" for c
      using hp_up_children[OF less.prems(1,2) h less.prems(4) lt that] by simp
    have "length nodes' = length ?up \<and> (\<forall>j > n. nodes' ! j = ?up ! j) \<and> hp_ordered cmp (nodes'[h' := (key, v)]) n \<and>
      mset (hp_items (nodes'[h' := (key, v)]) n) = mset (hp_items (?up[?p := (key, v)]) n)"
      using h less.prems(2,4)
      by (intro less.IH[OF _ hp_hole_up[OF less.prems(1,2) h less.prems(4)] _ _ _ kids run]) auto
    moreover have "mset (hp_items (?up[?p := (key, v)]) n) = mset (hp_items (nodes[h := (key, v)]) n)"
      using less.prems(2-4) h by (intro hp_items_move) auto
    ultimately show ?thesis using less.prems(4) by auto
  qed
qed

text \<open>The child the hole moves down to.\<close>

lemma hp_smaller_child_props:
  assumes "1 \<le> h" "h * 2 \<le> n" and c_def: "c = hp_smaller_child cmp n nodes (h * 2)"
  shows "c \<le> n" "c div 2 = h" "h < c"
    "\<And>d. d \<le> n \<Longrightarrow> d div 2 = h \<Longrightarrow> cmp (fst (nodes ! c)) (fst (nodes ! d)) \<le> 0"
proof -
  show "c \<le> n" "c div 2 = h" "h < c" using assms by (auto simp: hp_smaller_child_def)
  show "cmp (fst (nodes ! c)) (fst (nodes ! d)) \<le> 0" if "d \<le> n" "d div 2 = h" for d
  proof -
    have "d = h * 2 \<or> d = h * 2 + 1" using that(2) by auto
    then show ?thesis
      using that assms cmp_le_iff[of "fst (nodes ! (h * 2))" "fst (nodes ! (h * 2 + 1))"]
      by (auto simp: hp_smaller_child_def)
  qed
qed

lemma hp_hole_down:
  assumes hole: "hp_hole cmp nodes n h" and "n < length nodes" and h: "1 \<le> h" "h * 2 \<le> n"
    and c: "c = hp_smaller_child cmp n nodes (h * 2)"
  shows "hp_hole cmp (nodes[h := nodes ! c]) n c"
proof -
  note cp = hp_smaller_child_props[OF h c]
  have "cmp (fst (nodes[h := nodes ! c] ! (i div 2))) (fst (nodes[h := nodes ! c] ! i)) \<le> 0"
    if i: "2 \<le> i" "i \<le> n" "i \<noteq> c" "i div 2 \<noteq> c" for i
  proof -
    consider "i = h" | "i div 2 = h" | "i \<noteq> h" "i div 2 \<noteq> h" by blast
    then show ?thesis
      using i assms cp by cases (auto simp: hp_hole_def)
  qed
  moreover have "cmp (fst (nodes ! c)) (fst (nodes ! d)) \<le> 0" if d: "d \<le> n" "d div 2 = c" for d
  proof -
    have "2 \<le> d" "d \<noteq> h" "d div 2 \<noteq> h" using d cp(2,3) h by auto
    with hole d show ?thesis unfolding hp_hole_def by metis
  qed
  ultimately show ?thesis using cp assms by (auto simp: hp_hole_def)
qed

lemma hp_sift_down_step:
  assumes "1 \<le> h"
  shows "hp_sift_down cmp n ln nodes h =
    (let c = hp_smaller_child cmp n nodes (h * 2) in
     if h * 2 \<le> n \<and> cmp (fst (nodes ! c)) (fst (nodes ! ln)) \<le> 0
     then hp_sift_down cmp n ln (nodes[h := nodes ! c]) c else (nodes, h))"
  using assms cmp_ge_iff by (subst hp_sift_down.simps) (auto simp: Let_def)

lemma hp_sift_down_correct:
  assumes "hp_hole cmp nodes n h" "n < length nodes" "1 \<le> h" "h \<le> n" "n < ln" "nodes ! ln = x"
    and "2 \<le> h \<Longrightarrow> cmp (fst (nodes ! (h div 2))) (fst x) \<le> 0"
    and "hp_sift_down cmp n ln nodes h = (nodes', h')"
  shows "length nodes' = length nodes \<and> nodes' ! ln = x \<and> hp_ordered cmp (nodes'[h' := x]) n \<and>
    mset (hp_items (nodes'[h' := x]) n) = mset (hp_items (nodes[h := x]) n)"
  using assms
proof (induction "n - h" arbitrary: h nodes rule: less_induct)
  case less
  define c where "c = hp_smaller_child cmp n nodes (h * 2)"
  let ?down = "nodes[h := nodes ! c]"
  note step = hp_sift_down_step[OF less.prems(3), of n ln nodes, folded c_def, unfolded Let_def]
  show ?case
  proof (cases "h * 2 \<le> n \<and> cmp (fst (nodes ! c)) (fst x) \<le> 0")
    case True
    then have h2: "h * 2 \<le> n" and le: "cmp (fst (nodes ! c)) (fst x) \<le> 0" by simp_all
    note cp = hp_smaller_child_props[OF less.prems(3) h2 c_def]
    have run: "hp_sift_down cmp n ln ?down c = (nodes', h')"
      using less.prems(6,8) step True by simp
    have "length nodes' = length ?down \<and> nodes' ! ln = x \<and> hp_ordered cmp (nodes'[h' := x]) n \<and>
      mset (hp_items (nodes'[h' := x]) n) = mset (hp_items (?down[c := x]) n)"
      using cp le less.prems(2-6)
      by (intro less.hyps[OF _ hp_hole_down[OF less.prems(1-3) h2 c_def] _ _ _ less.prems(5) _ _ run]) auto
    moreover have "mset (hp_items (?down[c := x]) n) = mset (hp_items (nodes[h := x]) n)"
      using less.prems(2-4) cp by (intro hp_items_move) auto
    ultimately show ?thesis by simp
  next
    case False
    have "cmp (fst x) (fst (nodes ! d)) \<le> 0" if d: "d \<le> n" "d div 2 = h" for d
    proof -
      have h2: "h * 2 \<le> n" using d less.prems(3) by auto
      with False have "cmp (fst x) (fst (nodes ! c)) \<le> 0" using cmp_total by blast
      then show ?thesis
        using hp_smaller_child_props(4)[OF less.prems(3) h2 c_def d] by (rule cmp_trans)
    qed
    then have "hp_ordered cmp (nodes[h := x]) n"
      using less.prems(7) by (intro hp_ordered_fill[OF less.prems(1-4)])
    moreover have "nodes' = nodes" "h' = h" using less.prems(6,8) step False by auto
    ultimately show ?thesis using less.prems(6) by simp
  qed
qed

text \<open>The two directions of the loop of \<open>remove\<close> are the loops of \<open>insert\<close> and of \<open>extract\<close>.\<close>

lemma hp_settle_up:
  assumes "hp_hole cmp nodes n h" "n < length nodes" "1 \<le> h" "h \<le> n" "n < ln"
    and "\<And>c. c \<le> n \<Longrightarrow> c div 2 = h \<Longrightarrow> cmp (fst (nodes ! ln)) (fst (nodes ! c)) < 0"
  shows "hp_settle cmp n ln nodes h = Some (hp_sift_up cmp (fst (nodes ! ln)) nodes h)"
  using assms
proof (induction h arbitrary: nodes rule: less_induct)
  case (less h)
  let ?p = "h div 2" and ?up = "nodes[h := nodes ! (h div 2)]" and ?k = "fst (nodes ! ln)"
  show ?case
  proof (cases "?p \<noteq> 0 \<and> cmp ?k (fst (nodes ! ?p)) < 0")
    case True
    then have lt: "cmp ?k (fst (nodes ! ?p)) < 0" by simp
    from True have h: "2 \<le> h" by (cases "h < 2") auto
    have k: "?up ! ln = nodes ! ln" using less.prems(4,5) by simp
    have "hp_settle cmp n ln ?up ?p = Some (hp_sift_up cmp (fst (?up ! ln)) ?up ?p)"
      using h less.prems(2,4,5) hp_up_children[OF less.prems(1,2) h less.prems(4) lt]
      by (intro less.IH[OF _ hp_hole_up[OF less.prems(1,2) h less.prems(4)]]) (auto simp: k)
    then show ?thesis using True
      by (subst hp_settle.simps, subst hp_sift_up.simps) (auto simp: Let_def k cmp_neg_iff)
  next
    case False
    have "\<not> (h * 2 \<le> n \<and> cmp (fst (nodes ! ln)) (fst (nodes ! hp_smaller_child cmp n nodes (h * 2))) \<ge> 0)"
    proof
      assume h2: "h * 2 \<le> n \<and> cmp (fst (nodes ! ln)) (fst (nodes ! hp_smaller_child cmp n nodes (h * 2))) \<ge> 0"
      then have "cmp (fst (nodes ! ln)) (fst (nodes ! hp_smaller_child cmp n nodes (h * 2))) < 0"
        using hp_smaller_child_props(1,2)[OF less.prems(3) _ refl, of n nodes] by (intro less.prems(6)) auto
      with h2 show False by simp
    qed
    then show ?thesis using False
      by (subst hp_settle.simps, subst hp_sift_up.simps) (auto simp: Let_def cmp_neg_iff)
  qed
qed

lemma hp_settle_down:
  assumes "hp_hole cmp nodes n h" "n < length nodes" "1 \<le> h" "h \<le> n" "n < ln"
    and "2 \<le> h \<Longrightarrow> cmp (fst (nodes ! (h div 2))) (fst (nodes ! ln)) \<le> 0"
  shows "hp_settle cmp n ln nodes h = Some (hp_sift_down cmp n ln nodes h)"
  using assms
proof (induction "n - h" arbitrary: h nodes rule: less_induct)
  case less
  define c where "c = hp_smaller_child cmp n nodes (h * 2)"
  let ?down = "nodes[h := nodes ! c]"
  have up: "\<not> (h div 2 \<noteq> 0 \<and> cmp (fst (nodes ! ln)) (fst (nodes ! (h div 2))) < 0)"
  proof
    assume a: "h div 2 \<noteq> 0 \<and> cmp (fst (nodes ! ln)) (fst (nodes ! (h div 2))) < 0"
    then have "2 \<le> h" by (cases "h < 2") auto
    with a less.prems(6) show False by (auto simp: cmp_neg_iff)
  qed
  note step = hp_sift_down_step[OF less.prems(3), of n ln nodes, folded c_def, unfolded Let_def]
  show ?case
  proof (cases "h * 2 \<le> n \<and> cmp (fst (nodes ! c)) (fst (nodes ! ln)) \<le> 0")
    case True
    then have h2: "h * 2 \<le> n" and le: "cmp (fst (nodes ! c)) (fst (nodes ! ln)) \<le> 0" by simp_all
    note cp = hp_smaller_child_props[OF less.prems(3) h2 c_def]
    have "hp_settle cmp n ln ?down c = Some (hp_sift_down cmp n ln ?down c)"
      using cp le less.prems(2-5)
      by (intro less.hyps[OF _ hp_hole_down[OF less.prems(1-3) h2 c_def]]) auto
    then show ?thesis using True up step
      by (subst hp_settle.simps) (auto simp: Let_def cmp_ge_iff c_def[symmetric])
  next
    case False
    then show ?thesis using up step
      by (subst hp_settle.simps) (auto simp: Let_def cmp_ge_iff c_def[symmetric])
  qed
qed

lemma hp_settle_correct:
  assumes hole: "hp_hole cmp nodes n h" and len: "n < length nodes" and h: "1 \<le> h" "h \<le> n"
    and ln: "n < ln" "nodes ! ln = x"
  obtains nodes' h' where "hp_settle cmp n ln nodes h = Some (nodes', h')" "length nodes' = length nodes"
    "nodes' ! ln = x" "hp_ordered cmp (nodes'[h' := x]) n"
    "mset (hp_items (nodes'[h' := x]) n) = mset (hp_items (nodes[h := x]) n)"
proof (cases "h div 2 \<noteq> 0 \<and> cmp (fst x) (fst (nodes ! (h div 2))) < 0")
  case True
  let ?p = "h div 2" and ?up = "nodes[h := nodes ! (h div 2)]"
  from True have h2: "2 \<le> h" by (cases "h < 2") auto
  have p: "1 \<le> ?p" "?p \<le> n" using h2 h by auto
  have x: "?up ! ln = x" using h ln by simp
  have l: "n < length ?up" using len by simp
  have up: "hp_hole cmp ?up n ?p" by (rule hp_hole_up[OF hole len h2 h(2)])
  have kids: "cmp (fst x) (fst (?up ! c)) < 0" if "c \<le> n" "c div 2 = ?p" for c
    using hp_up_children[OF hole len h2 h(2) _ that] True by simp
  then have kids_le: "cmp (fst x) (fst (?up ! c)) \<le> 0" if "c \<le> n" "c div 2 = ?p" for c
    using that less_imp_le by blast
  obtain nodes' h' where sift: "hp_sift_up cmp (fst x) ?up ?p = (nodes', h')" by fastforce
  have "hp_settle cmp n ln nodes h = hp_settle cmp n ln ?up ?p"
    using True ln by (subst hp_settle.simps) (simp add: Let_def)
  also have "\<dots> = Some (nodes', h')"
    using hp_settle_up[OF up l p ln(1), unfolded x, OF kids] sift by simp
  finally have run: "hp_settle cmp n ln nodes h = Some (nodes', h')" .
  have "mset (hp_items (?up[?p := x]) n) = mset (hp_items (nodes[h := x]) n)"
    using len h p h2 by (intro hp_items_move) auto
  moreover note hp_sift_up_correct[OF up l p kids_le sift, of "snd x"]
  ultimately show ?thesis using len ln x by (intro that[OF run]) simp_all
next
  case False
  have parent: "cmp (fst (nodes ! (h div 2))) (fst x) \<le> 0" if "2 \<le> h"
    using that False cmp_neg_iff[of "fst x" "fst (nodes ! (h div 2))"] by auto
  obtain nodes' h' where sift: "hp_sift_down cmp n ln nodes h = (nodes', h')" by fastforce
  have run: "hp_settle cmp n ln nodes h = Some (nodes', h')"
    using hp_settle_down[OF hole len h ln(1)] parent by (simp add: ln(2) sift)
  from hp_sift_down_correct[OF hole len h ln parent sift] show ?thesis
    by (intro that[OF run]) simp_all
qed

end

section \<open>The operations\<close>

lemma hp_ordered_cong:
  assumes "hp_items nodes n = hp_items nodes' n" "n < length nodes" "n < length nodes'"
  shows "hp_ordered cmp nodes n = hp_ordered cmp nodes' n"
proof -
  have "nodes ! i = nodes' ! i" if "1 \<le> i" "i \<le> n" for i
    using nth_hp_items[OF assms(2), of "i - 1"] nth_hp_items[OF assms(3), of "i - 1"] assms(1) that by simp
  then have "nodes ! i = nodes' ! i" "nodes ! (i div 2) = nodes' ! (i div 2)" if "2 \<le> i" "i \<le> n" for i
    using that by auto
  then show ?thesis by (simp add: hp_ordered_def)
qed

lemma hp_items_grow:
  assumes "n < length old" "n < length new"
  shows "hp_items (fill (\<lambda>i. old ! (i + 1)) 1 n new) n = hp_items old n"
  using assms by (intro nth_equalityI) (auto simp: fill_eq nth_append)

interpretation hp_grow: growing_array muggle_heap_ensure_capacity hp_capacity hp_size
  "\<lambda>h. hp_items (hp_nodes h) (hp_size h)" "\<lambda>h. hp_inv h \<and> hp_cmp h = cmp" "2 ^ 59" None for cmp
proof unfold_locales
  fix m :: "('a ptr, 'b ptr) heap_node malloc" and s s' :: "('a, 'b) heap" and c :: nat
  show "s' = s" if "muggle_heap_ensure_capacity m s c = (False, s')"
    using that by (auto simp: muggle_heap_ensure_capacity_def split: if_splits option.splits)
  show "(hp_inv s' \<and> hp_cmp s' = cmp) \<and> hp_items (hp_nodes s') (hp_size s') = hp_items (hp_nodes s) (hp_size s) \<and>
      hp_size s' = hp_size s \<and> c \<le> hp_capacity s' \<and> (hp_capacity s' = hp_capacity s \<or> hp_capacity s' = c)"
    if ok: "hp_inv s \<and> hp_cmp s = cmp" and c: "c < 2 ^ 59"
      and run: "muggle_heap_ensure_capacity m s c = (True, s')"
  proof (cases "c \<le> hp_capacity s")
    case True
    with run ok show ?thesis by (auto simp: muggle_heap_ensure_capacity_def)
  next
    case False
    with run c obtain new where new: "malloc_array m (c + 1) = Some new"
      and s': "s' = s\<lparr>hp_nodes := fill (\<lambda>i. hp_nodes s ! (i + 1)) 1 (hp_size s) new, hp_capacity := c\<rparr>"
      by (auto simp: muggle_heap_ensure_capacity_def split: if_splits option.splits)
    have l: "length new = c + 1" using new by (rule malloc_array_Some)
    then have "hp_items (hp_nodes s') (hp_size s) = hp_items (hp_nodes s) (hp_size s)"
      using ok False hp_items_grow[of "hp_size s" "hp_nodes s" new] by (simp add: s' hp_inv_def hp_wf_def)
    moreover from this have "hp_ordered cmp (hp_nodes s') (hp_size s)"
      using ok l False hp_ordered_cong[of "hp_nodes s'" "hp_size s" "hp_nodes s"]
      by (auto simp: hp_inv_def hp_wf_def s')
    ultimately show ?thesis using ok False l by (auto simp: s' hp_inv_def hp_wf_def)
  qed
  show "fst (muggle_heap_ensure_capacity m s c) \<longleftrightarrow> c \<le> hp_capacity s \<or> m \<noteq> None"
    if "c < 2 ^ 59" using that
    by (auto simp: muggle_heap_ensure_capacity_def ds_cap_is_valid_iff malloc_array_def
        split: option.splits)
  show "0 < hp_capacity s \<and> hp_size s \<le> hp_capacity s \<and> length (hp_items (hp_nodes s) (hp_size s)) = hp_size s"
    if "hp_inv s \<and> hp_cmp s = cmp" using that by (auto simp: hp_inv_def hp_wf_def)
qed simp

lemma hp_items_snoc:
  "n + 1 < length nodes \<Longrightarrow> mset (hp_items (nodes[n + 1 := x]) (n + 1)) = add_mset x (mset (hp_items nodes n))"
  by (cases nodes) (auto simp: hp_items_def take_update_snoc)

lemma hp_items_last:
  "n < length nodes \<Longrightarrow> 0 < n \<Longrightarrow> hp_items nodes n = hp_items nodes (n - 1) @ [nodes ! n]"
  by (cases nodes; cases n) (auto simp: hp_items_def take_Suc_conv_app_nth)

text \<open>Refilling a hole with the last node removes the node that was there.\<close>

lemma hp_items_refill:
  assumes "n + 1 < length nodes" "1 \<le> h" "h \<le> n"
  shows "mset (hp_items nodes (n + 1)) = add_mset (nodes ! h) (mset (hp_items (nodes[h := nodes ! (n + 1)]) n))"
proof -
  have "nodes ! h \<in># mset (hp_items nodes n)"
    using assms nth_mem[of "h - 1" "hp_items nodes n"] by simp
  then show ?thesis
    using assms hp_items_last[of "n + 1" nodes] by (simp add: hp_items_update mset_update)
qed

context data_cmp
begin

text \<open>Every node but the root may become a hole; the root of an ordered array is a minimum.\<close>

lemma hp_ordered_hole:
  assumes "hp_ordered cmp nodes n" "k \<le> n"
  shows "hp_hole cmp nodes k h"
  using assms cmp_trans[of "fst (nodes ! (h div 2))" "fst (nodes ! h)"]
  by (auto simp: hp_hole_def hp_ordered_def)

lemma hp_root_min:
  assumes "hp_ordered cmp nodes n" "1 \<le> i" "i \<le> n"
  shows "cmp (fst (nodes ! 1)) (fst (nodes ! i)) \<le> 0"
  using assms(2,3)
proof (induction i rule: less_induct)
  case (less i)
  show ?case
  proof (cases "i = 1")
    case False
    then have "cmp (fst (nodes ! 1)) (fst (nodes ! (i div 2))) \<le> 0"
      using less.prems by (intro less.IH) auto
    moreover have "cmp (fst (nodes ! (i div 2))) (fst (nodes ! i)) \<le> 0"
      using False less.prems assms(1) by (auto simp: hp_ordered_def)
    ultimately show ?thesis by (rule cmp_trans)
  qed simp
qed

end

text \<open>Removing the last node: the pointer \<^verbatim>\<open>last_node\<close> then denotes the removed node, whose key
  is reset. If that key is below the parent the parent is copied into the removed node and settles
  again; otherwise nothing moves.\<close>

lemma hp_settle_last:
  assumes cmp: "data_cmp cmp" and ord: "hp_ordered cmp nodes n" and len: "n + 1 < length nodes"
  obtains nodes' h' where "hp_settle cmp n (n + 1) nodes (n + 1) = Some (nodes', h')"
    "length nodes' = length nodes" "hp_ordered cmp (nodes'[h' := nodes' ! (n + 1)]) n"
    "mset (hp_items (nodes'[h' := nodes' ! (n + 1)]) n) = mset (hp_items nodes n)"
proof (cases "(n + 1) div 2 \<noteq> 0 \<and> cmp (fst (nodes ! (n + 1))) (fst (nodes ! ((n + 1) div 2))) < 0")
  case True
  let ?p = "(n + 1) div 2"
  define nodes2 where "nodes2 = nodes[n + 1 := nodes ! ?p]"
  have p: "1 \<le> ?p" "?p \<le> n" using True by auto
  have items: "hp_items nodes2 n = hp_items nodes n" by (simp add: nodes2_def hp_items_outside)
  have len2: "n < length nodes2" and last2: "nodes2 ! (n + 1) = nodes ! ?p" "nodes2 ! ?p = nodes ! ?p"
    using len p by (simp_all add: nodes2_def)
  have "hp_ordered cmp nodes2 n" using ord len hp_ordered_cong[OF items len2] by simp
  then have hole: "hp_hole cmp nodes2 n ?p" by (rule data_cmp.hp_ordered_hole[OF cmp]) simp
  have "hp_settle cmp n (n + 1) nodes (n + 1) = hp_settle cmp n (n + 1) nodes2 ?p"
    using True unfolding nodes2_def by (subst hp_settle.simps) (simp add: Let_def)
  moreover obtain nodes' h' where "hp_settle cmp n (n + 1) nodes2 ?p = Some (nodes', h')"
    "length nodes' = length nodes2" "nodes' ! (n + 1) = nodes ! ?p"
    "hp_ordered cmp (nodes'[h' := nodes ! ?p]) n"
    "mset (hp_items (nodes'[h' := nodes ! ?p]) n) = mset (hp_items (nodes2[?p := nodes ! ?p]) n)"
    by (rule data_cmp.hp_settle_correct[OF cmp hole len2 p _ last2(1)]) simp_all
  moreover have "nodes2[?p := nodes ! ?p] = nodes2" using last2(2) by (metis list_update_id)
  ultimately show ?thesis using items by (intro that[of nodes' h']) (simp_all add: nodes2_def)
next
  case False
  have "hp_settle cmp n (n + 1) nodes (n + 1) = Some (nodes, n + 1)"
    using False by (subst hp_settle.simps) (auto simp: Let_def)
  then show ?thesis using ord by (intro that[of nodes "n + 1"]) simp_all
qed

lemma hp_insert_post:
  assumes cmp: "data_cmp (hp_cmp h)" and inv: "hp_inv h" and cap: "hp_capacity h < 2 ^ 58"
    and run: "muggle_heap_insert m h key val = (ok, h')"
  shows "hp_inv h' \<and> hp_cmp h' = hp_cmp h \<and>
    (if hp_size h = hp_capacity h \<and> m = None then \<not> ok \<and> h' = h
     else ok \<and> hp_bag h' = add_mset (key, val) (hp_bag h))"
proof -
  have ok: "hp_inv h \<and> hp_cmp h = hp_cmp h" and cap2: "hp_capacity h * 2 < 2 ^ 59" using inv cap by simp_all
  show ?thesis
  proof (cases rule: hp_grow.room_cases[OF ok cap2, of m, case_names refused granted])
    case refused
    with run inv show ?thesis by (auto simp: muggle_heap_insert_def)
  next
    case (granted h1)
    obtain nodes idx where sift: "hp_sift_up (hp_cmp h) key (hp_nodes h1) (Suc (hp_size h1)) = (nodes, idx)"
      by fastforce
    have inv1: "hp_inv h1" "hp_cmp h1 = hp_cmp h" using granted(3) by simp_all
    have len: "hp_size h1 + 1 < length (hp_nodes h1)" using inv1 granted(6) by (simp add: hp_inv_def hp_wf_def)
    have small: "Suc (hp_size h1) < 2 ^ 64" using granted(6,7) cap by simp
    have h': "ok" "h' = h1\<lparr>hp_size := hp_size h1 + 1, hp_nodes := nodes[idx := (key, val)]\<rparr>"
      using run inv1 unfolding muggle_heap_insert_def granted(2) by (simp_all add: Let_def u64_small[OF small] sift)
    have "hp_hole (hp_cmp h) (hp_nodes h1) (hp_size h1 + 1) (hp_size h1 + 1)"
      using inv1 by (auto simp: hp_inv_def hp_ordered_def hp_hole_def)
    from data_cmp.hp_sift_up_correct[OF cmp this len _ _ _ sift[unfolded Suc_eq_plus1], of val]
    have "length nodes = length (hp_nodes h1)" "hp_ordered (hp_cmp h) (nodes[idx := (key, val)]) (hp_size h1 + 1)"
      "mset (hp_items (nodes[idx := (key, val)]) (hp_size h1 + 1)) =
        mset (hp_items ((hp_nodes h1)[hp_size h1 + 1 := (key, val)]) (hp_size h1 + 1))"
      by auto
    then show ?thesis
      using h' inv1 granted(1,4-6) hp_items_snoc[OF len, of "(key, val)"]
      by (auto simp: hp_inv_def hp_wf_def hp_bag_def)
  qed
qed

lemma hp_extract_post:
  assumes cmp: "data_cmp (hp_cmp h)" and inv: "hp_inv h"
    and run: "muggle_heap_extract h node = (ok, h', node')"
  shows "hp_inv h' \<and> hp_cmp h' = hp_cmp h \<and>
    (if hp_size h = 0 then \<not> ok \<and> h' = h \<and> node' = node
     else ok \<and> hp_bag h = add_mset node' (hp_bag h') \<and> hp_size h' = hp_size h - 1 \<and>
       (\<forall>n \<in># hp_bag h. hp_cmp h (fst node') (fst n) \<le> 0))"
proof (cases "hp_size h = 0")
  case True
  with inv run show ?thesis by (simp add: muggle_heap_extract_def muggle_heap_is_empty_def)
next
  case False
  then obtain n where n: "hp_size h = n + 1" by (cases "hp_size h") auto
  have len: "n + 1 < length (hp_nodes h)" and ord: "hp_ordered (hp_cmp h) (hp_nodes h) (n + 1)"
    using inv n by (simp_all add: hp_inv_def hp_wf_def)
  obtain nodes i where sift: "hp_sift_down (hp_cmp h) n (n + 1) (hp_nodes h) 1 = (nodes, i)" by fastforce
  have h': "ok" "node' = hp_nodes h ! 1" "h' = h\<lparr>hp_size := n, hp_nodes := nodes[i := nodes ! (n + 1)]\<rparr>"
    using run False n sift by (auto simp: muggle_heap_extract_def muggle_heap_is_empty_def Let_def)
  have min: "hp_cmp h (fst node') (fst x) \<le> 0" if "x \<in># hp_bag h" for x
    using that len n h'(2) data_cmp.hp_root_min[OF cmp ord] by (auto simp: hp_bag_def in_set_conv_nth)
  have "length nodes = length (hp_nodes h) \<and> hp_ordered (hp_cmp h) (nodes[i := nodes ! (n + 1)]) n \<and>
    hp_bag h = add_mset node' (mset (hp_items (nodes[i := nodes ! (n + 1)]) n))"
  proof (cases "n = 0")
    case True
    with sift have "nodes = hp_nodes h" "i = 1" by (auto simp: hp_sift_down.simps)
    then show ?thesis using True len n h'(2) hp_items_last[of 1 "hp_nodes h"]
      by (auto simp: hp_ordered_def hp_bag_def hp_items_def)
  next
    case False
    then show ?thesis
      using data_cmp.hp_sift_down_correct[OF cmp data_cmp.hp_ordered_hole[OF cmp ord] _ _ _ _ refl _ sift]
        hp_items_refill[OF len, of 1] len n h'(2) by (auto simp: hp_bag_def)
  qed
  then show ?thesis
    using False n h' inv min by (auto simp: hp_inv_def hp_wf_def hp_bag_def)
qed

section \<open>Properties\<close>

definition hp_demo :: "(int, int) heap" where
  "hp_demo = \<lparr>hp_capacity = 2, hp_size = 2,
     hp_nodes = [(None, None), (Some 3, Some 30), (Some 5, Some 50)], hp_cmp = ex_cmp\<rparr>"

lemma hp_demo_simps:
  "hp_size hp_demo = 2" "hp_capacity hp_demo = 2" "hp_cmp hp_demo = ex_cmp"
  "hp_bag hp_demo = {#(Some 3, Some 30), (Some 5, Some 50)#}" "hp_nodes hp_demo ! 1 = (Some 3, Some 30)"
  "hp_nodes hp_demo ! 2 = (Some 5, Some 50)"
  by (simp_all add: hp_demo_def hp_bag_def hp_items_def numeral_2_eq_2)

lemma hp_demo_inv: "hp_inv hp_demo"
proof -
  have "ex_cmp (fst (hp_nodes hp_demo ! (i div 2))) (fst (hp_nodes hp_demo ! i)) \<le> 0"
    if "2 \<le> i" "i \<le> 2" for i
  proof -
    have "i = 2" using that by simp
    then show ?thesis by (simp add: hp_demo_def)
  qed
  then have "hp_ordered (hp_cmp hp_demo) (hp_nodes hp_demo) (hp_size hp_demo)"
    unfolding hp_ordered_def hp_demo_simps(1,3) by blast
  then show ?thesis by (simp add: hp_inv_def hp_wf_def) (simp add: hp_demo_def)
qed

text \<open>C7. Inserting into a heap keeps it a heap and adds exactly the new key/value node to its
  contents. Under a compare callback that is a total preorder, on a heap of capacity below
  \<open>2 ^ 58\<close>, \<open>insert\<close> fails exactly when the array is full and the growth allocation fails, and then
  changes nothing.\<close>

theorem hp_insert_correct:
  assumes cmp: "data_cmp (hp_cmp h)" and inv: "hp_inv h" and cap: "hp_capacity h < 2 ^ 58"
    and run: "muggle_heap_insert m h key val = (ok, h')"
  shows "hp_inv h' \<and> hp_cmp h' = hp_cmp h \<and>
    (if hp_size h = hp_capacity h \<and> m = None then \<not> ok \<and> h' = h
     else ok \<and> hp_bag h' = add_mset (key, val) (hp_bag h))"
  using assms by (rule hp_insert_post)

theorem hp_insert_correct_witness:
  "fst (muggle_heap_insert (Some (\<lambda>_. (None, None))) hp_demo (Some 4) None) \<and>
   hp_bag (snd (muggle_heap_insert (Some (\<lambda>_. (None, None))) hp_demo (Some 4) None)) =
     {#(Some 4, None), (Some 3, Some 30), (Some 5, Some 50)#}"
  using hp_insert_correct[of hp_demo "Some (\<lambda>_. (None, None))" "Some 4" None, OF _ hp_demo_inv _
      prod.collapse[symmetric]]
  by (simp add: hp_demo_simps data_cmp_ex_cmp)

text \<open>C8. Extracting from a heap returns a node whose key is not greater than any other key of the
  heap, takes exactly that node out of the contents, and keeps the heap order; on an empty heap it
  returns false and leaves heap and node alone.\<close>

theorem hp_extract_min:
  assumes cmp: "data_cmp (hp_cmp h)" and inv: "hp_inv h"
    and run: "muggle_heap_extract h node = (ok, h', node')"
  shows "hp_inv h' \<and> hp_cmp h' = hp_cmp h \<and>
    (if hp_size h = 0 then \<not> ok \<and> h' = h \<and> node' = node
     else ok \<and> hp_bag h = add_mset node' (hp_bag h') \<and> hp_size h' = hp_size h - 1 \<and>
       (\<forall>n \<in># hp_bag h. hp_cmp h (fst node') (fst n) \<le> 0))"
  using assms by (rule hp_extract_post)

theorem hp_extract_min_witness:
  "case muggle_heap_extract hp_demo (None, None) of (ok, h', node') \<Rightarrow>
     ok \<and> hp_inv h' \<and> {#(Some 3, Some 30), (Some 5, Some 50)#} = add_mset node' (hp_bag h') \<and>
     ex_cmp (fst node') (Some 3) \<le> 0"
  using hp_extract_min[of hp_demo "(None, None)", OF _ hp_demo_inv]
  by (auto simp: hp_demo_simps data_cmp_ex_cmp split: prod.splits)

text \<open>C9. Removing a node of a heap always returns and keeps the heap order: the loop that moves
  the hole both ways ends under a compare callback that is a total preorder. It takes exactly the
  node at the given position out of the contents, whose key and value, and no others, are passed to
  the release callbacks, also when that node is the last one; a pointer that is no node of the heap
  is refused and changes nothing.\<close>

theorem hp_remove_correct:
  assumes cmp: "data_cmp (hp_cmp h)" and inv: "hp_inv h"
  shows "\<exists>ok h' ks vs. muggle_heap_remove h node key_free value_free = Some (ok, h', ks, vs) \<and> hp_inv h' \<and>
    (if 1 \<le> node \<and> node \<le> int (hp_size h)
     then ok \<and> hp_bag h = add_mset (hp_nodes h ! nat node) (hp_bag h') \<and>
       ks = hp_release key_free (fst (hp_nodes h ! nat node)) \<and>
       vs = hp_release value_free (snd (hp_nodes h ! nat node))
     else \<not> ok \<and> h' = h \<and> ks = [] \<and> vs = [])"
proof (cases "1 \<le> node \<and> node \<le> int (hp_size h)")
  case False
  with inv show ?thesis by (auto simp: muggle_heap_remove_def muggle_heap_is_empty_def)
next
  case True
  then obtain n where n: "hp_size h = n + 1" by (cases "hp_size h") auto
  define idx where "idx = nat node"
  define nodes where "nodes = (hp_nodes h)[idx := (None, None)]"
  have idx: "1 \<le> idx" "idx \<le> n + 1" using True n by (auto simp: idx_def)
  have len: "n + 1 < length (hp_nodes h)" "length (hp_nodes h) = length nodes"
    and ord: "hp_ordered (hp_cmp h) (hp_nodes h) (n + 1)"
    using inv n by (simp_all add: hp_inv_def hp_wf_def nodes_def)
  obtain nodes' i where run: "hp_settle (hp_cmp h) n (n + 1) nodes idx = Some (nodes', i)"
    "length nodes' = length nodes" "hp_ordered (hp_cmp h) (nodes'[i := nodes' ! (n + 1)]) n"
    "hp_bag h = add_mset (hp_nodes h ! idx) (mset (hp_items (nodes'[i := nodes' ! (n + 1)]) n))"
  proof (cases "idx = n + 1")
    case True
    have items: "hp_items nodes n = hp_items (hp_nodes h) n" by (simp add: nodes_def True hp_items_outside)
    have "hp_ordered (hp_cmp h) (hp_nodes h) n" using ord by (simp add: hp_ordered_def)
    then have "hp_ordered (hp_cmp h) nodes n" using hp_ordered_cong[OF items] len by simp
    moreover have "hp_bag h = add_mset (hp_nodes h ! idx) (mset (hp_items nodes n))"
      using hp_items_last[OF len(1)] items n True by (simp add: hp_bag_def)
    ultimately show ?thesis
      using hp_settle_last[OF cmp, of nodes n] len that unfolding True by metis
  next
    case False
    then have i: "idx \<le> n" using idx by simp
    have "hp_hole (hp_cmp h) (hp_nodes h) n idx" by (rule data_cmp.hp_ordered_hole[OF cmp ord]) simp
    then have hole: "hp_hole (hp_cmp h) nodes n idx" by (auto simp: hp_hole_def nodes_def)
    have "nodes ! (n + 1) = hp_nodes h ! (n + 1)" using i by (simp add: nodes_def)
    note settled = data_cmp.hp_settle_correct[OF cmp hole _ idx(1) i _ this]
    have "hp_bag h = add_mset (hp_nodes h ! idx) (mset (hp_items (nodes[idx := hp_nodes h ! (n + 1)]) n))"
      using hp_items_refill[OF len(1) idx(1) i] n by (simp add: hp_bag_def nodes_def)
    then show ?thesis using settled len that by (metis add_lessD1 less_add_one)
  qed
  have "muggle_heap_remove h node key_free value_free =
      Some (True, h\<lparr>hp_size := n, hp_nodes := nodes'[i := nodes' ! (n + 1)]\<rparr>,
        hp_release key_free (fst (hp_nodes h ! idx)), hp_release value_free (snd (hp_nodes h ! idx)))"
    using True n run(1) by (simp add: muggle_heap_remove_def muggle_heap_is_empty_def Let_def
        idx_def[symmetric] nodes_def[symmetric])
  then show ?thesis
    using True n run inv len by (auto simp: hp_inv_def hp_wf_def hp_bag_def idx_def)
qed

theorem hp_remove_correct_witness:
  "\<exists>h'. muggle_heap_remove hp_demo 2 True False = Some (True, h', [Some 5], []) \<and>
     hp_bag h' = {#(Some 3, Some 30)#}"
  using hp_remove_correct[of hp_demo 2 True False, OF _ hp_demo_inv]
  by (auto simp: hp_demo_simps data_cmp_ex_cmp hp_release_def)

end
