(* ===== verification/Sort.thy ===== *)
theory Sort
  imports Heap
begin

text \<open>
  The sorting algorithms of \<^verbatim>\<open>muggle/c/dsaa/sort.c\<close>: insertion, Shell, heap, merge and quick sort on
  an array of data pointers. An array is a list, an access out of its bounds is the value \<open>None\<close> in
  the two recursive sorts, whose index arithmetic can leave the array. Each sort is shown to sort
  the first \<open>cnt\<close> cells, to permute the array, and to return.
\<close>

section \<open>Insertion sort\<close>

text \<open>The inner loop: \<open>j\<close> is the hole.\<close>

function is_shift :: "('a \<Rightarrow> 'a \<Rightarrow> int) \<Rightarrow> 'a \<Rightarrow> 'a list \<Rightarrow> nat \<Rightarrow> 'a list \<times> nat" where
  "is_shift cmp tmp p j =
    (if j > 0 then
       (if cmp (p ! (j - 1)) tmp > 0 then is_shift cmp tmp (p[j := p ! (j - 1)]) (j - 1) else (p, j))
     else (p, j))"
  by pat_completeness auto
termination
  by (relation "measure (\<lambda>(cmp, tmp, p, j). j)") auto

function is_outer :: "('a \<Rightarrow> 'a \<Rightarrow> int) \<Rightarrow> nat \<Rightarrow> nat \<Rightarrow> 'a list \<Rightarrow> 'a list" where
  "is_outer cmp cnt i p =
    (if i < cnt then
       let tmp = p ! i; (p, j) = is_shift cmp tmp p i in is_outer cmp cnt (i + 1) (p[j := tmp])
     else p)"
  by pat_completeness auto
termination
  by (relation "measure (\<lambda>(cmp, cnt, i, p). cnt - i)") auto

definition muggle_insertion_sort :: "'a list \<Rightarrow> nat \<Rightarrow> ('a \<Rightarrow> 'a \<Rightarrow> int) \<Rightarrow> bool \<times> 'a list" where
  "muggle_insertion_sort p cnt cmp = (True, is_outer cmp cnt 1 p)"

section \<open>Shell sort\<close>

function sh_shift :: "('a \<Rightarrow> 'a \<Rightarrow> int) \<Rightarrow> nat \<Rightarrow> 'a \<Rightarrow> 'a list \<Rightarrow> nat \<Rightarrow> 'a list \<times> nat" where
  "sh_shift cmp increment tmp p j =
    (if 0 < increment \<and> j \<ge> increment then
       (if cmp tmp (p ! (j - increment)) < 0
        then sh_shift cmp increment tmp (p[j := p ! (j - increment)]) (j - increment)
        else (p, j))
     else (p, j))"
  by pat_completeness auto
termination
  by (relation "measure (\<lambda>(cmp, increment, tmp, p, j). j)") auto

function sh_pass :: "('a \<Rightarrow> 'a \<Rightarrow> int) \<Rightarrow> nat \<Rightarrow> nat \<Rightarrow> nat \<Rightarrow> 'a list \<Rightarrow> 'a list" where
  "sh_pass cmp cnt increment i p =
    (if i < cnt then
       let tmp = p ! i; (p, j) = sh_shift cmp increment tmp p i
       in sh_pass cmp cnt increment (i + 1) (p[j := tmp])
     else p)"
  by pat_completeness auto
termination
  by (relation "measure (\<lambda>(cmp, cnt, increment, i, p). cnt - i)") auto

function sh_outer :: "('a \<Rightarrow> 'a \<Rightarrow> int) \<Rightarrow> nat \<Rightarrow> nat \<Rightarrow> 'a list \<Rightarrow> 'a list" where
  "sh_outer cmp cnt increment p =
    (if increment > 0 then sh_outer cmp cnt (increment div 2) (sh_pass cmp cnt increment increment p)
     else p)"
  by pat_completeness auto
termination
  by (relation "measure (\<lambda>(cmp, cnt, increment, p). increment)") auto

definition muggle_shell_sort :: "'a list \<Rightarrow> nat \<Rightarrow> ('a \<Rightarrow> 'a \<Rightarrow> int) \<Rightarrow> bool \<times> 'a list" where
  "muggle_shell_sort p cnt cmp = (True, sh_outer cmp cnt (cnt div 2) p)"

section \<open>Heap sort\<close>

text \<open>
  \<open>m\<close> is the allocation of \<open>init\<close> and \<open>grow i\<close> that of the \<open>i\<close>-th insertion; the results of the
  insertions and extractions are ignored, as in the code. \<open>junk\<close> and \<open>node\<close> are the uninitialised
  variables \<^verbatim>\<open>heap\<close> and \<^verbatim>\<open>node\<close>.
\<close>

fun hs_insert_all ::
    "(nat \<Rightarrow> ('k ptr, 'v ptr) heap_node malloc) \<Rightarrow> 'k ptr list \<Rightarrow> nat \<Rightarrow> nat \<Rightarrow> ('k, 'v) heap \<Rightarrow> ('k, 'v) heap" where
  "hs_insert_all grow p i 0 h = h"
| "hs_insert_all grow p i (Suc n) h =
    hs_insert_all grow p (i + 1) n (snd (muggle_heap_insert (grow i) h (p ! i) None))"

fun hs_extract_all ::
    "nat \<Rightarrow> nat \<Rightarrow> ('k, 'v) heap \<Rightarrow> ('k ptr, 'v ptr) heap_node \<Rightarrow> 'k ptr list \<Rightarrow> ('k, 'v) heap \<times> 'k ptr list" where
  "hs_extract_all i 0 h node p = (h, p)"
| "hs_extract_all i (Suc n) h node p =
    (let (ok, h, node) = muggle_heap_extract h node in hs_extract_all (i + 1) n h node (p[i := fst node]))"

definition muggle_heap_sort ::
    "('k ptr, 'v ptr) heap_node malloc \<Rightarrow> (nat \<Rightarrow> ('k ptr, 'v ptr) heap_node malloc) \<Rightarrow>
     ('k, 'v) heap \<Rightarrow> ('k ptr, 'v ptr) heap_node \<Rightarrow> 'k ptr list \<Rightarrow> nat \<Rightarrow> ('k ptr \<Rightarrow> 'k ptr \<Rightarrow> int) \<Rightarrow>
     bool \<times> 'k ptr list" where
  "muggle_heap_sort m grow junk node p cnt cmp =
    (let (ok, heap) = muggle_heap_init m junk (Some cmp) (u32 (u32 cnt + 1)) in
     if \<not> ok then (False, p)
     else
       let heap = hs_insert_all grow p 0 cnt heap;
           (heap, p) = hs_extract_all 0 cnt heap node p;
           _ = muggle_heap_destroy heap False False
       in (True, p))"

section \<open>Merge sort\<close>

function ms_merge :: "('a \<Rightarrow> 'a \<Rightarrow> int) \<Rightarrow> 'a list \<Rightarrow> nat \<Rightarrow> nat \<Rightarrow> nat \<Rightarrow> nat \<Rightarrow> nat \<Rightarrow> 'a list \<Rightarrow>
    'a list \<times> nat \<times> nat \<times> nat" where
  "ms_merge cmp p center right l r idx arr =
    (if l \<le> center \<and> r \<le> right then
       (if cmp (p ! l) (p ! r) \<le> 0
        then ms_merge cmp p center right (l + 1) r (idx + 1) (arr[idx := p ! l])
        else ms_merge cmp p center right l (r + 1) (idx + 1) (arr[idx := p ! r]))
     else (arr, l, r, idx))"
  by pat_completeness auto
termination
  by (relation "measure (\<lambda>(cmp, p, center, right, l, r, idx, arr). (Suc center - l) + (Suc right - r))") auto

text \<open>\<^verbatim>\<open>while (l <= hi) arr[idx++] = ptr[l++];\<close>\<close>

function ms_rest :: "'a list \<Rightarrow> nat \<Rightarrow> nat \<Rightarrow> nat \<Rightarrow> 'a list \<Rightarrow> 'a list \<times> nat" where
  "ms_rest p hi l idx arr =
    (if l \<le> hi then ms_rest p hi (l + 1) (idx + 1) (arr[idx := p ! l]) else (arr, idx))"
  by pat_completeness auto
termination
  by (relation "measure (\<lambda>(p, hi, l, idx, arr). Suc hi - l)") auto

text \<open>
  The call merges all of \<open>left..right\<close>: it leaves the bounds of one of the arrays exactly when \<open>right\<close>
  does, which is \<open>None\<close>. Inside them \<open>left + right\<close> does not wrap.
\<close>

function muggle_merge_sort_recursive ::
    "('a \<Rightarrow> 'a \<Rightarrow> int) \<Rightarrow> nat \<Rightarrow> nat \<Rightarrow> 'a list \<Rightarrow> 'a list \<Rightarrow> ('a list \<times> 'a list) option" where
  "muggle_merge_sort_recursive cmp left right p arr =
    (if left < right then
       if length p \<le> right \<or> length arr \<le> right then None
       else
         let center = (left + right) div 2 in
         case muggle_merge_sort_recursive cmp left center p arr of
           None \<Rightarrow> None
         | Some (p, arr) \<Rightarrow>
             case muggle_merge_sort_recursive cmp (center + 1) right p arr of
               None \<Rightarrow> None
             | Some (p, arr) \<Rightarrow>
                 let (arr, l, r, idx) = ms_merge cmp p center right left (center + 1) left arr;
                     (arr, idx) = ms_rest p center l idx arr;
                     (arr, idx) = ms_rest p right r idx arr
                 in Some (fill (\<lambda>i. arr ! (left + i)) left (right + 1 - left) p, arr)
     else Some (p, arr))"
  by pat_completeness auto
termination
  by (relation "measure (\<lambda>(cmp, left, right, p, arr). right - left)") auto

definition muggle_merge_sort ::
    "'a malloc \<Rightarrow> 'a list \<Rightarrow> nat \<Rightarrow> ('a \<Rightarrow> 'a \<Rightarrow> int) \<Rightarrow> (bool \<times> 'a list) option" where
  "muggle_merge_sort m p cnt cmp =
    (case malloc_array m (cells 8 cnt) of
       None \<Rightarrow> Some (False, p)
     | Some arr \<Rightarrow>
         case muggle_merge_sort_recursive cmp 0 (to_u64 (int cnt - 1)) p arr of
           None \<Rightarrow> None
         | Some (p, arr) \<Rightarrow> Some (True, p))"

section \<open>Quick sort\<close>

definition qs_swap :: "nat \<Rightarrow> nat \<Rightarrow> 'a list \<Rightarrow> 'a list" where
  "qs_swap i j p = p[i := p ! j, j := p ! i]"

definition muggle_quick_sort_median3 ::
    "('a \<Rightarrow> 'a \<Rightarrow> int) \<Rightarrow> 'a list \<Rightarrow> nat \<Rightarrow> nat \<Rightarrow> 'a \<times> 'a list" where
  "muggle_quick_sort_median3 cmp p left right =
    (let center = (left + right) div 2;
         p = (if cmp (p ! left) (p ! center) > 0 then qs_swap left center p else p);
         p = (if cmp (p ! left) (p ! right) > 0 then qs_swap left right p else p);
         p = (if cmp (p ! center) (p ! right) > 0 then qs_swap center right p else p);
         p = qs_swap center (right - 1) p
     in (p ! (right - 1), p))"

text \<open>\<^verbatim>\<open>while (cmp(ptr[++i], pivot) < 0) {}\<close> and \<^verbatim>\<open>while (cmp(ptr[--j], pivot) > 0) {}\<close>.\<close>

function qs_scan_up :: "('a \<Rightarrow> 'a \<Rightarrow> int) \<Rightarrow> 'a \<Rightarrow> 'a list \<Rightarrow> nat \<Rightarrow> nat option" where
  "qs_scan_up cmp pivot p i =
    (if length p \<le> i + 1 then None
     else if cmp (p ! (i + 1)) pivot < 0 then qs_scan_up cmp pivot p (i + 1) else Some (i + 1))"
  by pat_completeness auto
termination
  by (relation "measure (\<lambda>(cmp, pivot, p, i). length p - i)") auto

fun qs_scan_down :: "('a \<Rightarrow> 'a \<Rightarrow> int) \<Rightarrow> 'a \<Rightarrow> 'a list \<Rightarrow> nat \<Rightarrow> nat option" where
  "qs_scan_down cmp pivot p 0 = None"
| "qs_scan_down cmp pivot p (Suc j) =
    (if cmp (p ! j) pivot > 0 then qs_scan_down cmp pivot p j else Some j)"

partial_function (option) qs_partition ::
    "('a \<Rightarrow> 'a \<Rightarrow> int) \<Rightarrow> 'a \<Rightarrow> nat \<Rightarrow> nat \<Rightarrow> 'a list \<Rightarrow> ('a list \<times> nat) option" where
  "qs_partition cmp pivot i j p =
    (case qs_scan_up cmp pivot p i of
       None \<Rightarrow> None
     | Some i \<Rightarrow>
         case qs_scan_down cmp pivot p j of
           None \<Rightarrow> None
         | Some j \<Rightarrow> if i < j then qs_partition cmp pivot i j (qs_swap i j p) else Some (p, i))"

definition QUICK_SORT_CUTOFF :: nat where
  "QUICK_SORT_CUTOFF = 10"

text \<open>\<open>ptr + left\<close> is the array from \<open>left\<close> on. Both branches of the recursion access
  \<open>ptr[right]\<close>.\<close>

definition at_offset :: "nat \<Rightarrow> ('a list \<Rightarrow> 'a list) \<Rightarrow> 'a list \<Rightarrow> 'a list" where
  "at_offset left f p = take left p @ f (drop left p)"

partial_function (option) muggle_quick_sort_recursive ::
    "('a \<Rightarrow> 'a \<Rightarrow> int) \<Rightarrow> nat \<Rightarrow> nat \<Rightarrow> 'a list \<Rightarrow> 'a list option" where
  "muggle_quick_sort_recursive cmp left right p =
    (if length p \<le> right then None
     else if left + QUICK_SORT_CUTOFF \<le> right then
       (let (pivot, p) = muggle_quick_sort_median3 cmp p left right in
        case qs_partition cmp pivot left (right - 1) p of
          None \<Rightarrow> None
        | Some (p, i) \<Rightarrow>
            Option.bind (muggle_quick_sort_recursive cmp left (i - 1) (qs_swap i (right - 1) p))
              (\<lambda>p. muggle_quick_sort_recursive cmp (i + 1) right p))
     else Some (at_offset left (\<lambda>p. snd (muggle_insertion_sort p (right + 1 - left) cmp)) p))"

definition muggle_quick_sort :: "'a list \<Rightarrow> nat \<Rightarrow> ('a \<Rightarrow> 'a \<Rightarrow> int) \<Rightarrow> (bool \<times> 'a list) option" where
  "muggle_quick_sort p cnt cmp =
    (case muggle_quick_sort_recursive cmp 0 (to_u64 (int cnt - 1)) p of
       None \<Rightarrow> None
     | Some p \<Rightarrow> Some (True, p))"

declare is_shift.simps [simp del] is_outer.simps [simp del] sh_shift.simps [simp del]
  sh_pass.simps [simp del] sh_outer.simps [simp del] ms_merge.simps [simp del] ms_rest.simps [simp del]
  muggle_merge_sort_recursive.simps [simp del] qs_scan_up.simps [simp del]

section \<open>Sorted segments\<close>

definition seg_sorted :: "('a \<Rightarrow> 'a \<Rightarrow> int) \<Rightarrow> 'a list \<Rightarrow> nat \<Rightarrow> nat \<Rightarrow> bool" where
  "seg_sorted cmp p lo hi \<longleftrightarrow> (\<forall>a b. lo \<le> a \<and> a < b \<and> b < hi \<longrightarrow> cmp (p ! a) (p ! b) \<le> 0)"

text \<open>\<open>p'\<close> permutes \<open>p\<close> and differs from it at most inside \<open>lo..<hi\<close>.\<close>

definition seg_perm :: "'a list \<Rightarrow> 'a list \<Rightarrow> nat \<Rightarrow> nat \<Rightarrow> bool" where
  "seg_perm p p' lo hi \<longleftrightarrow> mset p' = mset p \<and> (\<forall>i. i < lo \<or> hi \<le> i \<longrightarrow> p' ! i = p ! i)"

text \<open>What a sort promises: the first \<open>n\<close> cells are sorted, and only they are permuted.\<close>

definition sorts :: "('a \<Rightarrow> 'a \<Rightarrow> int) \<Rightarrow> 'a list \<Rightarrow> nat \<Rightarrow> 'a list \<Rightarrow> bool" where
  "sorts cmp p n p' \<longleftrightarrow>
     sorted_wrt (\<lambda>x y. cmp x y \<le> 0) (take n p') \<and> mset (take n p') = mset (take n p) \<and>
     drop n p' = drop n p"

lemma seg_perm_refl [simp]: "seg_perm p p lo hi"
  by (simp add: seg_perm_def)

lemma seg_perm_length: "seg_perm p p' lo hi \<Longrightarrow> length p' = length p"
  using mset_eq_length by (auto simp: seg_perm_def)

lemma seg_perm_trans: "seg_perm p q lo hi \<Longrightarrow> seg_perm q r lo hi \<Longrightarrow> seg_perm p r lo hi"
  by (auto simp: seg_perm_def)

lemma seg_perm_mono: "seg_perm p q lo hi \<Longrightarrow> lo' \<le> lo \<Longrightarrow> hi \<le> hi' \<Longrightarrow> seg_perm p q lo' hi'"
  by (auto simp: seg_perm_def)

lemma seg_split: "lo \<le> hi \<Longrightarrow> take lo p @ take (hi - lo) (drop lo p) @ drop hi p = p"
  by (metis append_take_drop_id drop_drop le_add_diff_inverse2)

lemma seg_perm_seg:
  assumes "seg_perm p p' lo hi" "lo \<le> hi"
  shows "mset (take (hi - lo) (drop lo p')) = mset (take (hi - lo) (drop lo p))"
proof -
  have "take lo p' = take lo p" "drop hi p' = drop hi p"
    using assms seg_perm_length[OF assms(1)] by (auto intro!: nth_equalityI simp: seg_perm_def)
  moreover have "mset p' = mset p" using assms(1) by (simp add: seg_perm_def)
  ultimately have "mset (take lo p @ take (hi - lo) (drop lo p') @ drop hi p) =
      mset (take lo p @ take (hi - lo) (drop lo p) @ drop hi p)"
    using seg_split[OF assms(2), of p] seg_split[OF assms(2), of p'] by metis
  then show ?thesis by simp
qed

text \<open>Every cell of a permuted segment was a cell of that segment.\<close>

lemma seg_perm_nth:
  assumes "seg_perm p p' lo hi" "lo \<le> k" "k < hi" "hi \<le> length p"
  obtains j where "lo \<le> j" "j < hi" "p' ! k = p ! j"
proof -
  have "p' ! k = take (hi - lo) (drop lo p') ! (k - lo)"
    using assms seg_perm_length[OF assms(1)] by simp
  also have "\<dots> \<in> set (take (hi - lo) (drop lo p'))"
    using assms seg_perm_length[OF assms(1)] by (intro nth_mem) simp
  also have "\<dots> = set (take (hi - lo) (drop lo p))"
    using seg_perm_seg[OF assms(1)] assms(2,3) by (metis less_imp_le_nat le_trans set_mset_mset)
  finally obtain i where "i < hi - lo" "p' ! k = p ! (lo + i)"
    using assms(4) by (auto simp: in_set_conv_nth)
  then show ?thesis using that[of "lo + i"] by simp
qed

lemma sorts_iff:
  assumes "n \<le> length p" "seg_perm p p' 0 n" "seg_sorted cmp p' 0 n"
  shows "sorts cmp p n p'"
proof -
  have "drop n p' = drop n p"
    using assms seg_perm_length[OF assms(2)] by (auto intro!: nth_equalityI simp: seg_perm_def)
  then show ?thesis
    using assms seg_perm_seg[OF assms(2)]
    by (auto simp: sorts_def seg_sorted_def sorted_wrt_iff_nth_less)
qed

section \<open>Insertion and Shell sort\<close>

lemma mset_move:
  assumes "i < length p" "j < length p"
  shows "mset (p[j := p ! i, i := x]) = mset (p[j := x])"
proof (cases "i = j")
  case False
  have "mset ((p[j := x])[i := p[j := x] ! j, j := p[j := x] ! i]) = mset (p[j := x])"
    using assms by (intro mset_swap) auto
  with False assms show ?thesis by (simp add: list_update_swap[OF False])
qed (use assms in simp)

lemma sh_shift_perm:
  assumes "sh_shift cmp increment tmp p j = (p', j')" "j < length p"
  shows "j' \<le> j \<and> length p' = length p \<and> mset (p'[j' := tmp]) = mset (p[j := tmp]) \<and>
    (\<forall>k > j. p' ! k = p ! k)"
  using assms
proof (induction cmp increment tmp p j rule: sh_shift.induct)
  case (1 cmp increment tmp p j)
  show ?case
  proof (cases "0 < increment \<and> increment \<le> j \<and> cmp tmp (p ! (j - increment)) < 0")
    case True
    let ?p = "p[j := p ! (j - increment)]"
    have run: "sh_shift cmp increment tmp ?p (j - increment) = (p', j')"
      using "1.prems"(1) True by (subst (asm) sh_shift.simps) simp
    have "j' \<le> j - increment \<and> length p' = length ?p \<and>
        mset (p'[j' := tmp]) = mset (?p[j - increment := tmp]) \<and> (\<forall>k > j - increment. p' ! k = ?p ! k)"
      using True "1.prems"(2) by (intro "1.IH"[OF _ _ run]) auto
    moreover have "mset (?p[j - increment := tmp]) = mset (p[j := tmp])"
      using "1.prems"(2) by (intro mset_move) auto
    ultimately show ?thesis by auto
  next
    case False
    have "sh_shift cmp increment tmp p j = (p, j)" using False by (subst sh_shift.simps) auto
    with "1.prems" show ?thesis by simp
  qed
qed

lemma sh_pass_perm:
  assumes "cnt \<le> length p"
  shows "seg_perm p (sh_pass cmp cnt increment i p) 0 cnt"
  using assms
proof (induction cmp cnt increment i p rule: sh_pass.induct)
  case (1 cmp cnt increment i p)
  show ?case
  proof (cases "i < cnt")
    case True
    obtain p' j where shift: "sh_shift cmp increment (p ! i) p i = (p', j)" by fastforce
    have s: "j \<le> i" "length p' = length p" "mset (p'[j := p ! i]) = mset p" "\<forall>k > i. p' ! k = p ! k"
      using sh_shift_perm[OF shift] True "1.prems" by simp_all
    then have "seg_perm p (p'[j := p ! i]) 0 cnt" using True by (auto simp: seg_perm_def)
    moreover have "seg_perm (p'[j := p ! i]) (sh_pass cmp cnt increment (i + 1) (p'[j := p ! i])) 0 cnt"
      using True shift s "1.prems" by (intro "1.IH"[OF _ refl]) auto
    moreover have "sh_pass cmp cnt increment i p = sh_pass cmp cnt increment (i + 1) (p'[j := p ! i])"
      using True shift by (subst sh_pass.simps) (simp add: Let_def)
    ultimately show ?thesis using seg_perm_trans by metis
  next
    case False
    then show ?thesis by (subst sh_pass.simps) simp
  qed
qed

context data_cmp
begin

lemma sh_shift_1: "sh_shift cmp (Suc 0) tmp p j = is_shift cmp tmp p j"
proof (induction j arbitrary: p)
  case 0
  then show ?case by (simp add: sh_shift.simps is_shift.simps)
next
  case (Suc j)
  then show ?case
    by (subst sh_shift.simps, subst is_shift.simps) (simp add: cmp_neg_iff)
qed

lemma sh_pass_1: "sh_pass cmp cnt (Suc 0) i p = is_outer cmp cnt i p"
proof (induction "cnt - i" arbitrary: i p)
  case 0
  then show ?case by (simp add: sh_pass.simps is_outer.simps)
next
  case (Suc n)
  then show ?case
    by (subst sh_pass.simps, subst is_outer.simps) (simp add: sh_shift_1 Let_def split: prod.splits)
qed

text \<open>A hole at \<open>j\<close> in the sorted \<open>0..i\<close>, and a key not greater than what follows it.\<close>

lemma is_shift_sorted:
  assumes "is_shift cmp tmp p j = (p', j')" "j \<le> i" "i < length p"
    and "\<And>a b. a < b \<Longrightarrow> b \<le> i \<Longrightarrow> a \<noteq> j \<Longrightarrow> b \<noteq> j \<Longrightarrow> cmp (p ! a) (p ! b) \<le> 0"
    and "\<And>b. j < b \<Longrightarrow> b \<le> i \<Longrightarrow> cmp tmp (p ! b) \<le> 0"
  shows "seg_sorted cmp (p'[j' := tmp]) 0 (Suc i)"
  using assms
proof (induction j arbitrary: p)
  case 0
  then have "p' = p" "j' = 0" by (simp_all add: is_shift.simps)
  moreover have "p \<noteq> []" using 0(3) by auto
  ultimately show ?case using 0 by (auto simp: seg_sorted_def nth_list_update)
next
  case (Suc j)
  show ?case
  proof (cases "cmp (p ! j) tmp > 0")
    case True
    let ?p = "p[Suc j := p ! j]"
    have run: "is_shift cmp tmp ?p j = (p', j')"
      using Suc.prems(1) True by (subst (asm) is_shift.simps) simp
    have below: "cmp tmp (p ! j) \<le> 0" using True cmp_neg_iff[of tmp "p ! j"] by simp
    show ?thesis
    proof (rule Suc.IH[OF run])
      show "cmp (?p ! a) (?p ! b) \<le> 0" if "a < b" "b \<le> i" "a \<noteq> j" "b \<noteq> j" for a b
        using that Suc.prems(2-4) by (cases "a = Suc j"; cases "b = Suc j") auto
      show "cmp tmp (?p ! b) \<le> 0" if "j < b" "b \<le> i" for b
        using that Suc.prems(2,3,5) below by (cases "b = Suc j") auto
    qed (use Suc.prems(2,3) in auto)
  next
    case False
    have eq: "p' = p" "j' = Suc j"
      using Suc.prems(1) False by (subst (asm) is_shift.simps; simp)+
    have "cmp (p ! a) tmp \<le> 0" if "a \<le> j" for a
      using that False Suc.prems(2) Suc.prems(4)[of a j] cmp_trans[of "p ! a" "p ! j" tmp] by (cases "a = j") auto
    then show ?thesis unfolding eq using Suc.prems(2-5) by (auto simp: seg_sorted_def nth_list_update)
  qed
qed

lemma is_outer_sorted:
  assumes "seg_sorted cmp p 0 i" "cnt \<le> length p" "i \<le> cnt"
  shows "seg_sorted cmp (is_outer cmp cnt i p) 0 cnt"
  using assms
proof (induction "cnt - i" arbitrary: i p)
  case 0
  then show ?case by (simp add: is_outer.simps)
next
  case (Suc n)
  then have i: "i < cnt" by simp
  obtain p' j where shift: "is_shift cmp (p ! i) p i = (p', j)" by fastforce
  have "seg_sorted cmp (p'[j := p ! i]) 0 (Suc i)"
    using Suc.prems i by (intro is_shift_sorted[OF shift]) (auto simp: seg_sorted_def)
  moreover have "length p' = length p"
    using sh_shift_perm[OF shift[folded sh_shift_1]] Suc.prems i by simp
  ultimately have "seg_sorted cmp (is_outer cmp cnt (Suc i) (p'[j := p ! i])) 0 cnt"
    using Suc.hyps(2) Suc.prems i by (intro Suc.hyps(1)) auto
  then show ?case using i shift by (subst is_outer.simps) (simp add: Let_def)
qed

lemma insertion_sort_correct:
  assumes "cnt \<le> length p"
  shows "seg_perm p (is_outer cmp cnt 1 p) 0 cnt" "seg_sorted cmp (is_outer cmp cnt 1 p) 0 cnt"
proof -
  show "seg_perm p (is_outer cmp cnt 1 p) 0 cnt"
    using sh_pass_perm[OF assms, of cmp "Suc 0" 1] by (simp add: sh_pass_1)
  show "seg_sorted cmp (is_outer cmp cnt 1 p) 0 cnt"
  proof (cases "cnt = 0")
    case True
    then show ?thesis by (simp add: seg_sorted_def)
  next
    case False
    then show ?thesis using assms by (intro is_outer_sorted) (auto simp: seg_sorted_def)
  qed
qed

text \<open>The last pass of Shell sort has the increment 1.\<close>

lemma sh_outer_correct:
  assumes "cnt \<le> length p" "0 < increment"
  shows "seg_perm p (sh_outer cmp cnt increment p) 0 cnt \<and> seg_sorted cmp (sh_outer cmp cnt increment p) 0 cnt"
  using assms
proof (induction increment arbitrary: p rule: less_induct)
  case (less inc)
  let ?p = "sh_pass cmp cnt inc inc p"
  have pass: "seg_perm p ?p 0 cnt" using less.prems(1) by (rule sh_pass_perm)
  have step: "sh_outer cmp cnt inc p = sh_outer cmp cnt (inc div 2) ?p"
    using less.prems(2) by (subst sh_outer.simps) simp
  show ?case
  proof (cases "inc = 1")
    case True
    then have "sh_outer cmp cnt inc p = is_outer cmp cnt 1 p"
      using step by (subst (asm) sh_outer.simps) (simp add: sh_pass_1 sh_outer.simps)
    then show ?thesis using insertion_sort_correct[OF less.prems(1)] by simp
  next
    case False
    then have "seg_perm ?p (sh_outer cmp cnt (inc div 2) ?p) 0 cnt \<and>
        seg_sorted cmp (sh_outer cmp cnt (inc div 2) ?p) 0 cnt"
      using less.prems seg_perm_length[OF pass] by (intro less.IH) auto
    then show ?thesis using step seg_perm_trans[OF pass] by simp
  qed
qed

end

section \<open>Heap sort\<close>

lemma hp_size_bag: "hp_inv h \<Longrightarrow> size (hp_bag h) = hp_size h"
  by (simp add: hp_inv_def hp_wf_def hp_bag_def)

lemma hp_insert_capacity:
  "hp_size h < hp_capacity h \<Longrightarrow> hp_capacity (snd (muggle_heap_insert m h key val)) = hp_capacity h"
  by (simp add: muggle_heap_insert_def Let_def split: prod.splits)

lemma hs_insert_all_bag:
  assumes "data_cmp cmp" "hp_inv h" "hp_cmp h = cmp" "hp_size h + n \<le> hp_capacity h"
    "hp_capacity h < 2 ^ 58" "i + n \<le> length p"
  shows "hp_inv (hs_insert_all grow p i n h) \<and> hp_cmp (hs_insert_all grow p i n h) = cmp \<and>
    hp_bag (hs_insert_all grow p i n h) = hp_bag h + mset (map (\<lambda>k. (k, None)) (take n (drop i p)))"
  using assms
proof (induction n arbitrary: i h)
  case (Suc n)
  define h' where "h' = snd (muggle_heap_insert (grow i) h (p ! i) None)"
  have post: "hp_inv h'" "hp_cmp h' = cmp" "hp_bag h' = add_mset (p ! i, None) (hp_bag h)"
    using hp_insert_post[OF _ _ _ prod.collapse[symmetric], of h "grow i" "p ! i" None] Suc.prems
    by (auto simp: h'_def split: if_splits)
  have "hp_size h' = hp_size h + 1"
    using post Suc.prems(2) hp_size_bag[of h'] hp_size_bag[of h] by simp
  moreover have "hp_capacity h' = hp_capacity h"
    unfolding h'_def using Suc.prems(4) by (intro hp_insert_capacity) simp
  ultimately have "hp_inv (hs_insert_all grow p (i + 1) n h') \<and> hp_cmp (hs_insert_all grow p (i + 1) n h') = cmp \<and>
    hp_bag (hs_insert_all grow p (i + 1) n h') = hp_bag h' + mset (map (\<lambda>k. (k, None)) (take n (drop (i + 1) p)))"
    using Suc.prems post by (intro Suc.IH) auto
  moreover have "take (Suc n) (drop i p) = p ! i # take n (drop (i + 1) p)"
    using Suc.prems(6) by (simp add: Cons_nth_drop_Suc[symmetric])
  ultimately show ?case using post(3) by (simp add: h'_def)
qed simp

lemma hs_extract_all_sorts:
  assumes "data_cmp cmp" "hp_inv h" "hp_cmp h = cmp" "hp_size h = n" "i + n \<le> length p"
    and "hs_extract_all i n h node p = (h', p')"
  shows "length p' = length p \<and> (\<forall>k. k < i \<or> i + n \<le> k \<longrightarrow> p' ! k = p ! k) \<and>
    mset (take n (drop i p')) = image_mset fst (hp_bag h) \<and> seg_sorted cmp p' i (i + n)"
  using assms
proof (induction n arbitrary: i h node p)
  case 0
  then have "hp_bag h = {#}" by (metis hp_size_bag size_eq_0_iff_empty)
  with 0 show ?case by (auto simp: seg_sorted_def)
next
  case (Suc n)
  obtain ok h1 node1 where ex: "muggle_heap_extract h node = (ok, h1, node1)" by (cases "muggle_heap_extract h node") auto
  have post: "hp_inv h1" "hp_cmp h1 = cmp" "hp_bag h = add_mset node1 (hp_bag h1)" "hp_size h1 = n"
    "\<forall>x \<in># hp_bag h. cmp (fst node1) (fst x) \<le> 0"
    using hp_extract_post[OF _ _ ex] Suc.prems by auto
  have run: "hs_extract_all (i + 1) n h1 node1 (p[i := fst node1]) = (h', p')"
    using Suc.prems(6) ex by simp
  have IH: "length p' = length (p[i := fst node1])"
    "\<And>k. k < i + 1 \<or> i + 1 + n \<le> k \<Longrightarrow> p' ! k = p[i := fst node1] ! k"
    "mset (take n (drop (i + 1) p')) = image_mset fst (hp_bag h1)" "seg_sorted cmp p' (i + 1) (i + 1 + n)"
    using Suc.IH[OF Suc.prems(1) post(1,2,4) _ run] Suc.prems(5) by auto
  have first: "p' ! i = fst node1" using IH(2)[of i] Suc.prems(5) by simp
  have "take (Suc n) (drop i p') = p' ! i # take n (drop (i + 1) p')"
    using Suc.prems(5) IH(1) by (simp add: Cons_nth_drop_Suc[symmetric])
  then have bag: "mset (take (Suc n) (drop i p')) = image_mset fst (hp_bag h)"
    using IH(3) first post(3) by simp
  have "cmp (p' ! i) (p' ! b) \<le> 0" if "i < b" "b < i + Suc n" for b
  proof -
    have "p' ! b = take (Suc n) (drop i p') ! (b - i)" using that Suc.prems(5) IH(1) by simp
    also have "\<dots> \<in># mset (take (Suc n) (drop i p'))"
      unfolding set_mset_mset using that Suc.prems(5) IH(1) by (intro nth_mem) simp
    finally show ?thesis using post(5) first by (auto simp: bag)
  qed
  then have "cmp (p' ! a) (p' ! b) \<le> 0" if "i \<le> a" "a < b" "b < i + Suc n" for a b
    using that IH(4) by (cases "a = i") (auto simp: seg_sorted_def)
  then have "seg_sorted cmp p' i (i + Suc n)" by (simp add: seg_sorted_def)
  then show ?case using IH(1,2) bag by auto
qed

section \<open>Merge sort\<close>

text \<open>The reference: merging two lists, and the cells \<open>lo..<hi\<close> of an array.\<close>

fun mrg :: "('a \<Rightarrow> 'a \<Rightarrow> int) \<Rightarrow> 'a list \<Rightarrow> 'a list \<Rightarrow> 'a list" where
  "mrg cmp [] ys = ys"
| "mrg cmp xs [] = xs"
| "mrg cmp (x # xs) (y # ys) =
    (if cmp x y \<le> 0 then x # mrg cmp xs (y # ys) else y # mrg cmp (x # xs) ys)"

definition put :: "'a list \<Rightarrow> nat \<Rightarrow> 'a list \<Rightarrow> 'a list" where
  "put arr i ys = take i arr @ ys @ drop (i + length ys) arr"

lemma mrg_Nil2 [simp]: "mrg cmp xs [] = xs"
  by (cases xs) simp_all

lemma length_mrg: "length (mrg cmp xs ys) = length xs + length ys"
  by (induction cmp xs ys rule: mrg.induct) auto

lemma seg_Cons: "lo < hi \<Longrightarrow> hi \<le> length p \<Longrightarrow> seg p lo hi = p ! lo # seg p (Suc lo) hi"
  by (simp add: seg_def Cons_nth_drop_Suc[symmetric] Suc_diff_Suc[symmetric])

lemma put_Nil [simp]: "put arr i [] = arr"
  by (simp add: put_def)

lemma length_put [simp]: "i + length ys \<le> length arr \<Longrightarrow> length (put arr i ys) = length arr"
  by (simp add: put_def)

lemma put_Cons: "i + length ys < length arr \<Longrightarrow> put (arr[i := y]) (Suc i) ys = put arr i (y # ys)"
  by (simp add: put_def take_update_snoc)

lemma put_put: "i + length xs + length ys \<le> length arr \<Longrightarrow>
    put (put arr i xs) (i + length xs) ys = put arr i (xs @ ys)"
  by (simp add: put_def add.commute add.left_commute)

lemma seg_put: "i + length ys \<le> length arr \<Longrightarrow> seg (put arr i ys) i (i + length ys) = ys"
  by (simp add: seg_def put_def)

lemma ms_rest_eq:
  assumes "hi < length p" "idx + (Suc hi - l) \<le> length arr"
  shows "ms_rest p hi l idx arr = (put arr idx (seg p l (Suc hi)), idx + (Suc hi - l))"
  using assms
proof (induction p hi l idx arr rule: ms_rest.induct)
  case (1 p hi l idx arr)
  show ?case
  proof (cases "l \<le> hi")
    case True
    then have "ms_rest p hi (l + 1) (idx + 1) (arr[idx := p ! l]) =
        (put (arr[idx := p ! l]) (Suc idx) (seg p (Suc l) (Suc hi)), idx + (Suc hi - l))"
      using "1.IH" "1.prems" by simp
    also have "put (arr[idx := p ! l]) (Suc idx) (seg p (Suc l) (Suc hi)) = put arr idx (seg p l (Suc hi))"
      using True "1.prems" seg_Cons[of l "Suc hi" p] by (simp add: put_Cons)
    finally show ?thesis using True by (subst ms_rest.simps) simp
  qed (simp add: ms_rest.simps)
qed

text \<open>The three copy loops write the merge of both halves.\<close>

lemma ms_merge_eq:
  assumes "center < length p" "right < length p"
    "idx + (Suc center - l) + (Suc right - r) \<le> length arr"
    and "ms_merge cmp p center right l r idx arr = (arr1, l1, r1, idx1)"
    and "ms_rest p center l1 idx1 arr1 = (arr2, idx2)" "ms_rest p right r1 idx2 arr2 = (arr3, idx3)"
  shows "arr3 = put arr idx (mrg cmp (seg p l (Suc center)) (seg p r (Suc right)))"
  using assms
proof (induction cmp p center right l r idx arr rule: ms_merge.induct)
  case (1 cmp p center right l r idx arr)
  show ?case
  proof (cases "l \<le> center \<and> r \<le> right")
    case True
    then have s: "seg p l (Suc center) = p ! l # seg p (Suc l) (Suc center)"
      "seg p r (Suc right) = p ! r # seg p (Suc r) (Suc right)"
      using "1.prems"(1,2) by (auto intro: seg_Cons)
    have room: "idx + (center - l + Suc (right - r)) < length arr" "idx + (Suc (center - l) + (right - r)) < length arr"
      using True "1.prems"(3) by linarith+
    show ?thesis
    proof (cases "cmp (p ! l) (p ! r) \<le> 0")
      case le: True
      have "arr3 = put (arr[idx := p ! l]) (idx + 1) (mrg cmp (seg p (l + 1) (Suc center)) (seg p r (Suc right)))"
        using "1.prems" True le by (intro "1.IH"(1)) (auto simp: ms_merge.simps[of _ _ _ _ l r])
      then show ?thesis using s le room(1) "1.prems"(1,2) by (simp add: put_Cons length_mrg)
    next
      case gt: False
      have "arr3 = put (arr[idx := p ! r]) (idx + 1) (mrg cmp (seg p l (Suc center)) (seg p (r + 1) (Suc right)))"
        using "1.prems" True gt by (intro "1.IH"(2)) (auto simp: ms_merge.simps[of _ _ _ _ l r])
      then show ?thesis using s gt room(2) "1.prems"(1,2) by (simp add: put_Cons length_mrg)
    qed
  next
    case False
    then have eqs: "arr1 = arr" "l1 = l" "r1 = r" "idx1 = idx"
      using "1.prems"(4) by (auto simp: ms_merge.simps[of _ _ _ _ l r])
    have "arr2 = put arr idx (seg p l (Suc center))" "idx2 = idx + (Suc center - l)"
      using "1.prems"(1,3,5) by (auto simp: eqs ms_rest_eq)
    moreover have "arr3 = put arr2 idx2 (seg p r (Suc right))"
      using "1.prems"(1,2,3,6) calculation by (auto simp: eqs ms_rest_eq)
    ultimately have "arr3 = put arr idx (seg p l (Suc center) @ seg p r (Suc right))"
      using put_put[of idx "seg p l (Suc center)" "seg p r (Suc right)" arr] "1.prems"(1-3) by simp
    then show ?thesis using False by (auto simp: not_le)
  qed
qed

lemma seg_put_prefix: "i + length xs + length ys \<le> length p \<Longrightarrow> seg (put p i (xs @ ys)) i (i + length xs) = xs"
  by (simp add: seg_def put_def)

lemma seg_put_suffix:
  "i + length xs + length ys \<le> length p \<Longrightarrow>
    seg (put p i (xs @ ys)) (i + length xs) (i + length xs + length ys) = ys"
  by (simp add: seg_def put_def)

lemma seg_put_after: "i + length ys \<le> lo \<Longrightarrow> lo \<le> length p \<Longrightarrow> seg (put p i ys) lo hi = seg p lo hi"
  by (simp add: seg_def put_def)

lemma put_over: "length xs = length ys \<Longrightarrow> i + length xs \<le> length p \<Longrightarrow> put (put p i xs) i ys = put p i ys"
  by (simp add: put_def)

lemma fill_put:
  assumes "lo + n \<le> length p" "lo + n \<le> length arr"
  shows "fill (\<lambda>i. arr ! (lo + i)) lo n p = put p lo (seg arr lo (lo + n))"
proof -
  have "map (\<lambda>i. arr ! (lo + i)) [0..<n] = seg arr lo (lo + n)"
    using assms by (intro nth_equalityI) (auto simp: nth_seg)
  then show ?thesis using assms by (simp add: fill_eq put_def)
qed

lemma mset_mrg: "mset (mrg cmp xs ys) = mset xs + mset ys"
  by (induction cmp xs ys rule: mrg.induct) auto

lemma set_mrg: "set (mrg cmp xs ys) = set xs \<union> set ys"
  by (metis mset_mrg set_mset_mset set_mset_union)

context data_cmp
begin

lemma sorted_mrg:
  assumes "sorted_wrt (\<lambda>x y. cmp x y \<le> 0) xs" "sorted_wrt (\<lambda>x y. cmp x y \<le> 0) ys"
  shows "sorted_wrt (\<lambda>x y. cmp x y \<le> 0) (mrg cmp xs ys)"
  using assms
proof (induction xs arbitrary: ys)
  case (Cons x xs)
  note oIH = Cons.IH and oprems = Cons.prems
  show ?case using Cons.prems(2)
  proof (induction ys)
    case (Cons y ys)
    show ?case
    proof (cases "cmp x y \<le> 0")
      case True
      then have "cmp x z \<le> 0" if "z \<in> set (y # ys)" for z
        using that Cons.prems cmp_trans by auto
      then show ?thesis using True oprems(1) oIH[OF _ Cons.prems] by (auto simp: set_mrg)
    next
      case False
      then have yx: "cmp y x \<le> 0" using cmp_total by blast
      then have "cmp y z \<le> 0" if "z \<in> set (x # xs)" for z
        using that oprems(1) cmp_trans by auto
      then show ?thesis using False Cons by (auto simp: set_mrg)
    qed
  qed (use oprems in simp)
qed simp

text \<open>Merging is stable: items that compare equal to \<open>z\<close> keep their order, those of \<open>xs\<close> first.\<close>

lemma stable_mrg:
  assumes "sorted_wrt (\<lambda>x y. cmp x y \<le> 0) xs"
  shows "filter (\<lambda>y. cmp z y = 0) (mrg cmp xs ys) = filter (\<lambda>y. cmp z y = 0) xs @ filter (\<lambda>y. cmp z y = 0) ys"
  using assms
proof (induction xs arbitrary: ys)
  case (Cons x xs)
  note oIH = Cons.IH and oprems = Cons.prems
  show ?case
  proof (induction ys)
    case (Cons y ys)
    show ?case
    proof (cases "cmp x y \<le> 0")
      case True
      then show ?thesis using oIH[of "y # ys"] oprems by auto
    next
      case False
      then have yx: "cmp y x < 0" by (simp add: cmp_neg_iff)
      have "filter (\<lambda>w. cmp z w = 0) (x # xs) = []" if "cmp z y = 0"
      proof -
        have zy: "cmp z y \<le> 0" using that by simp
        have "cmp z w < 0" if "w \<in> set (x # xs)" for w
        proof -
          have "cmp x w \<le> 0" using that oprems by auto
          with yx have "cmp y w < 0" by (rule cmp_less_trans)
          with zy show ?thesis by (rule cmp_le_less_trans)
        qed
        then show ?thesis by (force simp: filter_empty_conv)
      qed
      then show ?thesis using False Cons by (auto simp del: filter.simps(2) simp: filter.simps(2)[of _ y])
    qed
  qed simp
qed simp

text \<open>What the recursion makes of \<open>left..right\<close>: a sorted and stable permutation.\<close>

lemma merge_sort_recursive_correct:
  assumes "left \<le> right" "right < length p" "right < length arr"
  shows "\<exists>ys arr'. muggle_merge_sort_recursive cmp left right p arr = Some (put p left ys, arr') \<and>
    length arr' = length arr \<and> length ys = Suc right - left \<and>
    sorted_wrt (\<lambda>x y. cmp x y \<le> 0) ys \<and> mset ys = mset (seg p left (Suc right)) \<and>
    (\<forall>z. filter (\<lambda>y. cmp z y = 0) ys = filter (\<lambda>y. cmp z y = 0) (seg p left (Suc right)))"
  using assms
proof (induction "right - left" arbitrary: left right p arr rule: less_induct)
  case less
  show ?case
  proof (cases "left < right")
    case False
    then have "left = right" using less.prems(1) by simp
    moreover have "put p right [p ! right] = p"
      using less.prems(2) by (simp add: put_def id_take_nth_drop[symmetric])
    ultimately show ?thesis
      using less.prems by (intro exI[of _ "[p ! right]"] exI[of _ arr])
        (simp add: muggle_merge_sort_recursive.simps seg_Cons)
  next
    case True
    define c where "c = (left + right) div 2"
    have c: "left \<le> c" "c < right" using True by (auto simp: c_def)
    have d: "c - left < right - left" "right - Suc c < right - left" using c by linarith+
    obtain xs arr1 where l: "muggle_merge_sort_recursive cmp left c p arr = Some (put p left xs, arr1)"
      "length arr1 = length arr" "length xs = Suc c - left" "sorted_wrt (\<lambda>x y. cmp x y \<le> 0) xs"
      "mset xs = mset (seg p left (Suc c))"
      "\<And>z. filter (\<lambda>y. cmp z y = 0) xs = filter (\<lambda>y. cmp z y = 0) (seg p left (Suc c))"
      using less.hyps[OF d(1) c(1), of p arr] c less.prems by auto
    have lenp: "length (put p left xs) = length p" using l(3) c less.prems by simp
    have after: "seg (put p left xs) (Suc c) (Suc right) = seg p (Suc c) (Suc right)"
      using l(3) c less.prems by (intro seg_put_after) auto
    obtain ys arr2 where r: "muggle_merge_sort_recursive cmp (Suc c) right (put p left xs) arr1 =
        Some (put (put p left xs) (Suc c) ys, arr2)"
      "length arr2 = length arr" "length ys = right - c" "sorted_wrt (\<lambda>x y. cmp x y \<le> 0) ys"
      "mset ys = mset (seg p (Suc c) (Suc right))"
      "\<And>z. filter (\<lambda>y. cmp z y = 0) ys = filter (\<lambda>y. cmp z y = 0) (seg p (Suc c) (Suc right))"
      using less.hyps[OF d(2), of "put p left xs" arr1] c less.prems l(2) lenp after by auto
    define p2 where "p2 = put p left (xs @ ys)"
    have p2: "put (put p left xs) (Suc c) ys = p2"
      using put_put[of left xs ys p] l(3) r(3) c less.prems by (simp add: p2_def)
    have segs: "seg p2 left (Suc c) = xs" "seg p2 (Suc c) (Suc right) = ys"
      using seg_put_prefix[of left xs ys p] seg_put_suffix[of left xs ys p] l(3) r(3) c less.prems
      by (simp_all add: p2_def)
    have len2: "length p2 = length p" using l(3) r(3) c less.prems by (simp add: p2_def)
    obtain arr3 l1 r1 i1 arr4 i2 arr5 i3 where loops:
      "ms_merge cmp p2 c right left (Suc c) left arr2 = (arr3, l1, r1, i1)"
      "ms_rest p2 c l1 i1 arr3 = (arr4, i2)" "ms_rest p2 right r1 i2 arr4 = (arr5, i3)"
      by (metis prod_cases4 surj_pair)
    have arr5: "arr5 = put arr2 left (mrg cmp xs ys)"
      using ms_merge_eq[OF _ _ _ loops] segs len2 r(2) c less.prems by simp
    have n: "length (mrg cmp xs ys) = Suc right - left" using l(3) r(3) c by (simp add: length_mrg)
    have "seg arr5 left (Suc right) = mrg cmp xs ys"
      using seg_put[of left "mrg cmp xs ys" arr2] arr5 n r(2) less.prems by simp
    then have "fill (\<lambda>i. arr5 ! (left + i)) left (right + 1 - left) p2 = put p left (mrg cmp xs ys)"
      using fill_put[of left "Suc right - left" p2 arr5] len2 arr5 n r(2) l(3) r(3) less.prems c
        put_over[of "xs @ ys" "mrg cmp xs ys" left p] by (simp add: p2_def length_mrg)
    then have "muggle_merge_sort_recursive cmp left right p arr = Some (put p left (mrg cmp xs ys), arr5)"
      using True less.prems l(1) r(1) loops
      by (subst muggle_merge_sort_recursive.simps) (simp add: c_def[symmetric] p2)
    moreover have "seg p left (Suc right) = seg p left (Suc c) @ seg p (Suc c) (Suc right)"
      using c by (intro seg_append[symmetric]) auto
    ultimately show ?thesis
      using n arr5 r l less.prems sorted_mrg[OF l(4) r(4)] stable_mrg[OF l(4), of _ ys]
      by (intro exI[of _ "mrg cmp xs ys"] exI[of _ arr5]) (simp add: mset_mrg)
  qed
qed

end

section \<open>Quick sort\<close>

lemma qs_swap_simps:
  assumes "i < length p" "j < length p"
  shows "length (qs_swap i j p) = length p" "qs_swap i j p ! i = p ! j" "qs_swap i j p ! j = p ! i"
    "k \<noteq> i \<Longrightarrow> k \<noteq> j \<Longrightarrow> qs_swap i j p ! k = p ! k"
  using assms by (auto simp: qs_swap_def nth_list_update)

lemma qs_swap_perm:
  assumes "lo \<le> i" "i < hi" "lo \<le> j" "j < hi" "hi \<le> length p"
  shows "seg_perm p (qs_swap i j p) lo hi"
proof -
  have "mset (p[j := p ! i, i := p ! j]) = mset p" using assms by (intro mset_swap) auto
  then have "mset (qs_swap i j p) = mset p"
    by (cases "i = j") (auto simp: qs_swap_def list_update_swap)
  then show ?thesis using assms by (auto simp: seg_perm_def qs_swap_def)
qed

lemma qs_scan_up_some:
  assumes "i < k" "k < length p" "0 \<le> cmp (p ! k) pivot"
  obtains i' where "qs_scan_up cmp pivot p i = Some i'" "i < i'" "i' \<le> k" "0 \<le> cmp (p ! i') pivot"
    "\<And>m. i < m \<Longrightarrow> m < i' \<Longrightarrow> cmp (p ! m) pivot < 0"
  using assms
proof (induction "k - i" arbitrary: i thesis rule: less_induct)
  case less
  show ?case
  proof (cases "cmp (p ! Suc i) pivot < 0")
    case True
    with less.prems have i: "Suc i < k" by (cases "k = Suc i") auto
    then have "k - Suc i < k - i" by simp
    from less.hyps[OF this _ i less.prems(3,4)] obtain i' where
      r: "qs_scan_up cmp pivot p (Suc i) = Some i'" "Suc i < i'" "i' \<le> k" "0 \<le> cmp (p ! i') pivot"
      "\<And>m. Suc i < m \<Longrightarrow> m < i' \<Longrightarrow> cmp (p ! m) pivot < 0" by blast
    have "cmp (p ! m) pivot < 0" if "i < m" "m < i'" for m
      using that True r(5)[of m] by (cases "m = Suc i") auto
    then show ?thesis using True r less.prems(2,3)
      by (intro less.prems(1)[of i']) (auto simp: qs_scan_up.simps[of _ _ _ i])
  next
    case False
    then show ?thesis using less.prems(2,3)
      by (intro less.prems(1)[of "Suc i"]) (auto simp: qs_scan_up.simps[of _ _ _ i])
  qed
qed

lemma qs_scan_down_some:
  assumes "k < j" "cmp (p ! k) pivot \<le> 0"
  obtains j' where "qs_scan_down cmp pivot p j = Some j'" "j' < j" "k \<le> j'" "cmp (p ! j') pivot \<le> 0"
    "\<And>m. j' < m \<Longrightarrow> m < j \<Longrightarrow> 0 < cmp (p ! m) pivot"
  using assms
proof (induction j arbitrary: thesis)
  case (Suc j)
  show ?case
  proof (cases "cmp (p ! j) pivot > 0")
    case True
    with Suc.prems have "k < j" by (cases "k = j") auto
    from Suc.IH[OF _ this Suc.prems(3)] obtain j' where
      "qs_scan_down cmp pivot p j = Some j'" "j' < j" "k \<le> j'" "cmp (p ! j') pivot \<le> 0"
      "\<And>m. j' < m \<Longrightarrow> m < j \<Longrightarrow> 0 < cmp (p ! m) pivot" by blast
    then show ?thesis using True by (intro Suc.prems(1)[of j']) (auto simp: less_Suc_eq)
  next
    case False
    then show ?thesis using Suc.prems(2) by (intro Suc.prems(1)[of j]) auto
  qed
qed simp

text \<open>\<open>left..i\<close> is not greater than the pivot, \<open>j..right\<close> not less; the loop returns, with both scans
  stopped inside the segment.\<close>

lemma qs_partition_correct:
  assumes "left \<le> i" "i < j" "j \<le> right" "right < length p"
    and "\<And>k. left \<le> k \<Longrightarrow> k \<le> i \<Longrightarrow> cmp (p ! k) pivot \<le> 0"
    and "\<And>k. j \<le> k \<Longrightarrow> k \<le> right \<Longrightarrow> 0 \<le> cmp (p ! k) pivot"
  shows "\<exists>p' i'. qs_partition cmp pivot i j p = Some (p', i') \<and> seg_perm p p' left j \<and>
    left < i' \<and> i' \<le> j \<and>
    (\<forall>k. left \<le> k \<and> k < i' \<longrightarrow> cmp (p' ! k) pivot \<le> 0) \<and>
    (\<forall>k. i' \<le> k \<and> k \<le> right \<longrightarrow> 0 \<le> cmp (p' ! k) pivot)"
  using assms
proof (induction "j - i" arbitrary: i j p rule: less_induct)
  case less
  obtain i' where up: "qs_scan_up cmp pivot p i = Some i'" "i < i'" "i' \<le> j" "0 \<le> cmp (p ! i') pivot"
    "\<And>m. i < m \<Longrightarrow> m < i' \<Longrightarrow> cmp (p ! m) pivot < 0"
    using less.prems by (auto intro: qs_scan_up_some[of i j p cmp pivot])
  obtain j' where down: "qs_scan_down cmp pivot p j = Some j'" "j' < j" "i \<le> j'" "cmp (p ! j') pivot \<le> 0"
    "\<And>m. j' < m \<Longrightarrow> m < j \<Longrightarrow> 0 < cmp (p ! m) pivot"
    using less.prems by (auto intro: qs_scan_down_some[of i j cmp p pivot])
  have below: "cmp (p ! k) pivot \<le> 0" if "left \<le> k" "k < i'" for k
    using that less.prems(5)[of k] up(5)[of k] by (cases "k \<le> i") auto
  have above: "0 \<le> cmp (p ! k) pivot" if "j' < k" "k \<le> right" for k
    using that less.prems(6)[of k] down(5)[of k] by (cases "j \<le> k") auto
  show ?case
  proof (cases "i' < j'")
    case True
    let ?p = "qs_swap i' j' p"
    have b: "i' < length p" "j' < length p" using up(3) down(2) less.prems by auto
    note sw = qs_swap_simps[OF b]
    have "\<exists>p' l. qs_partition cmp pivot i' j' ?p = Some (p', l) \<and> seg_perm ?p p' left j' \<and>
      left < l \<and> l \<le> j' \<and> (\<forall>k. left \<le> k \<and> k < l \<longrightarrow> cmp (p' ! k) pivot \<le> 0) \<and>
      (\<forall>k. l \<le> k \<and> k \<le> right \<longrightarrow> 0 \<le> cmp (p' ! k) pivot)"
    proof (rule less.hyps)
      show "cmp (?p ! k) pivot \<le> 0" if "left \<le> k" "k \<le> i'" for k
        using that True below[of k] down(4) sw by (cases "k = i'") auto
      show "0 \<le> cmp (?p ! k) pivot" if "j' \<le> k" "k \<le> right" for k
        using that True above[of k] up(4) sw by (cases "k = j'") auto
    qed (use True up down less.prems sw(1) in auto)
    then obtain p' l where r: "qs_partition cmp pivot i' j' ?p = Some (p', l)" "seg_perm ?p p' left j'"
      "left < l" "l \<le> j'" "\<forall>k. left \<le> k \<and> k < l \<longrightarrow> cmp (p' ! k) pivot \<le> 0"
      "\<forall>k. l \<le> k \<and> k \<le> right \<longrightarrow> 0 \<le> cmp (p' ! k) pivot" by blast
    have "seg_perm p ?p left j"
      using True up(2) down(2) less.prems by (intro qs_swap_perm) auto
    then have "seg_perm p p' left j"
      using seg_perm_mono[OF r(2), of left j] down(2) seg_perm_trans by (metis less_imp_le order_refl)
    moreover have "qs_partition cmp pivot i j p = Some (p', l)"
      using r(1) True up(1) down(1) by (subst qs_partition.simps) simp
    ultimately show ?thesis using r down(2) by auto
  next
    case False
    then have "qs_partition cmp pivot i j p = Some (p, i')"
      using up(1) down(1) by (subst qs_partition.simps) simp
    moreover have "0 \<le> cmp (p ! k) pivot" if "i' \<le> k" "k \<le> right" for k
      using that up(4) above[of k] False by (cases "k = i'") auto
    ultimately show ?thesis using below up(2,3) less.prems(1) by auto
  qed
qed

context data_cmp
begin

lemma median3_correct:
  assumes lr: "left + 2 \<le> right" "right < length p"
    and run: "muggle_quick_sort_median3 cmp p left right = (pivot, p')"
  shows "seg_perm p p' left (Suc right) \<and> p' ! (right - 1) = pivot \<and> cmp (p' ! left) pivot \<le> 0 \<and>
    cmp pivot (p' ! right) \<le> 0"
proof -
  define c where "c = (left + right) div 2"
  define order where "order = (\<lambda>i j q. if cmp (q ! i) (q ! j) > 0 then qs_swap i j q else q)"
  define p1 where "p1 = order left c p"
  define p2 where "p2 = order left right p1"
  define p3 where "p3 = order c right p2"
  have c: "left < c" "c < right" "c \<le> right - 1" "left < right - 1" using lr by (auto simp: c_def)
  have perm: "seg_perm q (order i j q) left (Suc right)"
    if "left \<le> i" "i \<le> right" "left \<le> j" "j \<le> right" "right < length q" for i j q
    using that qs_swap_perm[of left i "Suc right" j q] by (auto simp: order_def)
  have ord: "cmp (order i j q ! i) (order i j q ! j) \<le> 0" if "i < length q" "j < length q" for i j q
    using that cmp_neg_iff[of "q ! j" "q ! i"] by (auto simp: order_def qs_swap_simps)
  have keep: "order i j q ! k = q ! k" if "i < length q" "j < length q" "k \<noteq> i" "k \<noteq> j" for i j k q
    using that by (simp add: order_def qs_swap_simps)
  have s1: "seg_perm p p1 left (Suc right)" using c lr unfolding p1_def by (intro perm) auto
  note l1 = seg_perm_length[OF s1]
  have s2: "seg_perm p1 p2 left (Suc right)" using c lr l1 unfolding p2_def by (intro perm) auto
  note l2 = seg_perm_length[OF s2]
  have s3: "seg_perm p2 p3 left (Suc right)" using c lr l1 l2 unfolding p3_def by (intro perm) auto
  note l3 = seg_perm_length[OF s3]
  have o1: "cmp (p1 ! left) (p1 ! c) \<le> 0" using c lr unfolding p1_def by (intro ord) auto
  have o2: "cmp (p2 ! left) (p2 ! right) \<le> 0" using c lr l1 unfolding p2_def by (intro ord) auto
  have "p2 ! c = p1 ! c" using c lr l1 unfolding p2_def by (intro keep) auto
  moreover have "cmp (p2 ! left) (p1 ! left) \<le> 0"
    using c lr l1 cmp_neg_iff[of "p1 ! right" "p1 ! left"] by (auto simp: p2_def order_def qs_swap_simps)
  ultimately have o2c: "cmp (p2 ! left) (p2 ! c) \<le> 0" using o1 cmp_trans by metis
  have o3: "cmp (p3 ! c) (p3 ! right) \<le> 0" using c lr l1 l2 unfolding p3_def by (intro ord) auto
  have "p3 ! left = p2 ! left" using c lr l1 l2 unfolding p3_def by (intro keep) auto
  moreover have "p3 ! c = p2 ! c \<or> p3 ! c = p2 ! right"
    using c lr l1 l2 by (auto simp: p3_def order_def qs_swap_simps)
  ultimately have o3l: "cmp (p3 ! left) (p3 ! c) \<le> 0" using o2 o2c by auto
  have p': "p' = qs_swap c (right - 1) p3" "pivot = p' ! (right - 1)"
    using run by (auto simp: muggle_quick_sort_median3_def Let_def p3_def p2_def p1_def order_def c_def)
  have b: "c < length p3" "right - 1 < length p3" using c lr l1 l2 l3 by auto
  have "seg_perm p3 p' left (Suc right)"
    using c lr l1 l2 l3 unfolding p'(1) by (intro qs_swap_perm) auto
  then have "seg_perm p p' left (Suc right)" using s1 s2 s3 seg_perm_trans by metis
  moreover have "p' ! left = p3 ! left" "p' ! right = p3 ! right" "p' ! (right - 1) = p3 ! c"
    using c qs_swap_simps[OF b] by (auto simp: p'(1))
  ultimately show ?thesis using o3 o3l p'(2) by simp
qed

text \<open>Both recursive calls sort their part, and the pivot separates the parts.\<close>

lemma seg_sorted_join:
  assumes "seg_sorted cmp p left i" "seg_sorted cmp p (Suc i) (Suc right)"
    and "\<And>k. left \<le> k \<Longrightarrow> k < i \<Longrightarrow> cmp (p ! k) (p ! i) \<le> 0"
    and "\<And>k. i < k \<Longrightarrow> k \<le> right \<Longrightarrow> cmp (p ! i) (p ! k) \<le> 0"
  shows "seg_sorted cmp p left (Suc right)"
  unfolding seg_sorted_def
proof (intro allI impI)
  fix a b assume ab: "left \<le> a \<and> a < b \<and> b < Suc right"
  consider "b < i" | "i < a" | "a = i" | "b = i" | "a < i" "i < b" by linarith
  then show "cmp (p ! a) (p ! b) \<le> 0"
  proof cases
    case 5
    then show ?thesis using ab assms(3)[of a] assms(4)[of b] cmp_trans[of "p ! a" "p ! i" "p ! b"] by auto
  qed (use ab assms in \<open>auto simp: seg_sorted_def\<close>)
qed

lemma seg_sorted_cong:
  "(\<And>k. lo \<le> k \<Longrightarrow> k < hi \<Longrightarrow> p ! k = q ! k) \<Longrightarrow> seg_sorted cmp p lo hi = seg_sorted cmp q lo hi"
  by (auto simp: seg_sorted_def)

lemma at_offset_insertion:
  assumes "left \<le> right" "right < length p"
  defines "p' \<equiv> at_offset left (\<lambda>p. snd (muggle_insertion_sort p (right + 1 - left) cmp)) p"
  shows "seg_perm p p' left (Suc right) \<and> seg_sorted cmp p' left (Suc right)"
proof -
  let ?q = "is_outer cmp (Suc right - left) 1 (drop left p)"
  have n: "Suc right - left \<le> length (drop left p)" using assms by simp
  note q = insertion_sort_correct[OF n]
  have len: "length ?q = length p - left" using seg_perm_length[OF q(1)] by simp
  have p': "p' = take left p @ ?q" by (simp add: p'_def at_offset_def muggle_insertion_sort_def)
  have "mset p' = mset (take left p @ drop left p)"
    using q(1) by (simp only: p' mset_append seg_perm_def)
  moreover have "p' ! k = p ! k" if "k < left \<or> Suc right \<le> k" for k
  proof (cases "k < left")
    case False
    then have "?q ! (k - left) = drop left p ! (k - left)"
      using that q(1) assms(1) by (auto simp: seg_perm_def)
    then show ?thesis using False assms(1,2) by (simp add: p' nth_append)
  qed (use assms(1,2) in \<open>simp add: p' nth_append\<close>)
  moreover have "cmp (p' ! a) (p' ! b) \<le> 0" if "left \<le> a" "a < b" "b < Suc right" for a b
  proof -
    have "a - left < b - left" "b - left < Suc right - left" using that by auto
    with q(2) have "cmp (?q ! (a - left)) (?q ! (b - left)) \<le> 0" by (auto simp: seg_sorted_def)
    then show ?thesis using that assms(1,2) by (simp add: p' nth_append)
  qed
  ultimately show ?thesis by (simp add: seg_perm_def seg_sorted_def)
qed

lemma qs_split:
  assumes "left + 2 \<le> right" "right < length p"
  obtains pivot p1 p2 i where "muggle_quick_sort_median3 cmp p left right = (pivot, p1)"
    "qs_partition cmp pivot left (right - 1) p1 = Some (p2, i)" "left < i" "i \<le> right - 1"
    "seg_perm p (qs_swap i (right - 1) p2) left (Suc right)" "qs_swap i (right - 1) p2 ! i = pivot"
    "\<And>k. left \<le> k \<Longrightarrow> k < i \<Longrightarrow> cmp (qs_swap i (right - 1) p2 ! k) pivot \<le> 0"
    "\<And>k. i < k \<Longrightarrow> k \<le> right \<Longrightarrow> cmp pivot (qs_swap i (right - 1) p2 ! k) \<le> 0"
proof -
  obtain pivot p1 where m: "muggle_quick_sort_median3 cmp p left right = (pivot, p1)" by fastforce
  have m1: "seg_perm p p1 left (Suc right)" "p1 ! (right - 1) = pivot" "cmp (p1 ! left) pivot \<le> 0"
    "0 \<le> cmp (p1 ! right) pivot"
    using median3_correct[OF assms m] by (simp_all add: cmp_ge_iff)
  have len1: "length p1 = length p" by (rule seg_perm_length[OF m1(1)])
  have r1: "left < right - 1" using assms(1) by linarith
  have lo: "cmp (p1 ! k) pivot \<le> 0" if "left \<le> k" "k \<le> left" for k using that m1 by (metis le_antisym)
  have hi: "0 \<le> cmp (p1 ! k) pivot" if "right - 1 \<le> k" "k \<le> right" for k
  proof -
    have "k = right \<or> k = right - 1" using that by linarith
    then show ?thesis using m1(2,4) by auto
  qed
  obtain p2 i where part: "qs_partition cmp pivot left (right - 1) p1 = Some (p2, i)"
    "seg_perm p1 p2 left (right - 1)" "left < i" "i \<le> right - 1"
    "\<And>k. left \<le> k \<Longrightarrow> k < i \<Longrightarrow> cmp (p2 ! k) pivot \<le> 0"
    "\<And>k. i \<le> k \<Longrightarrow> k \<le> right \<Longrightarrow> 0 \<le> cmp (p2 ! k) pivot"
    using qs_partition_correct[of left left "right - 1" right p1 cmp pivot] r1 lo hi assms(2) len1 by auto
  have len2: "length p2 = length p" using seg_perm_length[OF part(2)] len1 by simp
  have b: "i < length p2" "right - 1 < length p2" using part(4) assms len2 by auto
  note sw = qs_swap_simps[OF b]
  have "p2 ! (right - 1) = pivot" using part(2) m1(2) by (simp add: seg_perm_def)
  then have "qs_swap i (right - 1) p2 ! i = pivot" using sw(2) by simp
  moreover have "cmp (qs_swap i (right - 1) p2 ! k) pivot \<le> 0" if "left \<le> k" "k < i" for k
    using that part(4,5) sw(4)[of k] by auto
  moreover have "cmp pivot (qs_swap i (right - 1) p2 ! k) \<le> 0" if "i < k" "k \<le> right" for k
    using that part(6)[of k] part(6)[of i] part(4) sw(3) sw(4)[of k]
    by (cases "k = right - 1") (auto simp: cmp_ge_iff)
  moreover have "seg_perm p (qs_swap i (right - 1) p2) left (Suc right)"
  proof -
    have "seg_perm p2 (qs_swap i (right - 1) p2) left (Suc right)"
      using part(3,4) assms len2 by (intro qs_swap_perm) auto
    moreover have "seg_perm p1 p2 left (Suc right)" using part(2) by (rule seg_perm_mono) auto
    ultimately show ?thesis using m1(1) seg_perm_trans by metis
  qed
  ultimately show ?thesis using that m part(1,3,4) by blast
qed

text \<open>Sorting both sides of the pivot sorts the segment.\<close>

lemma qs_join:
  assumes i: "left < i" "i < right" "right < length p"
    and lo: "\<And>k. left \<le> k \<Longrightarrow> k < i \<Longrightarrow> cmp (p ! k) (p ! i) \<le> 0"
    and hi: "\<And>k. i < k \<Longrightarrow> k \<le> right \<Longrightarrow> cmp (p ! i) (p ! k) \<le> 0"
    and q: "seg_perm p q left i" "seg_sorted cmp q left i"
    and r: "seg_perm q r (Suc i) (Suc right)" "seg_sorted cmp r (Suc i) (Suc right)"
  shows "seg_perm p r left (Suc right) \<and> seg_sorted cmp r left (Suc right)"
proof
  have "seg_perm p q left (Suc right)" using q(1) by (rule seg_perm_mono) (use i in auto)
  moreover have "seg_perm q r left (Suc right)" using r(1) by (rule seg_perm_mono) (use i in auto)
  ultimately show "seg_perm p r left (Suc right)" by (rule seg_perm_trans)
  have same: "r ! k = q ! k" if "k \<le> i" for k using that r(1) by (simp add: seg_perm_def)
  have pivot: "r ! i = p ! i" using same[of i] q(1) by (simp add: seg_perm_def)
  show "seg_sorted cmp r left (Suc right)"
  proof (rule seg_sorted_join[OF _ r(2)])
    show "seg_sorted cmp r left i" using q(2) seg_sorted_cong[of left i r q] same by simp
    show "cmp (r ! k) (r ! i) \<le> 0" if k: "left \<le> k" "k < i" for k
    proof -
      obtain j where "left \<le> j" "j < i" "q ! k = p ! j" using seg_perm_nth[OF q(1) k] i by auto
      then show ?thesis using lo[of j] pivot same[of k] k by simp
    qed
    show "cmp (r ! i) (r ! k) \<le> 0" if k: "i < k" "k \<le> right" for k
    proof -
      obtain j where j: "Suc i \<le> j" "j < Suc right" "r ! k = q ! j"
        using seg_perm_nth[OF r(1), of k] k i seg_perm_length[OF q(1)] by auto
      have "q ! j = p ! j" using q(1) j by (simp add: seg_perm_def)
      then show ?thesis using j hi[of j] pivot by simp
    qed
  qed
qed

lemma quick_sort_recursive_correct:
  assumes "left \<le> right" "right < length p"
  shows "\<exists>p'. muggle_quick_sort_recursive cmp left right p = Some p' \<and>
    seg_perm p p' left (Suc right) \<and> seg_sorted cmp p' left (Suc right)"
  using assms
proof (induction "right - left" arbitrary: left right p rule: less_induct)
  case less
  show ?case
  proof (cases "left + QUICK_SORT_CUTOFF \<le> right")
    case False
    then have "muggle_quick_sort_recursive cmp left right p =
        Some (at_offset left (\<lambda>p. snd (muggle_insertion_sort p (right + 1 - left) cmp)) p)"
      using less.prems by (subst muggle_quick_sort_recursive.simps) simp
    then show ?thesis using at_offset_insertion[OF less.prems] by simp
  next
    case True
    then have lr: "left + 2 \<le> right" by (simp add: QUICK_SORT_CUTOFF_def)
    obtain pivot p1 p2 i where s: "muggle_quick_sort_median3 cmp p left right = (pivot, p1)"
      "qs_partition cmp pivot left (right - 1) p1 = Some (p2, i)" "left < i" "i \<le> right - 1"
      "seg_perm p (qs_swap i (right - 1) p2) left (Suc right)" "qs_swap i (right - 1) p2 ! i = pivot"
      "\<And>k. left \<le> k \<Longrightarrow> k < i \<Longrightarrow> cmp (qs_swap i (right - 1) p2 ! k) pivot \<le> 0"
      "\<And>k. i < k \<Longrightarrow> k \<le> right \<Longrightarrow> cmp pivot (qs_swap i (right - 1) p2 ! k) \<le> 0"
      using qs_split[OF lr less.prems(2)] by blast
    define p3 where "p3 = qs_swap i (right - 1) p2"
    note s = s[folded p3_def]
    have i: "i < right" using s(4) lr by simp
    have len3: "right < length p3" using seg_perm_length[OF s(5)] less.prems by simp
    have d: "i - 1 - left < right - left" "right - (i + 1) < right - left" using s(3,4) lr by linarith+
    have i1: "left \<le> i - 1" "i - 1 < length p3" using s(3) i len3 by linarith+
    obtain p4 where r4: "muggle_quick_sort_recursive cmp left (i - 1) p3 = Some p4"
      "seg_perm p3 p4 left i" "seg_sorted cmp p4 left i"
      using less.hyps[OF d(1) i1] s(3) by auto
    obtain p5 where r5: "muggle_quick_sort_recursive cmp (i + 1) right p4 = Some p5"
      "seg_perm p4 p5 (Suc i) (Suc right)" "seg_sorted cmp p5 (Suc i) (Suc right)"
      using less.hyps[OF d(2), of p4] i seg_perm_length[OF r4(2)] len3 by auto
    have "seg_perm p3 p5 left (Suc right) \<and> seg_sorted cmp p5 left (Suc right)"
      using s(6-8) by (intro qs_join[OF s(3) i len3 _ _ r4(2,3) r5(2,3)]) auto
    moreover have "muggle_quick_sort_recursive cmp left right p = Some p5"
      using True s(1,2) r4(1)[unfolded p3_def] r5(1) less.prems
      by (subst muggle_quick_sort_recursive.simps) simp
    ultimately show ?thesis using seg_perm_trans[OF s(5)] by auto
  qed
qed

end

section \<open>Properties\<close>

definition sort_demo :: "int ptr list" where
  "sort_demo = [Some 7, None, Some 5, Some 6]"

text \<open>C10. Insertion sort and Shell sort sort the first \<open>cnt\<close> pointers of the array: under a compare
  callback that is a total preorder, these are sorted and a permutation of what they were, and the
  rest of the array is unchanged. Both return true.\<close>

theorem insertion_shell_sort_sorts:
  assumes cmp: "data_cmp cmp" and cnt: "cnt \<le> length p"
  shows "fst (muggle_insertion_sort p cnt cmp) \<and> sorts cmp p cnt (snd (muggle_insertion_sort p cnt cmp)) \<and>
    fst (muggle_shell_sort p cnt cmp) \<and> sorts cmp p cnt (snd (muggle_shell_sort p cnt cmp))"
proof -
  have "sorts cmp p cnt (is_outer cmp cnt 1 p)"
    using cnt data_cmp.insertion_sort_correct[OF cmp cnt] by (intro sorts_iff)
  moreover have "sorts cmp p cnt (sh_outer cmp cnt (cnt div 2) p)"
  proof (cases "cnt div 2 = 0")
    case True
    then have "seg_sorted cmp p 0 cnt" by (auto simp: seg_sorted_def)
    then show ?thesis using True cnt by (simp add: sh_outer.simps sorts_iff)
  next
    case False
    then show ?thesis using cnt data_cmp.sh_outer_correct[OF cmp cnt] by (auto intro: sorts_iff)
  qed
  ultimately show ?thesis by (simp add: muggle_insertion_sort_def muggle_shell_sort_def)
qed

theorem insertion_shell_sort_sorts_witness:
  "sorts ex_cmp sort_demo 3 (snd (muggle_shell_sort sort_demo 3 ex_cmp))"
  using insertion_shell_sort_sorts[OF data_cmp_ex_cmp, of 3 sort_demo] by (simp add: sort_demo_def)

text \<open>C11. Heap sort sorts the first \<open>cnt\<close> pointers (for counts below \<open>2 ^ 32 - 1\<close>): it returns
  false, with the array unchanged, exactly when the allocation of the heap fails; the insertions
  never need to grow the heap, so that no allocation after the first one matters.\<close>

theorem heap_sort_sorts:
  assumes cmp: "data_cmp cmp" and cnt: "cnt \<le> length p" "cnt < 2 ^ 32 - 1"
    and run: "muggle_heap_sort m grow junk node p cnt cmp = (ok, p')"
  shows "(ok \<longleftrightarrow> m \<noteq> None) \<and> (if ok then sorts cmp p cnt p' else p' = p)"
proof (cases m)
  case None
  then show ?thesis using run cnt
    by (auto simp: muggle_heap_sort_def muggle_heap_init_def ds_cap_is_valid_iff)
next
  case (Some f)
  define h0 where "h0 = \<lparr>hp_capacity = cnt + 1, hp_size = 0, hp_nodes = map f [0..<cnt + 2], hp_cmp = cmp\<rparr>"
  define h1 where "h1 = hs_insert_all grow p 0 cnt h0"
  have init: "muggle_heap_init m junk (Some cmp) (u32 (u32 cnt + 1)) = (True, h0)"
    using Some cnt by (simp add: muggle_heap_init_def ds_cap_is_valid_iff h0_def)
  have h0: "hp_inv h0" "hp_bag h0 = {#}"
    by (simp_all add: h0_def hp_inv_def hp_wf_def hp_ordered_def hp_bag_def hp_items_def)
  have h1: "hp_inv h1" "hp_cmp h1 = cmp" "hp_bag h1 = mset (map (\<lambda>k. (k, None)) (take cnt p))"
    using hs_insert_all_bag[OF cmp h0(1), of cnt 0 p grow] cnt h0(2) by (simp_all add: h1_def h0_def)
  have "hp_size h1 = cnt" using hp_size_bag[OF h1(1)] h1(3) cnt by simp
  moreover obtain h2 p2 where ex: "hs_extract_all 0 cnt h1 node p = (h2, p2)" by fastforce
  ultimately have post: "length p2 = length p" "\<forall>k. cnt \<le> k \<longrightarrow> p2 ! k = p ! k"
    "mset (take cnt p2) = image_mset fst (hp_bag h1)" "seg_sorted cmp p2 0 cnt"
    using hs_extract_all_sorts[OF cmp h1(1,2) _ _ ex] cnt by auto
  have "drop cnt p2 = drop cnt p" using post(1,2) by (auto intro: nth_equalityI)
  moreover have "mset (take cnt p2) = mset (take cnt p)" using post(3) h1(3) by (simp add: multiset.map_comp comp_def)
  ultimately have "sorts cmp p cnt p2"
    using post(1,4) cnt by (auto simp: sorts_def seg_sorted_def sorted_wrt_iff_nth_less)
  moreover have "ok" "p' = p2" using run init ex by (simp_all add: muggle_heap_sort_def h1_def)
  ultimately show ?thesis using Some by simp
qed

theorem heap_sort_sorts_witness:
  "sorts ex_cmp sort_demo 3
     (snd (muggle_heap_sort (Some (\<lambda>_. (None, None))) (\<lambda>_. None) (hp_demo :: (int, int) heap) (None, None)
        sort_demo 3 ex_cmp))"
  using heap_sort_sorts[OF data_cmp_ex_cmp _ _ prod.collapse[symmetric], of 3 sort_demo
      "Some (\<lambda>_. (None, None))" "\<lambda>_. None" "hp_demo :: (int, int) heap" "(None, None)"]
  by (simp add: sort_demo_def split: if_splits)

text \<open>C12. Merge sort of a nonempty array returns, inside the bounds of both arrays; it returns
  false, with the array unchanged, exactly when the allocation of the second array fails, and otherwise
  sorts the first \<open>cnt\<close> pointers. The sort is stable: pointers that compare equal keep their order.\<close>

theorem merge_sort_sorts:
  assumes cmp: "data_cmp cmp" and cnt: "0 < cnt" "cnt \<le> length p" "cnt < 2 ^ 61"
  shows "\<exists>ok p'. muggle_merge_sort m p cnt cmp = Some (ok, p') \<and> (ok \<longleftrightarrow> m \<noteq> None) \<and>
    (if ok then sorts cmp p cnt p' \<and>
       (\<forall>z. filter (\<lambda>y. cmp z y = 0) (take cnt p') = filter (\<lambda>y. cmp z y = 0) (take cnt p))
     else p' = p)"
proof (cases m)
  case None
  then show ?thesis by (auto simp: muggle_merge_sort_def)
next
  case (Some f)
  have "0 \<le> cnt - 1" "cnt - 1 < length p" "cnt - 1 < length (map f [0..<cnt])" using cnt by auto
  from data_cmp.merge_sort_recursive_correct[OF cmp this] obtain ys arr where
    r: "muggle_merge_sort_recursive cmp 0 (cnt - 1) p (map f [0..<cnt]) = Some (put p 0 ys, arr)"
      "length ys = cnt" "sorted_wrt (\<lambda>x y. cmp x y \<le> 0) ys" "mset ys = mset (seg p 0 cnt)"
      "\<And>z. filter (\<lambda>y. cmp z y = 0) ys = filter (\<lambda>y. cmp z y = 0) (seg p 0 cnt)"
    using cnt(1) by auto
  have "to_u64 (int cnt - 1) = cnt - 1" using cnt by (simp add: nat_diff_distrib)
  then have "muggle_merge_sort m p cnt cmp = Some (True, put p 0 ys)"
    using Some r(1) cnt by (simp add: muggle_merge_sort_def)
  then show ?thesis using r(2-) Some by (auto simp: sorts_def put_def seg_def)
qed

theorem merge_sort_sorts_witness:
  "\<exists>p'. muggle_merge_sort (Some (\<lambda>_. None)) sort_demo 4 ex_cmp = Some (True, p') \<and>
     sorts ex_cmp sort_demo 4 p'"
  using merge_sort_sorts[OF data_cmp_ex_cmp, of 4 sort_demo "Some (\<lambda>_. None)"]
  by (auto simp: sort_demo_def split: if_splits)

text \<open>C13. Quick sort of a nonempty array returns: the two scans of each partition stop inside the
  segment, so that no access leaves the array, and both recursive calls are on shorter segments. It
  sorts the first \<open>cnt\<close> pointers.\<close>

theorem quick_sort_sorts:
  assumes cmp: "data_cmp cmp" and cnt: "0 < cnt" "cnt \<le> length p" "cnt < 2 ^ 64"
  shows "\<exists>p'. muggle_quick_sort p cnt cmp = Some (True, p') \<and> sorts cmp p cnt p'"
proof -
  have "0 \<le> cnt - 1" "cnt - 1 < length p" using cnt by auto
  from data_cmp.quick_sort_recursive_correct[OF cmp this] obtain p' where
    r: "muggle_quick_sort_recursive cmp 0 (cnt - 1) p = Some p'" "seg_perm p p' 0 cnt" "seg_sorted cmp p' 0 cnt"
    using cnt(1) by auto
  have "to_u64 (int cnt - 1) = cnt - 1" using cnt by (simp add: nat_diff_distrib)
  then show ?thesis using r sorts_iff[OF cnt(2) r(2,3)] by (simp add: muggle_quick_sort_def)
qed

theorem quick_sort_sorts_witness:
  "\<exists>p'. muggle_quick_sort sort_demo 4 ex_cmp = Some (True, p') \<and> sorts ex_cmp sort_demo 4 p'"
  using quick_sort_sorts[OF data_cmp_ex_cmp, of 4 sort_demo] by (simp add: sort_demo_def)

text \<open>With a count of zero both recursive sorts run from \<open>0\<close> to \<open>SIZE_MAX\<close> and leave the array.\<close>

lemma empty_sort_out_of_bounds:
  assumes "length p < 2 ^ 64"
  shows "muggle_quick_sort p 0 cmp = None" "muggle_merge_sort (Some f) p 0 cmp = None"
proof -
  have u: "to_u64 (int 0 - 1) = 2 ^ 64 - 1" by (simp add: to_u64_def)
  show "muggle_quick_sort p 0 cmp = None"
    using assms unfolding muggle_quick_sort_def u by (subst muggle_quick_sort_recursive.simps) simp
  show "muggle_merge_sort (Some f) p 0 cmp = None"
    using assms unfolding muggle_merge_sort_def u by (subst muggle_merge_sort_recursive.simps) simp
qed

end
