(* ===== verification/Node_Alloc.thy ===== *)
theory Node_Alloc
  imports Memory_Pool Dsaa_Utils
begin

text \<open>
  How the linked data structures obtain their nodes: from a memory pool when they were initialised
  with a capacity, from \<^verbatim>\<open>malloc\<close> otherwise. Linked list, queue, hash table, AVL tree and trie
  share this code pattern. The locale \<open>node_source\<close> states what they rely on: a node obtained is
  not one in use. It is interpreted on the pool.
\<close>

section \<open>Nodes from a pool or from malloc\<close>

text \<open>The address of a node: a block of the pool, or an allocation of its own.\<close>

datatype node_addr = PoolBlk mp_addr | Malloced nat

text \<open>The outcomes of the allocations of one call: those of a pool that grows, and that of
  \<^verbatim>\<open>malloc\<close> for a node.\<close>

record node_env =
  ne_mallocs :: mp_mallocs
  ne_malloc :: "nat ptr"

definition node_alloc :: "node_env \<Rightarrow> memory_pool ptr \<Rightarrow> node_addr ptr \<times> memory_pool ptr" where
  "node_alloc e pool =
    (case pool of
       Some p \<Rightarrow> (let (r, p) = muggle_memory_pool_alloc (ne_mallocs e) p in (map_option PoolBlk r, Some p))
     | None \<Rightarrow> (map_option Malloced (ne_malloc e), None))"

text \<open>A node goes back to where it came from; \<^verbatim>\<open>free\<close> leaves nothing to record.\<close>

fun node_free :: "memory_pool ptr \<Rightarrow> node_addr \<Rightarrow> memory_pool ptr" where
  "node_free (Some p) (PoolBlk a) = Some (muggle_memory_pool_free p a)"
| "node_free (Some p) (Malloced a) = Some p"
| "node_free None a = None"

text \<open>Releasing the key or the value of a node: the callback, when there is one, sees it unless it is NULL.\<close>

definition release_data :: "bool \<Rightarrow> 'x ptr \<Rightarrow> 'x ptr list" where
  "release_data func_free p = (if p \<noteq> None \<and> func_free then [p] else [])"

text \<open>The pool part of the initialisations: \<open>pool_mem\<close> tells whether the pool structure could be
  allocated; the result is \<open>None\<close> when the initialisation fails.\<close>

definition node_pool_init :: "bool \<Rightarrow> mp_mallocs \<Rightarrow> nat \<Rightarrow> nat \<Rightarrow> memory_pool ptr option" where
  "node_pool_init pool_mem m capacity node_size =
    (if capacity > 0 then
       (if \<not> MUGGLE_DS_CAP_IS_VALID capacity then None
        else if \<not> pool_mem then None
        else case muggle_memory_pool_init m (u32 capacity) node_size of
          (ok, p) \<Rightarrow> if ok then Some (Some p) else None)
     else Some None)"

section \<open>The contract\<close>

text \<open>\<open>ok s L\<close>: the source is in state \<open>s\<close> and the nodes \<open>L\<close> are in use; \<open>good e s L\<close>: the
  allocations of \<open>e\<close> behave as \<^verbatim>\<open>malloc\<close> is documented to, and sizes stay in range.\<close>

locale node_source =
  fixes alloc :: "'e \<Rightarrow> 's \<Rightarrow> 'n ptr \<times> 's" and release :: "'s \<Rightarrow> 'n \<Rightarrow> 's"
    and ok :: "'s \<Rightarrow> 'n set \<Rightarrow> bool" and good :: "'e \<Rightarrow> 's \<Rightarrow> 'n set \<Rightarrow> bool"
  assumes alloc_some: "ok s L \<Longrightarrow> good e s L \<Longrightarrow> alloc e s = (Some a, s') \<Longrightarrow> a \<notin> L \<and> ok s' (insert a L)"
    and alloc_none: "ok s L \<Longrightarrow> alloc e s = (None, s') \<Longrightarrow> s' = s"
    and release_ok: "ok s L \<Longrightarrow> a \<in> L \<Longrightarrow> ok (release s a) (L - {a})"
begin

text \<open>Releasing all of a list of distinct nodes.\<close>

lemma release_all: "ok s L \<Longrightarrow> distinct as \<Longrightarrow> set as \<subseteq> L \<Longrightarrow> ok (fold (\<lambda>a s. release s a) as s) (L - set as)"
proof (induction as arbitrary: s L)
  case (Cons a as)
  then have "ok (fold (\<lambda>a s. release s a) as (release s a)) (L - {a} - set as)"
    by (intro Cons.IH release_ok) auto
  then show ?case by (simp add: Diff_insert2[symmetric])
qed simp

lemma reuse:
  assumes "ok s L" "a \<in> L" "good e (release s a) (L - {a})" "alloc e (release s a) = (Some b, s')"
  shows "b \<notin> L - {a} \<and> ok s' (insert b (L - {a}))"
  using assms release_ok alloc_some by blast

end

definition node_ok :: "memory_pool ptr \<Rightarrow> node_addr set \<Rightarrow> bool" where
  "node_ok pool L \<longleftrightarrow>
    (case pool of
       None \<Rightarrow> L \<subseteq> range Malloced
     | Some p \<Rightarrow> \<exists>out. mp_reach p out \<and> L = PoolBlk ` out)"

definition node_good :: "node_env \<Rightarrow> memory_pool ptr \<Rightarrow> node_addr set \<Rightarrow> bool" where
  "node_good e pool L \<longleftrightarrow>
    (case pool of
       None \<Rightarrow> (\<forall>a. ne_malloc e = Some a \<longrightarrow> Malloced a \<notin> L)
     | Some p \<Rightarrow> mp_alloc_fits p)"

interpretation nodes: node_source node_alloc node_free node_ok node_good
proof unfold_locales
  fix s s' L e a
  show "a \<notin> L \<and> node_ok s' (insert a L)"
    if "node_ok s L" "node_good e s L" "node_alloc e s = (Some a, s')"
  proof (cases s)
    case None
    with that show ?thesis by (auto simp: node_ok_def node_good_def node_alloc_def)
  next
    case (Some p)
    with that(1) obtain out where out: "mp_reach p out" "L = PoolBlk ` out" by (auto simp: node_ok_def)
    from that(3) Some obtain b p' where b: "muggle_memory_pool_alloc (ne_mallocs e) p = (Some b, p')"
      "a = PoolBlk b" "s' = Some p'" by (auto simp: node_alloc_def split: prod.splits)
    have fits: "mp_alloc_fits p" using that(2) Some by (simp add: node_good_def)
    have "b \<notin> out" using mp_inv_alloc(2)[OF mp_inv_reach[OF out(1)] fits b(1)] .
    moreover have "mp_reach p' (insert b out)" using out(1) fits b(1) by (rule mp_reach.alloc)
    ultimately show ?thesis using out(2) b(2,3) by (auto simp: node_ok_def)
  qed
  show "s' = s" if "node_ok s L" "node_alloc e s = (None, s')"
    using that mp_alloc_null(1) by (auto simp: node_alloc_def split: option.splits prod.splits)
  show "node_ok (node_free s a) (L - {a})" if "node_ok s L" "a \<in> L"
  proof (cases s)
    case None
    with that show ?thesis by (auto simp: node_ok_def)
  next
    case (Some p)
    with that obtain out b where "mp_reach p out" "L = PoolBlk ` out" "a = PoolBlk b" "b \<in> out"
      by (auto simp: node_ok_def)
    moreover from this have "mp_reach (muggle_memory_pool_free p b) (out - {b})" by (intro mp_reach.free)
    ultimately show ?thesis using Some by (auto simp: node_ok_def intro!: exI[of _ "out - {b}"])
  qed
qed

lemma node_pool_init_ok:
  assumes "node_pool_init pool_mem m capacity node_size = Some pool"
    and "\<And>p. pool = Some p \<Longrightarrow> mp_fits node_size (mp_capacity p)"
  shows "node_ok pool {}"
proof (cases "capacity > 0")
  case True
  then obtain p where "muggle_memory_pool_init m (u32 capacity) node_size = (True, p)" "pool = Some p"
    using assms(1) by (auto simp: node_pool_init_def split: if_splits prod.splits)
  then show ?thesis using assms(2) mp_reach.init by (auto simp: node_ok_def)
qed (use assms(1) in \<open>auto simp: node_pool_init_def node_ok_def\<close>)

section \<open>Doubly linked chains\<close>

text \<open>Neighbours of the sequence point at each other through their \<open>next\<close> and \<open>prev\<close> pointers.\<close>

definition links :: "('r \<Rightarrow> 'r ptr) \<Rightarrow> ('r \<Rightarrow> 'r ptr) \<Rightarrow> 'r list \<Rightarrow> bool" where
  "links nxt prv rs \<longleftrightarrow> successively (\<lambda>a b. nxt a = Some b \<and> prv b = Some a) rs"

lemma links_single [simp]: "links nxt prv []" "links nxt prv [a]"
  by (simp_all add: links_def)

lemma links_Cons2: "links nxt prv (a # b # rs) \<longleftrightarrow> nxt a = Some b \<and> prv b = Some a \<and> links nxt prv (b # rs)"
  by (simp add: links_def)

lemma links_append: "links nxt prv (us @ a # b # vs) \<longleftrightarrow>
    links nxt prv (us @ [a]) \<and> nxt a = Some b \<and> prv b = Some a \<and> links nxt prv (b # vs)"
  by (auto simp: links_def successively_append_iff)

text \<open>A write outside the links of a chain keeps it.\<close>

lemma links_cong:
  assumes "links nxt prv rs" "\<And>a. a \<in> set (butlast rs) \<Longrightarrow> nxt' a = nxt a"
    "\<And>a. a \<in> set (tl rs) \<Longrightarrow> prv' a = prv a"
  shows "links nxt' prv' rs"
  using assms
proof (induction rs)
  case (Cons a rs)
  then show ?case by (cases rs; cases "tl rs") (auto simp: links_def)
qed (simp add: links_def)

lemma set_tlD: "x \<in> set (tl xs) \<Longrightarrow> x \<in> set xs"
  by (cases xs) auto

lemma links_link:
  assumes "links nxt prv (us @ a # b # vs)" "distinct (us @ a # b # vs)" "n \<notin> set (us @ a # b # vs)"
    and new: "\<And>x. nxt' x = (if x = a then Some n else if x = n then Some b else nxt x)"
      "\<And>x. prv' x = (if x = n then Some a else if x = b then Some n else prv x)"
  shows "links nxt' prv' (us @ a # n # b # vs)"
proof -
  have "links nxt prv (us @ [a])" "links nxt prv (b # vs)" using assms(1) by (simp_all add: links_append)
  then have "links nxt' prv' (us @ [a])" "links nxt' prv' (b # vs)"
    using assms(2,3)
    by (auto intro!: links_cong[of nxt prv] simp: new butlast_append dest: in_set_butlastD set_tlD split: if_splits)
  then show ?thesis using assms(2,3) by (auto simp: links_append links_Cons2 new)
qed

lemma links_unlink:
  assumes "links nxt prv (us @ a # n # b # vs)" "distinct (us @ a # n # b # vs)"
    and new: "\<And>x. nxt' x = (if x = a then Some b else nxt x)" "\<And>x. prv' x = (if x = b then Some a else prv x)"
  shows "links nxt' prv' (us @ a # b # vs)"
proof -
  have "links nxt prv (us @ [a])" "links nxt prv (b # vs)" using assms(1) by (simp_all add: links_append links_Cons2)
  then have "links nxt' prv' (us @ [a])" "links nxt' prv' (b # vs)"
    using assms(2)
    by (auto intro!: links_cong[of nxt prv] simp: new butlast_append dest: in_set_butlastD set_tlD split: if_splits)
  then show ?thesis by (auto simp: links_append new)
qed

end
