(* ===== verification/Linked_List.thy ===== *)
theory Linked_List
  imports Node_Alloc
begin

text \<open>
  The doubly linked list (\<^verbatim>\<open>muggle/c/dsaa/linked_list.c\<close>, \<^verbatim>\<open>linked_list.h\<close>) at the level of its
  pointers: a store maps each node, and the two sentinels inside the list structure, to its \<open>prev\<close>,
  \<open>next\<close> and \<open>data\<close>. The operations follow and write these pointers; the lemmas relate the store to
  the list of nodes between the sentinels.
\<close>

section \<open>State\<close>

datatype node_ref = Head | Tail | Node node_addr

record 'a list_node =
  ln_prev :: "node_ref ptr"
  ln_next :: "node_ref ptr"
  ln_data :: "'a ptr"

record 'a linked_list =
  ll_cells :: "node_ref \<Rightarrow> 'a list_node"
  ll_pool :: "memory_pool ptr"
  ll_size :: nat

definition set_prev :: "node_ref \<Rightarrow> node_ref ptr \<Rightarrow> (node_ref \<Rightarrow> 'a list_node) \<Rightarrow> node_ref \<Rightarrow> 'a list_node" where
  "set_prev r v c = c(r := (c r)\<lparr>ln_prev := v\<rparr>)"

definition set_next :: "node_ref \<Rightarrow> node_ref ptr \<Rightarrow> (node_ref \<Rightarrow> 'a list_node) \<Rightarrow> node_ref \<Rightarrow> 'a list_node" where
  "set_next r v c = c(r := (c r)\<lparr>ln_next := v\<rparr>)"

definition set_data :: "node_ref \<Rightarrow> 'a ptr \<Rightarrow> (node_ref \<Rightarrow> 'a list_node) \<Rightarrow> node_ref \<Rightarrow> 'a list_node" where
  "set_data r v c = c(r := (c r)\<lparr>ln_data := v\<rparr>)"

section \<open>Operations\<close>

definition muggle_linked_list_allocate_node ::
    "node_env \<Rightarrow> 'a linked_list \<Rightarrow> node_addr ptr \<times> 'a linked_list" where
  "muggle_linked_list_allocate_node e l =
    (let (node, pool) = node_alloc e (ll_pool l);
         l = l\<lparr>ll_pool := pool\<rparr>
     in (node, if node \<noteq> None then l\<lparr>ll_size := u64 (ll_size l + 1)\<rparr> else l))"

text \<open>The two pointer writes that take a node out.\<close>

definition unlink :: "node_ref \<Rightarrow> (node_ref \<Rightarrow> 'a list_node) \<Rightarrow> node_ref \<Rightarrow> 'a list_node" where
  "unlink r c =
    (let c = set_next (the (ln_prev (c r))) (ln_next (c r)) c
     in set_prev (the (ln_next (c r))) (ln_prev (c r)) c)"

definition muggle_linked_list_free_node :: "'a linked_list \<Rightarrow> node_addr \<Rightarrow> 'a linked_list" where
  "muggle_linked_list_free_node l node =
    l\<lparr>ll_cells := unlink (Node node) (ll_cells l),
      ll_pool := node_free (ll_pool l) node,
      ll_size := to_u64 (int (ll_size l) - 1)\<rparr>"

definition muggle_linked_list_free_data ::
    "'a linked_list \<Rightarrow> node_addr \<Rightarrow> bool \<Rightarrow> 'a linked_list \<times> 'a ptr list" where
  "muggle_linked_list_free_data l node func_free =
    (if ln_data (ll_cells l (Node node)) \<noteq> None then
       (l\<lparr>ll_cells := set_data (Node node) None (ll_cells l)\<rparr>,
        if func_free then [ln_data (ll_cells l (Node node))] else [])
     else (l, []))"

text \<open>
  \<open>cells\<close> is the memory the structure lies in. The sentinels start zeroed. A failed
  initialisation is \<open>None\<close>.
\<close>

definition muggle_linked_list_init ::
    "bool \<Rightarrow> mp_mallocs \<Rightarrow> (node_ref \<Rightarrow> 'a list_node) \<Rightarrow> nat \<Rightarrow> 'a linked_list option" where
  "muggle_linked_list_init pool_mem m mem capacity =
    (case node_pool_init pool_mem m capacity 24 of
       None \<Rightarrow> None
     | Some pool \<Rightarrow>
         let zero = \<lparr>ln_prev = None, ln_next = None, ln_data = None\<rparr>;
             c = mem(Head := zero, Tail := zero);
             c = set_next Head (Some Tail) c;
             c = set_prev Tail (Some Head) c
         in Some \<lparr>ll_cells = c, ll_pool = pool, ll_size = 0\<rparr>)"

definition muggle_linked_list_is_empty :: "'a linked_list \<Rightarrow> bool" where
  "muggle_linked_list_is_empty l \<longleftrightarrow> ln_next (ll_cells l Head) = Some Tail"

text \<open>The loop of \<open>clear\<close>; \<open>None\<close> when it does not end or follows a NULL pointer.\<close>

partial_function (option) ll_clear_loop ::
    "bool \<Rightarrow> node_ref ptr \<Rightarrow> 'a linked_list \<Rightarrow> 'a ptr list \<Rightarrow> ('a linked_list \<times> 'a ptr list) option" where
  "ll_clear_loop func_free node l freed =
    (case node of
       Some (Node a) \<Rightarrow>
         let next_node = ln_next (ll_cells l (Node a));
             (l, fs) = muggle_linked_list_free_data l a func_free;
             l = muggle_linked_list_free_node l a
         in ll_clear_loop func_free next_node l (freed @ fs)
     | Some Tail \<Rightarrow> Some (l, freed)
     | Some Head \<Rightarrow> None
     | None \<Rightarrow> None)"

definition muggle_linked_list_clear ::
    "'a linked_list \<Rightarrow> bool \<Rightarrow> ('a linked_list \<times> 'a ptr list) option" where
  "muggle_linked_list_clear l func_free =
    (case ll_clear_loop func_free (ln_next (ll_cells l Head)) l [] of
       None \<Rightarrow> None
     | Some (l, freed) \<Rightarrow> Some (l\<lparr>ll_size := 0\<rparr>, freed))"

definition muggle_linked_list_destroy ::
    "'a linked_list \<Rightarrow> bool \<Rightarrow> ('a linked_list \<times> 'a ptr list) option" where
  "muggle_linked_list_destroy l func_free =
    (case muggle_linked_list_clear l func_free of
       None \<Rightarrow> None
     | Some (l, freed) \<Rightarrow>
         Some (l\<lparr>ll_pool := map_option muggle_memory_pool_destroy (ll_pool l)\<rparr>, freed))"

definition muggle_linked_list_size :: "'a linked_list \<Rightarrow> nat" where
  "muggle_linked_list_size l = ll_size l"

text \<open>The loop of \<open>find\<close>: the outer \<open>None\<close> is a loop that does not end or follows a NULL pointer, the
  inner one the returned NULL.\<close>

partial_function (option) ll_find_loop ::
    "('a ptr \<Rightarrow> 'a ptr \<Rightarrow> int) \<Rightarrow> 'a ptr \<Rightarrow> 'a linked_list \<Rightarrow> node_ref ptr \<Rightarrow> node_ref ptr option" where
  "ll_find_loop cmp data l node =
    (case node of
       None \<Rightarrow> None
     | Some r \<Rightarrow>
         if r = Tail then Some None
         else if cmp (ln_data (ll_cells l r)) data = 0 then Some (Some r)
         else ll_find_loop cmp data l (ln_next (ll_cells l r)))"

definition muggle_linked_list_find ::
    "'a linked_list \<Rightarrow> node_ref ptr \<Rightarrow> 'a ptr \<Rightarrow> ('a ptr \<Rightarrow> 'a ptr \<Rightarrow> int) \<Rightarrow> node_ref ptr option" where
  "muggle_linked_list_find l node data cmp =
    (let node = (if node = None then ln_next (ll_cells l Head) else node)
     in ll_find_loop cmp data l node)"

definition muggle_linked_list_next :: "'a linked_list \<Rightarrow> node_ref \<Rightarrow> node_ref ptr" where
  "muggle_linked_list_next l node =
    (let next_node = ln_next (ll_cells l node) in if next_node = Some Tail then None else next_node)"

definition muggle_linked_list_prev :: "'a linked_list \<Rightarrow> node_ref \<Rightarrow> node_ref ptr" where
  "muggle_linked_list_prev l node =
    (let prev_node = ln_prev (ll_cells l node) in if prev_node = Some Head then None else prev_node)"

definition muggle_linked_list_first :: "'a linked_list \<Rightarrow> node_ref ptr" where
  "muggle_linked_list_first l =
    (let node = ln_next (ll_cells l Head) in if node = Some Tail then None else node)"

definition muggle_linked_list_last :: "'a linked_list \<Rightarrow> node_ref ptr" where
  "muggle_linked_list_last l =
    (let node = ln_prev (ll_cells l Tail) in if node = Some Head then None else node)"

text \<open>The four pointer writes of \<open>insert\<close> (before \<open>r\<close>) and of \<open>append\<close> (after \<open>r\<close>).\<close>

definition link_before :: "node_ref \<Rightarrow> node_ref \<Rightarrow> (node_ref \<Rightarrow> 'a list_node) \<Rightarrow> node_ref \<Rightarrow> 'a list_node" where
  "link_before r n c =
    (let c = set_next (the (ln_prev (c r))) (Some n) c;
         c = set_prev n (ln_prev (c r)) c;
         c = set_next n (Some r) c
     in set_prev r (Some n) c)"

definition link_after :: "node_ref \<Rightarrow> node_ref \<Rightarrow> (node_ref \<Rightarrow> 'a list_node) \<Rightarrow> node_ref \<Rightarrow> 'a list_node" where
  "link_after r n c =
    (let c = set_prev (the (ln_next (c r))) (Some n) c;
         c = set_next n (ln_next (c r)) c;
         c = set_prev n (Some r) c
     in set_next r (Some n) c)"

definition muggle_linked_list_insert ::
    "node_env \<Rightarrow> 'a linked_list \<Rightarrow> node_ref ptr \<Rightarrow> 'a ptr \<Rightarrow> node_ref ptr \<times> 'a linked_list" where
  "muggle_linked_list_insert e l node data =
    (case muggle_linked_list_allocate_node e l of
       (None, l) \<Rightarrow> (None, l)
     | (Some new_node, l) \<Rightarrow>
         let c = set_data (Node new_node) data (ll_cells l);
             node = (if node = None then ln_next (c Head) else node)
         in (Some (Node new_node), l\<lparr>ll_cells := link_before (the node) (Node new_node) c\<rparr>))"

definition muggle_linked_list_append ::
    "node_env \<Rightarrow> 'a linked_list \<Rightarrow> node_ref ptr \<Rightarrow> 'a ptr \<Rightarrow> node_ref ptr \<times> 'a linked_list" where
  "muggle_linked_list_append e l node data =
    (case muggle_linked_list_allocate_node e l of
       (None, l) \<Rightarrow> (None, l)
     | (Some new_node, l) \<Rightarrow>
         let c = set_data (Node new_node) data (ll_cells l);
             node = (if node = None then ln_prev (c Tail) else node)
         in (Some (Node new_node), l\<lparr>ll_cells := link_after (the node) (Node new_node) c\<rparr>))"

definition muggle_linked_list_remove ::
    "'a linked_list \<Rightarrow> node_addr \<Rightarrow> bool \<Rightarrow> node_ref ptr \<times> 'a linked_list \<times> 'a ptr list" where
  "muggle_linked_list_remove l node func_free =
    (let next_node = muggle_linked_list_next l (Node node);
         (l, freed) = muggle_linked_list_free_data l node func_free;
         l = muggle_linked_list_free_node l node
     in (next_node, l, freed))"

section \<open>Chains of nodes\<close>

text \<open>Neighbours of the sequence point at each other.\<close>

definition chain :: "(node_ref \<Rightarrow> 'a list_node) \<Rightarrow> node_ref list \<Rightarrow> bool" where
  "chain c rs = links (\<lambda>a. ln_next (c a)) (\<lambda>a. ln_prev (c a)) rs"

definition refs :: "node_addr list \<Rightarrow> node_ref list" where
  "refs ns = Head # map Node ns @ [Tail]"

definition ll_rep :: "'a linked_list \<Rightarrow> node_addr list \<Rightarrow> bool" where
  "ll_rep l ns \<longleftrightarrow> chain (ll_cells l) (refs ns) \<and> distinct ns \<and> node_ok (ll_pool l) (set ns) \<and>
     ll_size l = length ns \<and> length ns < 2 ^ 64"

text \<open>The data of the nodes, in order.\<close>

definition ll_list :: "'a linked_list \<Rightarrow> node_addr list \<Rightarrow> 'a ptr list" where
  "ll_list l ns = map (\<lambda>n. ln_data (ll_cells l (Node n))) ns"

lemmas cell_defs = set_prev_def set_next_def set_data_def link_before_def link_after_def unlink_def

lemma chain_Cons2: "chain c (a # b # rs) \<longleftrightarrow> ln_next (c a) = Some b \<and> ln_prev (c b) = Some a \<and> chain c (b # rs)"
  by (simp add: chain_def links_Cons2)

lemma chain_append: "chain c (us @ a # b # vs) \<longleftrightarrow>
    chain c (us @ [a]) \<and> ln_next (c a) = Some b \<and> ln_prev (c b) = Some a \<and> chain c (b # vs)"
  unfolding chain_def by (rule links_append)

lemma chain_link:
  assumes "chain c (us @ a # b # vs)" "distinct (us @ a # b # vs)" "n \<notin> set (us @ a # b # vs)"
    and "\<And>x. ln_next (c' x) = (if x = a then Some n else if x = n then Some b else ln_next (c x))"
      "\<And>x. ln_prev (c' x) = (if x = n then Some a else if x = b then Some n else ln_prev (c x))"
  shows "chain c' (us @ a # n # b # vs)"
  unfolding chain_def using assms(2-) by (intro links_link[OF assms(1)[unfolded chain_def]]) auto

lemma chain_unlink:
  assumes "chain c (us @ a # n # b # vs)" "distinct (us @ a # n # b # vs)"
    and "\<And>x. ln_next (c' x) = (if x = a then Some b else ln_next (c x))"
      "\<And>x. ln_prev (c' x) = (if x = b then Some a else ln_prev (c x))"
  shows "chain c' (us @ a # b # vs)"
  unfolding chain_def using assms(2-) by (intro links_unlink[OF assms(1)[unfolded chain_def]]) auto

section \<open>The operations on the chain\<close>

text \<open>The nodes on both sides of a gap between \<open>xs\<close> and \<open>ys\<close>.\<close>

definition before_gap :: "node_addr list \<Rightarrow> node_ref" where
  "before_gap xs = last (Head # map Node xs)"

definition after_gap :: "node_addr list \<Rightarrow> node_ref" where
  "after_gap ys = hd (map Node ys @ [Tail])"

lemma gap_simps [simp]:
  "before_gap [] = Head" "before_gap (xs @ [n]) = Node n" "after_gap [] = Tail" "after_gap (n # ys) = Node n"
  by (simp_all add: before_gap_def after_gap_def)

lemma refs_gap:
  "refs (xs @ ys) = butlast (Head # map Node xs) @ before_gap xs # after_gap ys # tl (map Node ys @ [Tail])"
proof -
  have "Head # map Node xs = butlast (Head # map Node xs) @ [before_gap xs]"
    by (simp only: before_gap_def append_butlast_last_id list.distinct not_False_eq_True)
  moreover have "map Node ys @ [Tail] = after_gap ys # tl (map Node ys @ [Tail])"
    by (cases ys) (simp_all add: after_gap_def)
  ultimately show ?thesis unfolding refs_def by (metis append.assoc append_Cons append_Nil map_append)
qed

lemma refs_gap_node:
  "refs (xs @ n # ys) =
    butlast (Head # map Node xs) @ before_gap xs # Node n # after_gap ys # tl (map Node ys @ [Tail])"
proof -
  have "map Node ys @ [Tail] = after_gap ys # tl (map Node ys @ [Tail])"
    by (cases ys) (simp_all add: after_gap_def)
  then show ?thesis using refs_gap[of xs "n # ys"] by (simp add: after_gap_def)
qed

lemma distinct_refs: "distinct (refs ns) \<longleftrightarrow> distinct ns"
  by (auto simp: refs_def distinct_map inj_on_def)

lemma Node_in_refs: "Node n \<in> set (refs ns) \<longleftrightarrow> n \<in> set ns"
  by (auto simp: refs_def)

lemma gap_links:
  assumes "chain c (refs (xs @ ys))"
  shows "ln_next (c (before_gap xs)) = Some (after_gap ys)" "ln_prev (c (after_gap ys)) = Some (before_gap xs)"
  using assms by (simp_all add: refs_gap chain_append)

lemma gap_distinct:
  assumes "distinct (xs @ ys)"
  shows "before_gap xs \<noteq> after_gap ys" "n \<notin> set (xs @ ys) \<Longrightarrow> Node n \<noteq> before_gap xs \<and> Node n \<noteq> after_gap ys"
proof -
  have "distinct (refs (xs @ ys))" using assms by (simp only: distinct_refs)
  then show "before_gap xs \<noteq> after_gap ys" by (simp add: refs_gap)
  show "n \<notin> set (xs @ ys) \<Longrightarrow> Node n \<noteq> before_gap xs \<and> Node n \<noteq> after_gap ys"
    using Node_in_refs[of n "xs @ ys"] by (simp add: refs_gap)
qed

text \<open>Linking a fresh node into a gap, from either side.\<close>

lemma link_gap:
  assumes "chain c (refs (xs @ ys))" "distinct (xs @ ys)" "n \<notin> set (xs @ ys)"
    and "c' = link_before (after_gap ys) (Node n) c \<or> c' = link_after (before_gap xs) (Node n) c"
  shows "chain c' (refs (xs @ n # ys))" "ln_data (c' r) = ln_data (c r)"
proof -
  note g = gap_links[OF assms(1)] gap_distinct(1)[OF assms(2)] gap_distinct(2)[OF assms(2,3)]
  have "Node n \<notin> set (refs (xs @ ys))" "distinct (refs (xs @ ys))"
    using assms(2,3) by (simp_all only: Node_in_refs distinct_refs not_False_eq_True)
  then show "chain c' (refs (xs @ n # ys))"
    unfolding refs_gap_node using assms(1,4) g unfolding refs_gap
    by (intro chain_link[of c]) (auto simp: cell_defs Let_def)
  show "ln_data (c' r) = ln_data (c r)" using assms(4) by (auto simp: cell_defs Let_def)
qed

lemma unlink_gap:
  assumes "chain c (refs (xs @ n # ys))" "distinct (xs @ n # ys)"
  shows "chain (unlink (Node n) c) (refs (xs @ ys))" "ln_data (unlink (Node n) c r) = ln_data (c r)"
proof -
  have links: "ln_prev (c (Node n)) = Some (before_gap xs)" "ln_next (c (Node n)) = Some (after_gap ys)"
    using assms(1) by (simp_all add: refs_gap_node chain_append chain_Cons2)
  have d: "distinct (butlast (Head # map Node xs) @ before_gap xs # Node n # after_gap ys # tl (map Node ys @ [Tail]))"
    using assms(2) by (simp only: distinct_refs flip: refs_gap_node)
  then have ne: "before_gap xs \<noteq> Node n" by (simp only: distinct_append distinct.simps list.set insert_iff) blast
  have "ln_next (unlink (Node n) c x) = (if x = before_gap xs then Some (after_gap ys) else ln_next (c x))"
    "ln_prev (unlink (Node n) c x) = (if x = after_gap ys then Some (before_gap xs) else ln_prev (c x))" for x
    using links ne by (simp_all add: cell_defs Let_def)
  then show "chain (unlink (Node n) c) (refs (xs @ ys))"
    unfolding refs_gap by (rule chain_unlink[OF assms(1)[unfolded refs_gap_node] d])
  show "ln_data (unlink (Node n) c r) = ln_data (c r)" by (simp add: cell_defs Let_def)
qed

lemma chain_set_data: "chain (set_data r v c) rs = chain c rs"
proof -
  have "(\<lambda>a. ln_next (set_data r v c a)) = (\<lambda>a. ln_next (c a))"
    "(\<lambda>a. ln_prev (set_data r v c a)) = (\<lambda>a. ln_prev (c a))"
    by (auto simp: set_data_def)
  then show ?thesis by (simp only: chain_def)
qed

lemma ll_allocate:
  assumes rep: "ll_rep l ns" and good: "node_good e (ll_pool l) (set ns)" and len: "length ns + 1 < 2 ^ 64"
    and run: "muggle_linked_list_allocate_node e l = (r, l')"
  shows "r = fst (node_alloc e (ll_pool l)) \<and>
    (case r of None \<Rightarrow> l' = l
     | Some n \<Rightarrow> n \<notin> set ns \<and> node_ok (ll_pool l') (insert n (set ns)) \<and>
         ll_cells l' = ll_cells l \<and> ll_size l' = length ns + 1)"
proof -
  obtain r0 pool where a: "node_alloc e (ll_pool l) = (r0, pool)" by fastforce
  have ok: "node_ok (ll_pool l) (set ns)" and size: "ll_size l = length ns" using rep by (simp_all add: ll_rep_def)
  from run a have r: "r = r0" by (simp add: muggle_linked_list_allocate_node_def Let_def)
  show ?thesis
  proof (cases r0)
    case None
    with a have "pool = ll_pool l" using nodes.alloc_none[OF ok, of e pool] by simp
    then show ?thesis using run a None by (simp add: muggle_linked_list_allocate_node_def)
  next
    case (Some n)
    with a have "n \<notin> set ns \<and> node_ok pool (insert n (set ns))" using nodes.alloc_some[OF ok good] by simp
    then show ?thesis using run a Some size len by (auto simp: muggle_linked_list_allocate_node_def)
  qed
qed

text \<open>What \<open>insert\<close> and \<open>append\<close> do in the gap between \<open>xs\<close> and \<open>ys\<close>.\<close>

lemma ll_put:
  assumes rep: "ll_rep l (xs @ ys)" and good: "node_good e (ll_pool l) (set (xs @ ys))"
    and len: "length (xs @ ys) + 1 < 2 ^ 64"
    and run: "run = muggle_linked_list_insert e l node data \<and> (node = Some (after_gap ys) \<or> xs = [] \<and> node = None) \<or>
      run = muggle_linked_list_append e l node data \<and> (node = Some (before_gap xs) \<or> ys = [] \<and> node = None)"
  shows "case fst (node_alloc e (ll_pool l)) of
      None \<Rightarrow> run = (None, l)
    | Some n \<Rightarrow> fst run = Some (Node n) \<and> n \<notin> set (xs @ ys) \<and> ll_rep (snd run) (xs @ n # ys) \<and>
        ll_list (snd run) (xs @ n # ys) = ll_list l xs @ data # ll_list l ys"
proof -
  have chain: "chain (ll_cells l) (refs (xs @ ys))" and dist: "distinct (xs @ ys)"
    using rep by (simp_all add: ll_rep_def)
  obtain r l1 where a: "muggle_linked_list_allocate_node e l = (r, l1)" by fastforce
  note al = ll_allocate[OF rep good len a]
  show ?thesis
  proof (cases r)
    case None
    then show ?thesis using al a run
      by (auto simp: muggle_linked_list_insert_def muggle_linked_list_append_def)
  next
    case (Some n)
    define c where "c = set_data (Node n) data (ll_cells l)"
    have fresh: "n \<notin> set (xs @ ys)" and l1: "node_ok (ll_pool l1) (insert n (set (xs @ ys)))"
      "ll_cells l1 = ll_cells l" "ll_size l1 = length (xs @ ys) + 1" using al Some by simp_all
    have c: "chain c (refs (xs @ ys))" using chain by (simp add: c_def chain_set_data)
    have "run = (Some (Node n), l1\<lparr>ll_cells := link_before (after_gap ys) (Node n) c\<rparr>) \<or>
        run = (Some (Node n), l1\<lparr>ll_cells := link_after (before_gap xs) (Node n) c\<rparr>)"
      using run a Some l1(2) gap_links[OF c]
      by (auto simp: muggle_linked_list_insert_def muggle_linked_list_append_def c_def[symmetric] Let_def)
    then obtain c' where c': "c' = link_before (after_gap ys) (Node n) c \<or> c' = link_after (before_gap xs) (Node n) c"
      and r: "run = (Some (Node n), l1\<lparr>ll_cells := c'\<rparr>)" by blast
    note lk = link_gap[OF c dist fresh c']
    have "ll_list (snd run) (xs @ n # ys) = ll_list l xs @ data # ll_list l ys"
      using fresh by (auto simp: ll_list_def r lk(2)) (auto simp: c_def set_data_def)
    moreover have "fst (node_alloc e (ll_pool l)) = Some n" using al Some by simp
    ultimately show ?thesis using r lk(1) l1 fresh dist len by (simp add: ll_rep_def)
  qed
qed

lemma ll_take_out:
  assumes rep: "ll_rep l (xs @ n # ys)"
  shows "ll_rep (muggle_linked_list_free_node l n) (xs @ ys)"
    "ll_list (muggle_linked_list_free_node l n) (xs @ ys) = ll_list l (xs @ ys)"
proof -
  have c: "chain (ll_cells l) (refs (xs @ n # ys))" and d: "distinct (xs @ n # ys)"
    and ok: "node_ok (ll_pool l) (set (xs @ n # ys))" and size: "ll_size l = length (xs @ n # ys)"
    using rep by (simp_all add: ll_rep_def)
  have "set (xs @ n # ys) - {n} = set (xs @ ys)" using d by auto
  with nodes.release_ok[OF ok, of n] have "node_ok (node_free (ll_pool l) n) (set (xs @ ys))" by simp
  moreover have "to_u64 (int (ll_size l) - 1) = length (xs @ ys)"
    using size rep by (simp add: ll_rep_def)
  ultimately show "ll_rep (muggle_linked_list_free_node l n) (xs @ ys)"
    using unlink_gap(1)[OF c d] d size rep by (simp add: ll_rep_def muggle_linked_list_free_node_def)
  show "ll_list (muggle_linked_list_free_node l n) (xs @ ys) = ll_list l (xs @ ys)"
    by (simp add: ll_list_def muggle_linked_list_free_node_def unlink_gap(2)[OF c d])
qed

lemma ll_free_data:
  assumes "muggle_linked_list_free_data l n func_free = (l', freed)"
  shows "ll_rep l' ns = ll_rep l ns" "n \<notin> set ns \<Longrightarrow> ll_list l' ns = ll_list l ns"
    "freed = (if func_free then filter (\<lambda>d. d \<noteq> None) (ll_list l [n]) else [])"
    "ll_cells l' r = (if r = Node n then (ll_cells l r)\<lparr>ln_data := None\<rparr> else ll_cells l r)"
proof -
  show "ll_cells l' r = (if r = Node n then (ll_cells l r)\<lparr>ln_data := None\<rparr> else ll_cells l r)"
    using assms by (auto simp: muggle_linked_list_free_data_def set_data_def split: if_splits)
  have "ll_pool l' = ll_pool l" "ll_size l' = ll_size l"
    "ll_cells l' = ll_cells l \<or> ll_cells l' = set_data (Node n) None (ll_cells l)"
    using assms by (auto simp: muggle_linked_list_free_data_def split: if_splits)
  then show "ll_rep l' ns = ll_rep l ns" "n \<notin> set ns \<Longrightarrow> ll_list l' ns = ll_list l ns"
    by (auto simp: ll_rep_def chain_set_data ll_list_def) (auto simp: set_data_def)
  show "freed = (if func_free then filter (\<lambda>d. d \<noteq> None) (ll_list l [n]) else [])"
    using assms by (auto simp: muggle_linked_list_free_data_def ll_list_def split: if_splits)
qed

lemma ll_next_gap: "ll_rep l (xs @ ys) \<Longrightarrow> ln_next (ll_cells l (before_gap xs)) = Some (after_gap ys)"
  using gap_links(1) by (auto simp: ll_rep_def)

text \<open>The loop of \<open>clear\<close> takes the nodes out from the front.\<close>

lemma ll_clear_loop_ends:
  assumes "ll_rep l ns"
  shows "\<exists>l'. ll_clear_loop func_free (Some (after_gap ns)) l freed =
      Some (l', freed @ (if func_free then filter (\<lambda>d. d \<noteq> None) (ll_list l ns) else [])) \<and> ll_rep l' []"
  using assms
proof (induction ns arbitrary: l freed)
  case Nil
  then show ?case by (subst ll_clear_loop.simps) (simp add: ll_list_def)
next
  case (Cons n ns)
  obtain l1 fs where fd: "muggle_linked_list_free_data l n func_free = (l1, fs)" by fastforce
  define l2 where "l2 = muggle_linked_list_free_node l1 n"
  note d = ll_free_data[OF fd]
  have n: "n \<notin> set ns" using Cons.prems by (simp add: ll_rep_def)
  have rep1: "ll_rep l1 ([] @ n # ns)" using Cons.prems d(1)[of "n # ns"] by simp
  have rep2: "ll_rep l2 ns" "ll_list l2 ns = ll_list l ns"
    using ll_take_out[OF rep1] d(2)[OF n] by (simp_all add: l2_def)
  have "ln_next (ll_cells l (Node n)) = Some (after_gap ns)"
    using ll_next_gap[of l "[n]" ns] Cons.prems gap_simps(2)[of "[]" n] by simp
  then have "ll_clear_loop func_free (Some (after_gap (n # ns))) l freed =
      ll_clear_loop func_free (Some (after_gap ns)) l2 (freed @ fs)"
    by (subst ll_clear_loop.simps) (simp add: fd l2_def)
  moreover obtain l' where "ll_clear_loop func_free (Some (after_gap ns)) l2 (freed @ fs) =
      Some (l', (freed @ fs) @ (if func_free then filter (\<lambda>d. d \<noteq> None) (ll_list l ns) else []))" "ll_rep l' []"
    using Cons.IH[OF rep2(1), of "freed @ fs"] rep2(2) by auto
  ultimately show ?case using d(3) by (auto simp: ll_list_def)
qed

lemma ll_find_loop_eq:
  assumes "ll_rep l (xs @ ys)"
  shows "ll_find_loop cmp data l (Some (after_gap ys)) =
    Some (map_option Node (find (\<lambda>n. cmp (ln_data (ll_cells l (Node n))) data = 0) ys))"
  using assms
proof (induction ys arbitrary: xs)
  case Nil
  then show ?case by (subst ll_find_loop.simps) simp
next
  case (Cons n ys)
  have rep: "ll_rep l ((xs @ [n]) @ ys)" using Cons.prems by simp
  have "ln_next (ll_cells l (Node n)) = Some (after_gap ys)" using ll_next_gap[OF rep] by simp
  then show ?case using Cons.IH[OF rep] by (subst ll_find_loop.simps) simp
qed

lemma ll_list_split: "ll_list l (take k ns) = take k (ll_list l ns)" "ll_list l (drop k ns) = drop k (ll_list l ns)"
    "ll_list l (xs @ ys) = ll_list l xs @ ll_list l ys"
  by (simp_all add: ll_list_def take_map drop_map)

lemma gap_nth: "after_gap (drop k ns) = (if k < length ns then Node (ns ! k) else Tail)"
    "0 < k \<Longrightarrow> k \<le> length ns \<Longrightarrow> before_gap (take k ns) = Node (ns ! (k - 1))"
proof -
  show "after_gap (drop k ns) = (if k < length ns then Node (ns ! k) else Tail)"
    by (simp add: Cons_nth_drop_Suc[symmetric])
  show "before_gap (take k ns) = Node (ns ! (k - 1))" if "0 < k" "k \<le> length ns"
    using that by (cases k) (auto simp: take_Suc_conv_app_nth)
qed

lemma ll_gap_links:
  assumes "ll_rep l ns"
  shows "ln_next (ll_cells l (before_gap (take k ns))) = Some (after_gap (drop k ns))"
    "ln_prev (ll_cells l (after_gap (drop k ns))) = Some (before_gap (take k ns))"
  using gap_links[of "ll_cells l" "take k ns" "drop k ns"] assms by (simp_all add: ll_rep_def)

lemma ll_next_nth:
  assumes "ll_rep l ns" "k < length ns"
  shows "muggle_linked_list_next l (Node (ns ! k)) = (if Suc k < length ns then Some (Node (ns ! Suc k)) else None)"
  using ll_gap_links(1)[OF assms(1), of "Suc k"] gap_nth[of "Suc k" ns] assms(2)
  by (simp add: muggle_linked_list_next_def)

lemma ll_prev_nth:
  assumes "ll_rep l ns" "k < length ns"
  shows "muggle_linked_list_prev l (Node (ns ! k)) = (if 0 < k then Some (Node (ns ! (k - 1))) else None)"
  using ll_gap_links(2)[OF assms(1), of k] gap_nth[of k ns] assms(2)
  by (cases "k = 0") (simp_all add: muggle_linked_list_prev_def)

lemma ll_remove_at:
  assumes rep: "ll_rep l ns" and k: "k < length ns"
    and run: "muggle_linked_list_remove l (ns ! k) func_free = (r, l', freed)"
  shows "ll_rep l' (take k ns @ drop (Suc k) ns) \<and>
    ll_list l' (take k ns @ drop (Suc k) ns) = take k (ll_list l ns) @ drop (Suc k) (ll_list l ns) \<and>
    freed = (if func_free then filter (\<lambda>d. d \<noteq> None) [ll_list l ns ! k] else []) \<and>
    r = (if Suc k < length ns then Some (Node (ns ! Suc k)) else None)"
proof -
  define xs ys n where "xs = take k ns" and "ys = drop (Suc k) ns" and "n = ns ! k"
  have ns: "ns = xs @ n # ys" using k by (simp add: xs_def ys_def n_def id_take_nth_drop)
  obtain l1 where fd: "muggle_linked_list_free_data l n func_free = (l1, freed)"
    and l': "l' = muggle_linked_list_free_node l1 n" and r: "r = muggle_linked_list_next l (Node n)"
    using run by (auto simp: muggle_linked_list_remove_def n_def[symmetric] split: prod.splits)
  note d = ll_free_data[OF fd]
  have rep1: "ll_rep l1 (xs @ n # ys)" using d(1)[of ns] rep ns by simp
  have "n \<notin> set (xs @ ys)" using rep ns by (simp add: ll_rep_def)
  then have "ll_rep l' (xs @ ys)" "ll_list l' (xs @ ys) = ll_list l (xs @ ys)"
    using ll_take_out[OF rep1] d(2) by (simp_all add: l')
  moreover have "r = (if Suc k < length ns then Some (Node (ns ! Suc k)) else None)"
    unfolding r n_def using rep k by (rule ll_next_nth)
  moreover have "freed = (if func_free then filter (\<lambda>d. d \<noteq> None) [ll_list l ns ! k] else [])"
    using d(3) k by (simp add: ll_list_def n_def)
  ultimately show ?thesis unfolding xs_def ys_def ll_list_split by blast
qed

lemma ll_clear_ends:
  assumes "ll_rep l ns"
  shows "\<exists>l'. muggle_linked_list_clear l func_free =
      Some (l', if func_free then filter (\<lambda>d. d \<noteq> None) (ll_list l ns) else []) \<and> ll_rep l' []"
proof -
  obtain l' where "ll_clear_loop func_free (Some (after_gap ns)) l [] =
      Some (l', [] @ (if func_free then filter (\<lambda>d. d \<noteq> None) (ll_list l ns) else []))" "ll_rep l' []"
    using ll_clear_loop_ends[OF assms, of func_free "[]"] by blast
  moreover have "ln_next (ll_cells l Head) = Some (after_gap ns)" using ll_gap_links(1)[OF assms, of 0] by simp
  ultimately show ?thesis
    by (intro exI[of _ "l'\<lparr>ll_size := 0\<rparr>"]) (simp add: muggle_linked_list_clear_def ll_rep_def)
qed

section \<open>Properties\<close>

definition ll_demo :: "int linked_list" where
  "ll_demo = \<lparr>ll_cells = (\<lambda>r. case r of
       Head \<Rightarrow> \<lparr>ln_prev = None, ln_next = Some (Node (Malloced 7)), ln_data = None\<rparr>
     | Tail \<Rightarrow> \<lparr>ln_prev = Some (Node (Malloced 7)), ln_next = None, ln_data = None\<rparr>
     | Node _ \<Rightarrow> \<lparr>ln_prev = Some Head, ln_next = Some Tail, ln_data = Some 5\<rparr>),
     ll_pool = None, ll_size = 1\<rparr>"

definition ll_demo_env :: node_env where
  "ll_demo_env = \<lparr>ne_mallocs = mp_demo_mallocs, ne_malloc = Some 8\<rparr>"

lemma ll_demo_rep: "ll_rep ll_demo [Malloced 7]"
  by (simp add: ll_rep_def ll_demo_def chain_def links_def refs_def node_ok_def)

lemma ll_demo_list: "ll_list ll_demo [Malloced 7] = [Some 5]" "node_alloc ll_demo_env (ll_pool ll_demo) = (Some (Malloced 8), None)"
  "node_good ll_demo_env (ll_pool ll_demo) {Malloced 7}" "ln_data (ll_cells ll_demo (Node n)) = Some 5"
  by (simp_all add: ll_list_def ll_demo_def node_alloc_def ll_demo_env_def node_good_def)

text \<open>C14. Insertion before and appending after a node refine insertion into the list of nodes. On
  a well-linked list, \<open>insert\<close> before (NULL: before the first) and \<open>append\<close> after (NULL: after the
  last) a node fail exactly when no node can be allocated, and then leave the list as it is; otherwise
  they return a node that was not in the list, the list gets it at that position with the given
  data, and stays well-linked in both directions with its size.\<close>

theorem ll_insert_append_refine:
  assumes rep: "ll_rep l ns" and good: "node_good e (ll_pool l) (set ns)" and len: "length ns + 1 < 2 ^ 64"
    and op: "run = muggle_linked_list_insert e l None data \<and> i = 0 \<or>
      run = muggle_linked_list_append e l None data \<and> i = length ns \<or>
      (\<exists>k < length ns. run = muggle_linked_list_insert e l (Some (Node (ns ! k))) data \<and> i = k \<or>
         run = muggle_linked_list_append e l (Some (Node (ns ! k))) data \<and> i = Suc k)"
  shows "case fst (node_alloc e (ll_pool l)) of
      None \<Rightarrow> run = (None, l)
    | Some n \<Rightarrow> fst run = Some (Node n) \<and> n \<notin> set ns \<and> ll_rep (snd run) (take i ns @ n # drop i ns) \<and>
        ll_list (snd run) (take i ns @ n # drop i ns) = take i (ll_list l ns) @ data # drop i (ll_list l ns)"
proof -
  have i: "take i ns @ drop i ns = ns" by simp
  have "\<exists>node. run = muggle_linked_list_insert e l node data \<and>
        (node = Some (after_gap (drop i ns)) \<or> take i ns = [] \<and> node = None) \<or>
      run = muggle_linked_list_append e l node data \<and>
        (node = Some (before_gap (take i ns)) \<or> drop i ns = [] \<and> node = None)"
    using op gap_nth by (elim disjE exE conjE) fastforce+
  then obtain node where "run = muggle_linked_list_insert e l node data \<and>
        (node = Some (after_gap (drop i ns)) \<or> take i ns = [] \<and> node = None) \<or>
      run = muggle_linked_list_append e l node data \<and>
        (node = Some (before_gap (take i ns)) \<or> drop i ns = [] \<and> node = None)" by blast
  from ll_put[of l "take i ns" "drop i ns", unfolded i, OF rep good len this]
  show ?thesis by (simp only: ll_list_split)
qed

theorem ll_insert_append_refine_witness:
  "ll_rep (snd (muggle_linked_list_append ll_demo_env ll_demo None (Some 6))) [Malloced 7, Malloced 8] \<and>
   ll_list (snd (muggle_linked_list_append ll_demo_env ll_demo None (Some 6))) [Malloced 7, Malloced 8] =
     [Some 5, Some 6]"
  using ll_insert_append_refine[OF ll_demo_rep, of ll_demo_env
      "muggle_linked_list_append ll_demo_env ll_demo None (Some 6)" "Some 6" 1]
  by (simp add: ll_demo_list)

text \<open>C15. \<open>remove\<close> takes exactly the given node out of a well-linked list: its data, unless NULL,
  is what is passed to the release callback, the node goes back to its allocator, the other nodes
  keep their order and data, and the result is the node that followed, or NULL at the end. \<open>clear\<close>
  always returns, on the empty list as well: it releases the data of all nodes, from first to last,
  and leaves an empty well-linked list.\<close>

theorem ll_remove_clear:
  assumes rep: "ll_rep l ns"
  shows "(\<forall>k r l' freed. k < length ns \<and> muggle_linked_list_remove l (ns ! k) func_free = (r, l', freed) \<longrightarrow>
      ll_rep l' (take k ns @ drop (Suc k) ns) \<and>
      ll_list l' (take k ns @ drop (Suc k) ns) = take k (ll_list l ns) @ drop (Suc k) (ll_list l ns) \<and>
      freed = (if func_free then filter (\<lambda>d. d \<noteq> None) [ll_list l ns ! k] else []) \<and>
      r = (if Suc k < length ns then Some (Node (ns ! Suc k)) else None)) \<and>
    (\<exists>l''. muggle_linked_list_clear l func_free =
        Some (l'', if func_free then filter (\<lambda>d. d \<noteq> None) (ll_list l ns) else []) \<and> ll_rep l'' [])"
  using ll_remove_at[OF rep] ll_clear_ends[OF rep, of func_free] by blast

theorem ll_remove_clear_witness:
  "(case muggle_linked_list_remove ll_demo (Malloced 7) True of (r, l', freed) \<Rightarrow>
     ll_rep l' [] \<and> freed = [Some 5] \<and> r = None) \<and>
   (\<exists>l''. muggle_linked_list_clear ll_demo True = Some (l'', [Some 5]) \<and> ll_rep l'' [])"
  using ll_remove_clear[OF ll_demo_rep, of True] by (auto simp: ll_demo_list split: prod.splits)

text \<open>C16. \<open>find\<close> always returns on a well-linked list: the first node, from the given one (NULL:
  from the first) on, whose data compares equal, and NULL when there is none, so in an empty list.
  \<open>next\<close> and \<open>prev\<close> step along the list in both directions, and \<open>first\<close> and \<open>last\<close> are its ends, NULL
  when it is empty.\<close>

theorem ll_find_navigate:
  assumes rep: "ll_rep l ns"
  shows "(\<forall>k < length ns.
      muggle_linked_list_find l (Some (Node (ns ! k))) data cmp =
        Some (map_option Node (find (\<lambda>n. cmp (ln_data (ll_cells l (Node n))) data = 0) (drop k ns))) \<and>
      muggle_linked_list_next l (Node (ns ! k)) = (if Suc k < length ns then Some (Node (ns ! Suc k)) else None) \<and>
      muggle_linked_list_prev l (Node (ns ! k)) = (if 0 < k then Some (Node (ns ! (k - 1))) else None)) \<and>
    muggle_linked_list_find l None data cmp =
      Some (map_option Node (find (\<lambda>n. cmp (ln_data (ll_cells l (Node n))) data = 0) ns)) \<and>
    muggle_linked_list_first l = (if ns = [] then None else Some (Node (hd ns))) \<and>
    muggle_linked_list_last l = (if ns = [] then None else Some (Node (last ns)))"
proof -
  have find: "ll_find_loop cmp data l (Some (after_gap (drop i ns))) =
      Some (map_option Node (find (\<lambda>n. cmp (ln_data (ll_cells l (Node n))) data = 0) (drop i ns)))" for i
    using ll_find_loop_eq[of l "take i ns" "drop i ns"] rep by simp
  have at: "muggle_linked_list_find l (Some (Node (ns ! k))) data cmp =
      Some (map_option Node (find (\<lambda>n. cmp (ln_data (ll_cells l (Node n))) data = 0) (drop k ns)))" if "k < length ns" for k
    using find[of k] that by (simp add: muggle_linked_list_find_def gap_nth)
  have "muggle_linked_list_find l None data cmp =
      Some (map_option Node (find (\<lambda>n. cmp (ln_data (ll_cells l (Node n))) data = 0) ns))"
    using find[of 0] ll_gap_links(1)[OF rep, of 0] by (simp add: muggle_linked_list_find_def gap_nth)
  moreover have "muggle_linked_list_first l = (if ns = [] then None else Some (Node (hd ns)))"
    "muggle_linked_list_last l = (if ns = [] then None else Some (Node (last ns)))"
    using ll_gap_links(1)[OF rep, of 0] ll_gap_links(2)[OF rep, of "length ns"] gap_nth[of 0 ns] gap_nth(2)[of "length ns" ns]
    by (auto simp: muggle_linked_list_first_def muggle_linked_list_last_def hd_conv_nth last_conv_nth)
  ultimately show ?thesis using at ll_next_nth[OF rep] ll_prev_nth[OF rep] by blast
qed

theorem ll_find_navigate_witness:
  "muggle_linked_list_find ll_demo None (Some 5) ex_cmp = Some (Some (Node (Malloced 7))) \<and>
   muggle_linked_list_find ll_demo (Some (Node (Malloced 7))) (Some 5) ex_cmp = Some (Some (Node (Malloced 7))) \<and>
   muggle_linked_list_first ll_demo = Some (Node (Malloced 7))"
  using ll_find_navigate[OF ll_demo_rep, of "Some 5" ex_cmp] by (simp add: ll_demo_list)

end
