(* ===== verification/Queue.thy ===== *)
theory Queue
  imports Linked_List
begin

text \<open>
  The linked queue (\<^verbatim>\<open>muggle/c/dsaa/queue.c\<close>, \<^verbatim>\<open>queue.h\<close>). Its structure is the one of the linked
  list, field by field: sentinels, pool and size. The operations are translated from their own source
  and shown equal to the list operations they repeat; the queue then refines a first-in first-out list.
\<close>

section \<open>Operations\<close>

type_synonym 'a queue = "'a linked_list"

definition muggle_queue_free_node :: "'a queue \<Rightarrow> node_addr \<Rightarrow> 'a queue" where
  "muggle_queue_free_node q node =
    (let c = ll_cells q;
         c = set_next (the (ln_prev (c (Node node)))) (ln_next (c (Node node))) c;
         c = set_prev (the (ln_next (c (Node node)))) (ln_prev (c (Node node))) c
     in q\<lparr>ll_cells := c,
          ll_pool := node_free (ll_pool q) node,
          ll_size := to_u64 (int (ll_size q) - 1)\<rparr>)"

definition muggle_queue_free_data :: "'a queue \<Rightarrow> node_addr \<Rightarrow> bool \<Rightarrow> 'a queue \<times> 'a ptr list" where
  "muggle_queue_free_data q node func_free =
    (if ln_data (ll_cells q (Node node)) \<noteq> None then
       (q\<lparr>ll_cells := set_data (Node node) None (ll_cells q)\<rparr>,
        if func_free then [ln_data (ll_cells q (Node node))] else [])
     else (q, []))"

definition muggle_queue_init ::
    "bool \<Rightarrow> mp_mallocs \<Rightarrow> (node_ref \<Rightarrow> 'a list_node) \<Rightarrow> nat \<Rightarrow> 'a queue option" where
  "muggle_queue_init pool_mem m mem capacity =
    (case node_pool_init pool_mem m capacity 24 of
       None \<Rightarrow> None
     | Some pool \<Rightarrow>
         let zero = \<lparr>ln_prev = None, ln_next = None, ln_data = None\<rparr>;
             c = mem(Head := zero, Tail := zero);
             c = set_next Head (Some Tail) c;
             c = set_prev Tail (Some Head) c
         in Some \<lparr>ll_cells = c, ll_pool = pool, ll_size = 0\<rparr>)"

definition muggle_queue_is_empty :: "'a queue \<Rightarrow> bool" where
  "muggle_queue_is_empty q \<longleftrightarrow> ln_next (ll_cells q Head) = Some Tail"

partial_function (option) qu_clear_loop ::
    "bool \<Rightarrow> node_ref ptr \<Rightarrow> 'a queue \<Rightarrow> 'a ptr list \<Rightarrow> ('a queue \<times> 'a ptr list) option" where
  "qu_clear_loop func_free node q freed =
    (case node of
       Some (Node a) \<Rightarrow>
         let next_node = ln_next (ll_cells q (Node a));
             (q, fs) = muggle_queue_free_data q a func_free;
             q = muggle_queue_free_node q a
         in qu_clear_loop func_free next_node q (freed @ fs)
     | Some Tail \<Rightarrow> Some (q, freed)
     | Some Head \<Rightarrow> None
     | None \<Rightarrow> None)"

definition muggle_queue_clear :: "'a queue \<Rightarrow> bool \<Rightarrow> ('a queue \<times> 'a ptr list) option" where
  "muggle_queue_clear q func_free =
    (case qu_clear_loop func_free (ln_next (ll_cells q Head)) q [] of
       None \<Rightarrow> None
     | Some (q, freed) \<Rightarrow> Some (q\<lparr>ll_size := 0\<rparr>, freed))"

definition muggle_queue_destroy :: "'a queue \<Rightarrow> bool \<Rightarrow> ('a queue \<times> 'a ptr list) option" where
  "muggle_queue_destroy q func_free =
    (case muggle_queue_clear q func_free of
       None \<Rightarrow> None
     | Some (q, freed) \<Rightarrow>
         Some (q\<lparr>ll_pool := map_option muggle_memory_pool_destroy (ll_pool q)\<rparr>, freed))"

definition muggle_queue_size :: "'a queue \<Rightarrow> nat" where
  "muggle_queue_size q = ll_size q"

definition muggle_queue_enqueue :: "node_env \<Rightarrow> 'a queue \<Rightarrow> 'a ptr \<Rightarrow> node_ref ptr \<times> 'a queue" where
  "muggle_queue_enqueue e q data =
    (let (new_node, pool) = node_alloc e (ll_pool q);
         q = q\<lparr>ll_pool := pool\<rparr>
     in case new_node of
          None \<Rightarrow> (None, q)
        | Some n \<Rightarrow>
            let c = set_data (Node n) data (ll_cells q);
                q = q\<lparr>ll_size := u64 (ll_size q + 1)\<rparr>;
                node = the (ln_prev (c Tail));
                c = set_prev (the (ln_next (c node))) (Some (Node n)) c;
                c = set_next (Node n) (ln_next (c node)) c;
                c = set_prev (Node n) (Some node) c;
                c = set_next node (Some (Node n)) c
            in (Some (Node n), q\<lparr>ll_cells := c\<rparr>))"

text \<open>The first node of a queue that is not empty; \<open>None\<close> stands for a broken chain.\<close>

definition muggle_queue_dequeue :: "'a queue \<Rightarrow> bool \<Rightarrow> ('a queue \<times> 'a ptr list) option" where
  "muggle_queue_dequeue q func_free =
    (if muggle_queue_is_empty q then Some (q, [])
     else case ln_next (ll_cells q Head) of
       Some (Node a) \<Rightarrow>
         (let (q, freed) = muggle_queue_free_data q a func_free
          in Some (muggle_queue_free_node q a, freed))
     | _ \<Rightarrow> None)"

definition muggle_queue_front :: "'a queue \<Rightarrow> node_ref ptr" where
  "muggle_queue_front q = (if muggle_queue_is_empty q then None else ln_next (ll_cells q Head))"

section \<open>The list code it repeats\<close>

lemma queue_list_ops:
  "muggle_queue_free_node = muggle_linked_list_free_node"
  "muggle_queue_free_data = muggle_linked_list_free_data"
  "muggle_queue_init = muggle_linked_list_init"
  by (simp_all add: fun_eq_iff muggle_queue_free_node_def muggle_linked_list_free_node_def unlink_def
      muggle_queue_free_data_def muggle_linked_list_free_data_def muggle_queue_init_def
      muggle_linked_list_init_def Let_def)

lemma enqueue_append: "muggle_queue_enqueue e q data = muggle_linked_list_append e q None data" if "ll_rep q ns"
proof -
  have "ln_prev (ll_cells q Tail) \<noteq> None" using ll_gap_links(2)[OF that, of "length ns"] by simp
  then show ?thesis
    by (auto simp: muggle_queue_enqueue_def muggle_linked_list_append_def muggle_linked_list_allocate_node_def
        link_after_def set_data_def Let_def split: prod.splits option.splits)
qed

lemma queue_clear_loop_ends:
  assumes "ll_rep q ns"
  shows "qu_clear_loop func_free (Some (after_gap ns)) q freed = ll_clear_loop func_free (Some (after_gap ns)) q freed"
  using assms
proof (induction ns arbitrary: q freed)
  case Nil
  then show ?case by (subst qu_clear_loop.simps, subst ll_clear_loop.simps) simp
next
  case (Cons n ns)
  obtain q1 fs where fd: "muggle_linked_list_free_data q n func_free = (q1, fs)" by fastforce
  have "ll_rep q1 ([] @ n # ns)" using Cons.prems ll_free_data(1)[OF fd, of "n # ns"] by simp
  then have "ll_rep (muggle_linked_list_free_node q1 n) ns" using ll_take_out(1) by fastforce
  moreover have "ln_next (ll_cells q (Node n)) = Some (after_gap ns)"
    using ll_next_gap[of q "[n]" ns] Cons.prems gap_simps(2)[of "[]" n] by simp
  ultimately show ?case using Cons.IH
    by (subst qu_clear_loop.simps, subst ll_clear_loop.simps) (simp add: queue_list_ops fd)
qed

section \<open>Properties\<close>

text \<open>C17. The queue is first-in first-out. On a well-linked queue, \<open>enqueue\<close> fails exactly when no
  node can be allocated, leaving the queue as it is, and otherwise appends the item at the end;
  \<open>dequeue\<close> always returns, drops the first item and passes exactly its data, unless NULL, to the
  release callback, and does nothing on an empty queue; \<open>front\<close> is the first node, NULL when
  empty. All keep the queue well-linked.\<close>

theorem queue_fifo:
  assumes rep: "ll_rep q ns" and good: "node_good e (ll_pool q) (set ns)" and len: "length ns + 1 < 2 ^ 64"
  shows "(case fst (node_alloc e (ll_pool q)) of
       None \<Rightarrow> muggle_queue_enqueue e q data = (None, q)
     | Some n \<Rightarrow> fst (muggle_queue_enqueue e q data) = Some (Node n) \<and> n \<notin> set ns \<and>
         ll_rep (snd (muggle_queue_enqueue e q data)) (ns @ [n]) \<and>
         ll_list (snd (muggle_queue_enqueue e q data)) (ns @ [n]) = ll_list q ns @ [data]) \<and>
    (\<exists>q' freed. muggle_queue_dequeue q func_free = Some (q', freed) \<and> ll_rep q' (tl ns) \<and>
       ll_list q' (tl ns) = tl (ll_list q ns) \<and>
       freed = (if func_free then filter (\<lambda>d. d \<noteq> None) (take 1 (ll_list q ns)) else [])) \<and>
    muggle_queue_front q = (if ns = [] then None else Some (Node (hd ns)))"
proof (intro conjI)
  from ll_put[of q ns "[]" e, simplified, OF rep good, of "muggle_linked_list_append e q None data" None data] len
  show "case fst (node_alloc e (ll_pool q)) of
       None \<Rightarrow> muggle_queue_enqueue e q data = (None, q)
     | Some n \<Rightarrow> fst (muggle_queue_enqueue e q data) = Some (Node n) \<and> n \<notin> set ns \<and>
         ll_rep (snd (muggle_queue_enqueue e q data)) (ns @ [n]) \<and>
         ll_list (snd (muggle_queue_enqueue e q data)) (ns @ [n]) = ll_list q ns @ [data]"
    by (cases "fst (node_alloc e (ll_pool q))") (simp_all add: enqueue_append[OF rep] ll_list_def)
  have first: "ln_next (ll_cells q Head) = Some (after_gap ns)" using ll_gap_links(1)[OF rep, of 0] by simp
  then show "muggle_queue_front q = (if ns = [] then None else Some (Node (hd ns)))"
    by (cases ns) (simp_all add: muggle_queue_front_def muggle_queue_is_empty_def)
  show "\<exists>q' freed. muggle_queue_dequeue q func_free = Some (q', freed) \<and> ll_rep q' (tl ns) \<and>
       ll_list q' (tl ns) = tl (ll_list q ns) \<and>
       freed = (if func_free then filter (\<lambda>d. d \<noteq> None) (take 1 (ll_list q ns)) else [])"
  proof (cases ns)
    case Nil
    then show ?thesis using first rep
      by (simp add: muggle_queue_dequeue_def muggle_queue_is_empty_def ll_list_def)
  next
    case (Cons n ys)
    obtain q1 freed where fd: "muggle_linked_list_free_data q n func_free = (q1, freed)" by fastforce
    note d = ll_free_data[OF fd]
    have rep1: "ll_rep q1 ([] @ n # ys)" using d(1)[of ns] rep Cons by simp
    have "n \<notin> set ys" using rep Cons by (simp add: ll_rep_def)
    then have "ll_list (muggle_linked_list_free_node q1 n) ys = ll_list q ys"
      using ll_take_out(2)[OF rep1] d(2) by simp
    then show ?thesis
      using first Cons fd ll_take_out(1)[OF rep1] d(3)
      by (simp add: muggle_queue_dequeue_def muggle_queue_is_empty_def queue_list_ops ll_list_def)
  qed
qed

theorem queue_fifo_witness:
  "ll_list (snd (muggle_queue_enqueue ll_demo_env ll_demo (Some 6))) [Malloced 7, Malloced 8] = [Some 5, Some 6] \<and>
   (\<exists>q'. muggle_queue_dequeue ll_demo True = Some (q', [Some 5]) \<and> ll_rep q' [])"
  using queue_fifo[OF ll_demo_rep, of ll_demo_env "Some 6" True] by (auto simp: ll_demo_list)

end
