(* ===== verification/Hash_Table.thy ===== *)
theory Hash_Table
  imports Node_Alloc
begin

text \<open>
  The chained hash table (\<^verbatim>\<open>muggle/c/dsaa/hash_table.c\<close>, \<^verbatim>\<open>hash_table.h\<close>) at the level of its
  pointers: the slots of the table are the heads of doubly linked chains that end in NULL. The lemmas
  relate the store to the lists of nodes of the slots; the theorems give the laws of a dictionary.
\<close>

section \<open>State\<close>

datatype hash_ref = Slot nat | Entry node_addr

record ('k, 'v) hash_node =
  hn_prev :: "hash_ref ptr"
  hn_next :: "hash_ref ptr"
  hn_key :: "'k ptr"
  hn_value :: "'v ptr"

record ('k, 'v) hash_table =
  ht_cells :: "hash_ref \<Rightarrow> ('k, 'v) hash_node"
  ht_table_size :: nat
  ht_hash :: "'k ptr \<Rightarrow> nat"
  ht_cmp :: "'k ptr \<Rightarrow> 'k ptr \<Rightarrow> int"
  ht_pool :: "memory_pool ptr"

definition HASH_TABLE_SIZE_10007 :: nat where
  "HASH_TABLE_SIZE_10007 = 10007"

section \<open>Operations\<close>

text \<open>The default hash of a string, up to its terminating NUL; \<^verbatim>\<open>char\<close> is signed.\<close>

definition schar :: "char \<Rightarrow> int" where
  "schar c = (if of_char c \<ge> (128 :: int) then of_char c - 256 else of_char c)"

fun default_str_hash_loop :: "nat \<Rightarrow> string \<Rightarrow> nat" where
  "default_str_hash_loop hash_val [] = hash_val"
| "default_str_hash_loop hash_val (c # p) =
    (if of_char c = (0 :: nat) then hash_val
     else default_str_hash_loop (to_u64 (int (u64 (hash_val * 32)) + schar c)) p)"

definition s_muggle_default_str_hash_func :: "string \<Rightarrow> nat" where
  "s_muggle_default_str_hash_func data = default_str_hash_loop 0 data"

text \<open>
  \<open>as_str\<close> gives the characters a key pointer denotes, for the default hash. \<open>table_mem\<close> tells
  whether the slot array could be allocated, \<open>mem\<close> is the memory of the nodes. A failed
  initialisation is \<open>Some None\<close>. The size in bytes of the slot array is computed in \<^verbatim>\<open>size_t\<close>; where it
  wraps, the loop that clears the slots leaves the array: the outer \<open>None\<close>.
\<close>

definition muggle_hash_table_init ::
    "bool \<Rightarrow> mp_mallocs \<Rightarrow> bool \<Rightarrow> (hash_ref \<Rightarrow> ('k, 'v) hash_node) \<Rightarrow> ('k ptr \<Rightarrow> string) \<Rightarrow> nat \<Rightarrow>
      ('k ptr \<Rightarrow> nat) ptr \<Rightarrow> ('k ptr \<Rightarrow> 'k ptr \<Rightarrow> int) ptr \<Rightarrow> nat \<Rightarrow> ('k, 'v) hash_table ptr option" where
  "muggle_hash_table_init pool_mem m table_mem mem as_str table_size hash cmp capacity =
    (case cmp of
       None \<Rightarrow> Some None
     | Some cmp \<Rightarrow>
         case node_pool_init pool_mem m capacity 32 of
           None \<Rightarrow> Some None
         | Some pool \<Rightarrow>
             let table_size = (if table_size < 8 then HASH_TABLE_SIZE_10007 else table_size) in
             if \<not> table_mem then Some None
             else if cells 32 table_size < table_size then None
             else
               let zero = \<lparr>hn_prev = None, hn_next = None, hn_key = None, hn_value = None\<rparr>;
                   c = (\<lambda>r. case r of Slot i \<Rightarrow> if i < table_size then zero else mem r | Entry _ \<Rightarrow> mem r);
                   hash = (case hash of None \<Rightarrow> (\<lambda>k. s_muggle_default_str_hash_func (as_str k)) | Some f \<Rightarrow> f)
               in Some (Some \<lparr>ht_cells = c, ht_table_size = table_size, ht_hash = hash, ht_cmp = cmp,
                              ht_pool = pool\<rparr>))"

text \<open>The loop of \<open>find\<close> and \<open>put\<close>; the outer \<open>None\<close> is a loop that does not end.\<close>

partial_function (option) ht_search ::
    "('k ptr \<Rightarrow> 'k ptr \<Rightarrow> int) \<Rightarrow> 'k ptr \<Rightarrow> (hash_ref \<Rightarrow> ('k, 'v) hash_node) \<Rightarrow> hash_ref ptr \<Rightarrow>
      hash_ref ptr option" where
  "ht_search cmp key c node =
    (case node of
       None \<Rightarrow> Some None
     | Some r \<Rightarrow>
         if cmp (hn_key (c r)) key = 0 then Some (Some r)
         else ht_search cmp key c (hn_next (c r)))"

definition muggle_hash_table_find :: "('k, 'v) hash_table \<Rightarrow> 'k ptr \<Rightarrow> hash_ref ptr option" where
  "muggle_hash_table_find h key =
    (let hash_val = ht_hash h key;
         idx = hash_val mod ht_table_size h
     in ht_search (ht_cmp h) key (ht_cells h) (hn_next (ht_cells h (Slot idx))))"

definition muggle_hash_table_put ::
    "node_env \<Rightarrow> ('k, 'v) hash_table \<Rightarrow> 'k ptr \<Rightarrow> 'v ptr \<Rightarrow> (hash_ref ptr \<times> ('k, 'v) hash_table) option" where
  "muggle_hash_table_put e h key val =
    (let hash_val = ht_hash h key;
         idx = hash_val mod ht_table_size h;
         head = Slot idx
     in case ht_search (ht_cmp h) key (ht_cells h) (hn_next (ht_cells h head)) of
          None \<Rightarrow> None
        | Some (Some _) \<Rightarrow> Some (None, h)
        | Some None \<Rightarrow>
            let (new_node, pool) = node_alloc e (ht_pool h);
                h = h\<lparr>ht_pool := pool\<rparr>
            in case new_node of
                 None \<Rightarrow> Some (None, h)
               | Some a \<Rightarrow>
                   let n = Entry a; c = ht_cells h;
                       c = c(n := \<lparr>hn_prev = Some head, hn_next = hn_next (c head), hn_key = key, hn_value = val\<rparr>);
                       c = c(head := (c head)\<lparr>hn_next := Some n\<rparr>);
                       c = (case hn_next (c n) of
                              None \<Rightarrow> c
                            | Some x \<Rightarrow> c(x := (c x)\<lparr>hn_prev := Some n\<rparr>))
                   in Some (Some n, h\<lparr>ht_cells := c\<rparr>))"

definition muggle_hash_table_remove ::
    "('k, 'v) hash_table \<Rightarrow> node_addr \<Rightarrow> bool \<Rightarrow> bool \<Rightarrow> ('k, 'v) hash_table \<times> 'k ptr list \<times> 'v ptr list" where
  "muggle_hash_table_remove h a key_free value_free =
    (let node = Entry a; c = ht_cells h;
         ks = release_data key_free (hn_key (c node));
         vs = release_data value_free (hn_value (c node));
         c = c(node := (c node)\<lparr>hn_key := None, hn_value := None\<rparr>);
         prev = the (hn_prev (c node));
         nxt = hn_next (c node);
         c = c(prev := (c prev)\<lparr>hn_next := nxt\<rparr>);
         c = (case nxt of None \<Rightarrow> c | Some x \<Rightarrow> c(x := (c x)\<lparr>hn_prev := Some prev\<rparr>))
     in (h\<lparr>ht_cells := c, ht_pool := node_free (ht_pool h) a\<rparr>, ks, vs))"

partial_function (option) ht_clear_slot ::
    "bool \<Rightarrow> bool \<Rightarrow> hash_ref ptr \<Rightarrow> ('k, 'v) hash_table \<Rightarrow> 'k ptr list \<Rightarrow> 'v ptr list \<Rightarrow>
      (('k, 'v) hash_table \<times> 'k ptr list \<times> 'v ptr list) option" where
  "ht_clear_slot key_free value_free node h ks vs =
    (case node of
       None \<Rightarrow> Some (h, ks, vs)
     | Some (Slot _) \<Rightarrow> None
     | Some (Entry a) \<Rightarrow>
         let nxt = hn_next (ht_cells h (Entry a));
             (h, k, v) = muggle_hash_table_remove h a key_free value_free
         in ht_clear_slot key_free value_free nxt h (ks @ k) (vs @ v))"

fun ht_clear_from ::
    "bool \<Rightarrow> bool \<Rightarrow> nat \<Rightarrow> nat \<Rightarrow> ('k, 'v) hash_table \<Rightarrow> 'k ptr list \<Rightarrow> 'v ptr list \<Rightarrow>
      (('k, 'v) hash_table \<times> 'k ptr list \<times> 'v ptr list) option" where
  "ht_clear_from key_free value_free i 0 h ks vs = Some (h, ks, vs)"
| "ht_clear_from key_free value_free i (Suc n) h ks vs =
    (case ht_clear_slot key_free value_free (hn_next (ht_cells h (Slot i))) h ks vs of
       None \<Rightarrow> None
     | Some (h, ks, vs) \<Rightarrow> ht_clear_from key_free value_free (i + 1) n h ks vs)"

definition muggle_hash_table_clear ::
    "('k, 'v) hash_table \<Rightarrow> bool \<Rightarrow> bool \<Rightarrow> (('k, 'v) hash_table \<times> 'k ptr list \<times> 'v ptr list) option" where
  "muggle_hash_table_clear h key_free value_free =
    ht_clear_from key_free value_free 0 (ht_table_size h) h [] []"

definition muggle_hash_table_destroy ::
    "('k, 'v) hash_table \<Rightarrow> bool \<Rightarrow> bool \<Rightarrow> (('k, 'v) hash_table \<times> 'k ptr list \<times> 'v ptr list) option" where
  "muggle_hash_table_destroy h key_free value_free =
    (case muggle_hash_table_clear h key_free value_free of
       None \<Rightarrow> None
     | Some (h, ks, vs) \<Rightarrow>
         Some (h\<lparr>ht_pool := map_option muggle_memory_pool_destroy (ht_pool h)\<rparr>, ks, vs))"

section \<open>Chains that end in NULL\<close>

definition first_entry :: "node_addr list \<Rightarrow> hash_ref ptr" where
  "first_entry ns = (case ns of [] \<Rightarrow> None | n # _ \<Rightarrow> Some (Entry n))"

definition last_ref :: "nat \<Rightarrow> node_addr list \<Rightarrow> hash_ref" where
  "last_ref i ns = last (Slot i # map Entry ns)"

text \<open>The chain of slot \<open>i\<close>.\<close>

definition slot_chain :: "(hash_ref \<Rightarrow> ('k, 'v) hash_node) \<Rightarrow> nat \<Rightarrow> node_addr list \<Rightarrow> bool" where
  "slot_chain c i ns \<longleftrightarrow>
    links (\<lambda>r. hn_next (c r)) (\<lambda>r. hn_prev (c r)) (Slot i # map Entry ns) \<and> hn_next (c (last_ref i ns)) = None"

lemma first_entry_simps [simp]: "first_entry [] = None" "first_entry (n # ns) = Some (Entry n)"
  by (simp_all add: first_entry_def)

lemma last_ref_simps [simp]: "last_ref i [] = Slot i" "last_ref i (xs @ [n]) = Entry n"
    "ys \<noteq> [] \<Longrightarrow> last_ref i (xs @ ys) = last_ref i ys" "ys \<noteq> [] \<Longrightarrow> last_ref i ys = Entry (last ys)"
  by (auto simp: last_ref_def last_map)

lemma last_ref_in: "last_ref i ns \<in> insert (Slot i) (Entry ` set ns)"
  by (auto simp: last_ref_def last_map)

lemma slot_next:
  assumes "slot_chain c i (xs @ ys)"
  shows "hn_next (c (last_ref i xs)) = first_entry ys"
proof (cases ys)
  case Nil
  with assms show ?thesis by (simp add: slot_chain_def)
next
  case (Cons n zs)
  have "Slot i # map Entry xs = butlast (Slot i # map Entry xs) @ [last_ref i xs]"
    by (simp only: last_ref_def append_butlast_last_id list.distinct not_False_eq_True)
  then have "Slot i # map Entry (xs @ ys) = butlast (Slot i # map Entry xs) @ last_ref i xs # Entry n # map Entry zs"
    using Cons by (metis append.assoc append_Cons append_Nil list.simps(9) map_append)
  then show ?thesis using assms Cons by (simp only: slot_chain_def links_append first_entry_simps)
qed

lemma slot_prev:
  assumes "slot_chain c i (xs @ n # ys)"
  shows "hn_prev (c (Entry n)) = Some (last_ref i xs)"
proof -
  have "Slot i # map Entry xs = butlast (Slot i # map Entry xs) @ [last_ref i xs]"
    by (simp only: last_ref_def append_butlast_last_id list.distinct not_False_eq_True)
  then have "Slot i # map Entry (xs @ n # ys) = butlast (Slot i # map Entry xs) @ last_ref i xs # Entry n # map Entry ys"
    by (metis append.assoc append_Cons append_Nil list.simps(9) map_append)
  then show ?thesis using assms by (simp only: slot_chain_def links_append)
qed

text \<open>Writes away from a chain keep it.\<close>

lemma slot_frame:
  assumes "slot_chain c i ns"
    and "\<And>r. r \<in> insert (Slot i) (Entry ` set ns) \<Longrightarrow> hn_next (c' r) = hn_next (c r) \<and> hn_prev (c' r) = hn_prev (c r)"
  shows "slot_chain c' i ns"
proof -
  have "links (\<lambda>r. hn_next (c' r)) (\<lambda>r. hn_prev (c' r)) (Slot i # map Entry ns)"
    using assms by (auto simp: slot_chain_def intro!: links_cong[of "\<lambda>r. hn_next (c r)" "\<lambda>r. hn_prev (c r)"]
        dest!: in_set_butlastD split: if_splits)
  then show ?thesis using assms(1) assms(2)[OF last_ref_in] by (simp add: slot_chain_def)
qed

lemma slot_put:
  assumes chain: "slot_chain c i ns" and new: "distinct ns" "n \<notin> set ns"
    and c': "\<And>r. hn_next (c' r) = (if r = Slot i then Some (Entry n) else if r = Entry n then first_entry ns else hn_next (c r))"
      "\<And>r. hn_prev (c' r) = (if r = Entry n then Some (Slot i) else if Some r = first_entry ns then Some (Entry n) else hn_prev (c r))"
  shows "slot_chain c' i (n # ns)"
proof (cases ns)
  case Nil
  then show ?thesis by (simp add: slot_chain_def links_Cons2 c')
next
  case (Cons m ms)
  have "links (\<lambda>r. hn_next (c r)) (\<lambda>r. hn_prev (c r)) ([] @ Slot i # Entry m # map Entry ms)"
    using chain Cons by (simp add: slot_chain_def)
  from links_link[OF this, of "Entry n"] new Cons
  have "links (\<lambda>r. hn_next (c' r)) (\<lambda>r. hn_prev (c' r)) ([] @ Slot i # Entry n # Entry m # map Entry ms)"
    by (force simp: c' distinct_map inj_on_def)
  moreover have "last ns \<noteq> n" using new Cons by (metis last_in_set list.distinct(1))
  ultimately show ?thesis using chain Cons by (auto simp: slot_chain_def c')
qed

lemma slot_remove:
  assumes chain: "slot_chain c i (xs @ n # ys)" and new: "distinct (xs @ n # ys)"
    and c': "\<And>r. hn_next (c' r) = (if r = last_ref i xs then first_entry ys else hn_next (c r))"
      "\<And>r. hn_prev (c' r) = (if Some r = first_entry ys then Some (last_ref i xs) else hn_prev (c r))"
  shows "slot_chain c' i (xs @ ys)"
proof -
  define us where "us = butlast (Slot i # map Entry xs)"
  have us: "Slot i # map Entry xs = us @ [last_ref i xs]"
    by (simp only: us_def last_ref_def append_butlast_last_id list.distinct not_False_eq_True)
  have eq: "Slot i # map Entry (xs @ zs) = us @ last_ref i xs # map Entry zs" for zs
    using us by (metis append.assoc append_Cons append_Nil map_append)
  have d: "distinct (us @ last_ref i xs # map Entry (n # ys))"
  proof -
    have "distinct (Slot i # map Entry (xs @ n # ys))" using new by (auto simp: distinct_map inj_on_def)
    then show ?thesis by (simp only: eq)
  qed
  have links: "links (\<lambda>r. hn_next (c r)) (\<lambda>r. hn_prev (c r)) (us @ last_ref i xs # map Entry (n # ys))"
    using chain by (simp only: slot_chain_def eq)
  show ?thesis
  proof (cases ys)
    case Nil
    have "links (\<lambda>r. hn_next (c r)) (\<lambda>r. hn_prev (c r)) (us @ [last_ref i xs])"
      using links by (simp only: list.map links_append)
    then have "links (\<lambda>r. hn_next (c' r)) (\<lambda>r. hn_prev (c' r)) (us @ [last_ref i xs])"
      using d Nil by (auto intro!: links_cong[of "\<lambda>r. hn_next (c r)" "\<lambda>r. hn_prev (c r)"] simp: c' butlast_append)
    then show ?thesis using Nil by (simp add: slot_chain_def us c')
  next
    case (Cons m ms)
    have "links (\<lambda>r. hn_next (c r)) (\<lambda>r. hn_prev (c r)) (us @ last_ref i xs # Entry n # Entry m # map Entry ms)"
      "distinct (us @ last_ref i xs # Entry n # Entry m # map Entry ms)"
      using links d Cons by simp_all
    then have "links (\<lambda>r. hn_next (c' r)) (\<lambda>r. hn_prev (c' r)) (us @ last_ref i xs # Entry m # map Entry ms)"
      by (rule links_unlink) (auto simp: c' Cons)
    then have "links (\<lambda>r. hn_next (c' r)) (\<lambda>r. hn_prev (c' r)) (Slot i # map Entry (xs @ ys))"
      by (simp only: eq Cons list.map)
    moreover have "last_ref i (xs @ ys) \<noteq> last_ref i xs"
    proof -
      have "last_ref i (xs @ ys) \<in> set (map Entry ys)" using Cons by auto
      moreover have "last_ref i xs \<notin> set (map Entry ys)" using d Cons by simp
      ultimately show ?thesis by metis
    qed
    moreover have "last_ref i (xs @ n # ys) = last_ref i (xs @ ys)" using Cons by simp
    ultimately show ?thesis using chain by (simp only: slot_chain_def c' if_False simp_thms)
  qed
qed

section \<open>The table as lists of nodes\<close>

definition ht_key :: "('k, 'v) hash_table \<Rightarrow> node_addr \<Rightarrow> 'k ptr" where
  "ht_key h n = hn_key (ht_cells h (Entry n))"

definition ht_value :: "('k, 'v) hash_table \<Rightarrow> node_addr \<Rightarrow> 'v ptr" where
  "ht_value h n = hn_value (ht_cells h (Entry n))"

definition ht_idx :: "('k, 'v) hash_table \<Rightarrow> 'k ptr \<Rightarrow> nat" where
  "ht_idx h key = ht_hash h key mod ht_table_size h"

text \<open>
  \<open>bs ! i\<close> are the nodes of slot \<open>i\<close>: chains without sharing, every node in the slot of its key,
  and no two nodes with equal keys.
\<close>

definition ht_rep :: "('k, 'v) hash_table \<Rightarrow> node_addr list list \<Rightarrow> bool" where
  "ht_rep h bs \<longleftrightarrow>
     0 < ht_table_size h \<and> length bs = ht_table_size h \<and>
     (\<forall>i < ht_table_size h. slot_chain (ht_cells h) i (bs ! i)) \<and>
     distinct (concat bs) \<and> node_ok (ht_pool h) (set (concat bs)) \<and>
     (\<forall>i < ht_table_size h. \<forall>n \<in> set (bs ! i). ht_idx h (ht_key h n) = i) \<and>
     (\<forall>n \<in> set (concat bs). \<forall>n' \<in> set (concat bs). ht_cmp h (ht_key h n) (ht_key h n') = 0 \<longrightarrow> n = n')"

text \<open>A new table, and a table whose size in bytes wraps.\<close>

lemma ht_init_rep:
  assumes "muggle_hash_table_init pool_mem m table_mem mem as_str table_size hash cmp capacity = Some (Some h)"
    and "\<And>p. ht_pool h = Some p \<Longrightarrow> mp_fits 32 (mp_capacity p)"
  shows "ht_rep h (replicate (ht_table_size h) [])"
proof -
  from assms(1) obtain pool where pool: "node_pool_init pool_mem m capacity 32 = Some pool" "ht_pool h = pool"
    by (auto simp: muggle_hash_table_init_def Let_def split: option.splits if_splits)
  have ok: "node_ok (ht_pool h) {}" using node_pool_init_ok[OF pool(1)] assms(2) pool(2) by simp
  have size: "8 \<le> ht_table_size h"
    using assms(1) by (auto simp: muggle_hash_table_init_def HASH_TABLE_SIZE_10007_def Let_def split: option.splits if_splits)
  have "hn_next (ht_cells h (Slot i)) = None" if "i < ht_table_size h" for i
    using assms(1) that by (auto simp: muggle_hash_table_init_def Let_def split: option.splits if_splits)
  then show ?thesis using ok size by (simp add: ht_rep_def slot_chain_def)
qed

lemma ht_init_wraps:
  "muggle_hash_table_init pool_mem m True mem as_str (2 ^ 59 + 8) hash (Some cmp) 0 = None"
proof -
  have "(2 ^ 59 + 8 :: nat) = 576460752303423496" by simp
  then show ?thesis by (simp only: muggle_hash_table_init_def) (simp add: node_pool_init_def cells_def u64_def Let_def)
qed

text \<open>Keys that compare equal have equal hashes.\<close>

definition hash_respects :: "('k, 'v) hash_table \<Rightarrow> bool" where
  "hash_respects h \<longleftrightarrow> (\<forall>x y. ht_cmp h x y = 0 \<longrightarrow> ht_hash h x = ht_hash h y)"

lemma ht_search_eq:
  assumes "slot_chain c i (xs @ ys)"
  shows "ht_search cmp key c (first_entry ys) = Some (map_option Entry (find (\<lambda>n. cmp (hn_key (c (Entry n))) key = 0) ys))"
  using assms
proof (induction ys arbitrary: xs)
  case Nil
  then show ?case by (subst ht_search.simps) simp
next
  case (Cons n ys)
  have s: "slot_chain c i ((xs @ [n]) @ ys)" using Cons.prems by simp
  have "hn_next (c (Entry n)) = first_entry ys" using slot_next[OF s] by simp
  then show ?case using Cons.IH[OF s] by (subst ht_search.simps) simp
qed

lemma ht_repD:
  assumes "ht_rep h bs"
  shows "0 < ht_table_size h" "length bs = ht_table_size h" "distinct (concat bs)"
    "node_ok (ht_pool h) (set (concat bs))"
    "\<And>i. i < ht_table_size h \<Longrightarrow> slot_chain (ht_cells h) i (bs ! i)"
    "\<And>i n. i < ht_table_size h \<Longrightarrow> n \<in> set (bs ! i) \<Longrightarrow> ht_idx h (ht_key h n) = i"
    "\<And>n n'. n \<in> set (concat bs) \<Longrightarrow> n' \<in> set (concat bs) \<Longrightarrow> ht_cmp h (ht_key h n) (ht_key h n') = 0 \<Longrightarrow> n = n'"
  using assms unfolding ht_rep_def by blast+

lemma ht_repI:
  assumes "0 < ht_table_size h" "length bs = ht_table_size h" "distinct (concat bs)"
    "node_ok (ht_pool h) (set (concat bs))"
    "\<And>i. i < ht_table_size h \<Longrightarrow> slot_chain (ht_cells h) i (bs ! i)"
    "\<And>i n. i < ht_table_size h \<Longrightarrow> n \<in> set (bs ! i) \<Longrightarrow> ht_idx h (ht_key h n) = i"
    "\<And>n n'. n \<in> set (concat bs) \<Longrightarrow> n' \<in> set (concat bs) \<Longrightarrow> ht_cmp h (ht_key h n) (ht_key h n') = 0 \<Longrightarrow> n = n'"
  shows "ht_rep h bs"
  using assms unfolding ht_rep_def by blast

lemma in_concat_nth: "n \<in> set (concat bs) \<longleftrightarrow> (\<exists>i < length bs. n \<in> set (bs ! i))"
  by (simp only: set_concat UN_iff) (metis in_set_conv_nth)

lemma ht_concat_iff:
  assumes "ht_rep h bs"
  shows "n \<in> set (concat bs) \<longleftrightarrow> ht_idx h (ht_key h n) < ht_table_size h \<and> n \<in> set (bs ! ht_idx h (ht_key h n))"
  using ht_repD(2,6)[OF assms] by (metis in_concat_nth)

text \<open>The search in the slot of a key finds the node of the whole table with an equal key.\<close>

lemma ht_find_eq:
  assumes cmp: "data_cmp (ht_cmp h)" and hash: "hash_respects h" and rep: "ht_rep h bs"
  shows "ht_search (ht_cmp h) key (ht_cells h) (hn_next (ht_cells h (Slot (ht_idx h key)))) = Some r \<longleftrightarrow>
    (case r of
       None \<Rightarrow> \<forall>n \<in> set (concat bs). ht_cmp h (ht_key h n) key \<noteq> 0
     | Some x \<Rightarrow> \<exists>n \<in> set (concat bs). ht_cmp h (ht_key h n) key = 0 \<and> x = Entry n)"
proof -
  let ?i = "ht_idx h key" and ?P = "\<lambda>n. ht_cmp h (ht_key h n) key = 0"
  have i: "?i < ht_table_size h" using ht_repD(1)[OF rep] by (simp add: ht_idx_def)
  have chain: "slot_chain (ht_cells h) ?i ([] @ bs ! ?i)" using ht_repD(5)[OF rep i] by simp
  have search: "ht_search (ht_cmp h) key (ht_cells h) (hn_next (ht_cells h (Slot ?i))) =
      Some (map_option Entry (find ?P (bs ! ?i)))"
    using ht_search_eq[OF chain] slot_next[OF chain] by (simp add: ht_key_def)
  have slot: "n \<in> set (bs ! ?i) \<longleftrightarrow> n \<in> set (concat bs)" if "?P n" for n
    unfolding ht_concat_iff[OF rep] using that hash i by (auto simp: hash_respects_def ht_idx_def)
  have uniq: "n = m" if "n \<in> set (concat bs)" "?P n" "m \<in> set (concat bs)" "?P m" for n m
  proof -
    have "ht_cmp h key (ht_key h m) = 0" using that(4) data_cmp.cmp_zero_iff[OF cmp] by blast
    with that(2) have "ht_cmp h (ht_key h n) (ht_key h m) = 0" by (rule data_cmp.cmp_zero_trans[OF cmp])
    with that(1,3) show ?thesis by (rule ht_repD(7)[OF rep])
  qed
  show ?thesis
  proof (cases "find ?P (bs ! ?i)")
    case None
    then have "\<not> ?P n" if "n \<in> set (concat bs)" for n using slot[of n] that by (auto simp: find_None_iff)
    then show ?thesis unfolding search None by (auto split: option.splits)
  next
    case (Some n)
    then have "?P n" "n \<in> set (bs ! ?i)" by (auto simp: find_Some_iff)
    then have "n \<in> set (concat bs)" "?P n" using slot by simp_all
    then show ?thesis unfolding search Some using uniq by (auto split: option.splits)
  qed
qed

section \<open>Putting and removing a node\<close>

lemma concat_upd:
  assumes "i < length bs"
  shows "mset (concat (bs[i := x])) = mset (concat (take i bs)) + mset x + mset (concat (drop (Suc i) bs))"
    "concat bs = concat (take i bs) @ bs ! i @ concat (drop (Suc i) bs)"
proof -
  show "mset (concat (bs[i := x])) = mset (concat (take i bs)) + mset x + mset (concat (drop (Suc i) bs))"
    using assms by (simp add: upd_conv_take_nth_drop)
  show "concat bs = concat (take i bs) @ bs ! i @ concat (drop (Suc i) bs)"
    using arg_cong[OF id_take_nth_drop[OF assms], of concat] by simp
qed

lemma concat_upd_Cons:
  assumes "i < length bs" "distinct (concat bs)" "n \<notin> set (concat bs)"
  shows "set (concat (bs[i := n # bs ! i])) = insert n (set (concat bs))" "distinct (concat (bs[i := n # bs ! i]))"
proof -
  have m: "mset (concat (bs[i := n # bs ! i])) = mset (n # concat bs)"
    using concat_upd(1)[OF assms(1)] concat_upd(2)[OF assms(1)] by simp
  then show "set (concat (bs[i := n # bs ! i])) = insert n (set (concat bs))" by (metis list.simps(15) mset_eq_setD)
  show "distinct (concat (bs[i := n # bs ! i]))" using m assms(2,3) by (metis distinct.simps(2) mset_eq_imp_distinct_iff)
qed

lemma concat_upd_remove:
  assumes "i < length bs" "distinct (concat bs)" "bs ! i = xs @ n # ys"
  shows "set (concat (bs[i := xs @ ys])) = set (concat bs) - {n}" "distinct (concat (bs[i := xs @ ys]))"
proof -
  have m: "mset (n # concat (bs[i := xs @ ys])) = mset (concat bs)"
    using concat_upd(1)[OF assms(1)] concat_upd(2)[OF assms(1)] assms(3) by simp
  then have d: "distinct (n # concat (bs[i := xs @ ys]))" using assms(2) by (metis mset_eq_imp_distinct_iff)
  then show "distinct (concat (bs[i := xs @ ys]))" by simp
  have "set (concat bs) = insert n (set (concat (bs[i := xs @ ys])))" using m by (metis list.simps(15) mset_eq_setD)
  with d show "set (concat (bs[i := xs @ ys])) = set (concat bs) - {n}" by auto
qed

lemma distinct_concat_nth: "distinct (concat bs) \<Longrightarrow> i < length bs \<Longrightarrow> distinct (bs ! i)"
  using concat_upd(2)[of i bs] by (metis distinct_append)

lemma slots_disjoint:
  assumes "ht_rep h bs" "i < ht_table_size h" "j < ht_table_size h" "i \<noteq> j"
  shows "set (bs ! i) \<inter> set (bs ! j) = {}"
  using ht_repD(6)[OF assms(1,2)] ht_repD(6)[OF assms(1,3)] assms(4) by (metis disjoint_iff)

lemma ht_put_rep:
  assumes rep: "ht_rep h bs" and i: "i = ht_idx h key" and fresh: "n \<notin> set (concat bs)"
    and ok: "node_ok (ht_pool h') (insert n (set (concat bs)))"
    and new: "\<forall>m \<in> set (concat bs). ht_cmp h (ht_key h m) key \<noteq> 0 \<and> ht_cmp h key (ht_key h m) \<noteq> 0"
    and same: "ht_hash h' = ht_hash h" "ht_cmp h' = ht_cmp h" "ht_table_size h' = ht_table_size h"
    and cells: "\<And>r. hn_next (ht_cells h' r) =
        (if r = Slot i then Some (Entry n) else if r = Entry n then first_entry (bs ! i) else hn_next (ht_cells h r))"
      "\<And>r. hn_prev (ht_cells h' r) =
        (if r = Entry n then Some (Slot i) else if Some r = first_entry (bs ! i) then Some (Entry n) else hn_prev (ht_cells h r))"
    and keys: "\<And>m. ht_key h' m = (if m = n then key else ht_key h m)"
  shows "ht_rep h' (bs[i := n # bs ! i])"
proof -
  note r = ht_repD[OF rep]
  have il: "i < ht_table_size h" using r(1) i by (simp add: ht_idx_def)
  note cu = concat_upd_Cons[of i bs n, OF _ r(3) fresh]
  have idx: "ht_idx h' k = ht_idx h k" for k using same by (simp add: ht_idx_def)
  have nth: "set (bs ! j) \<subseteq> set (concat bs)" if "j < ht_table_size h" for j
    using that by (intro subsetI) (auto simp only: in_concat_nth r(2))
  have chain: "slot_chain (ht_cells h') j (bs[i := n # bs ! i] ! j)" if j: "j < ht_table_size h" for j
  proof (cases "j = i")
    case True
    have "slot_chain (ht_cells h') i (n # bs ! i)"
    proof (rule slot_put[OF r(5)[OF il] _ _ cells])
      show "distinct (bs ! i)" using distinct_concat_nth[OF r(3)] il r(2) by simp
      show "n \<notin> set (bs ! i)" using fresh nth[OF il] by blast
    qed
    then show ?thesis using True il r(2) by simp
  next
    case False
    have "slot_chain (ht_cells h') j (bs ! j)"
    proof (rule slot_frame[OF r(5)[OF j]])
      fix x assume x: "x \<in> insert (Slot j) (Entry ` set (bs ! j))"
      have "x \<noteq> Slot i" "x \<noteq> Entry n" using x False fresh nth[OF j] by auto
      moreover have "Some x \<noteq> first_entry (bs ! i)"
        using x slots_disjoint[OF rep il j] False by (cases "bs ! i") auto
      ultimately show "hn_next (ht_cells h' x) = hn_next (ht_cells h x) \<and> hn_prev (ht_cells h' x) = hn_prev (ht_cells h x)"
        by (simp add: cells)
    qed
    then show ?thesis using False by simp
  qed
  have slots: "ht_idx h' (ht_key h' m) = j" if "j < ht_table_size h" "m \<in> set (bs[i := n # bs ! i] ! j)" for j m
  proof (cases "m = n")
    case True
    then have "j = i" using that fresh nth[OF that(1)] by (cases "j = i") auto
    with True show ?thesis by (simp add: idx keys i)
  next
    case False
    then have "m \<in> set (bs ! j)" using that il r(2) by (cases "j = i") auto
    then show ?thesis using False r(6)[OF that(1)] by (simp add: idx keys)
  qed
  have uniq: "m = m'" if "m \<in> insert n (set (concat bs))" "m' \<in> insert n (set (concat bs))"
    "ht_cmp h' (ht_key h' m) (ht_key h' m') = 0" for m m'
  proof (cases "m = n \<or> m' = n")
    case True
    then show ?thesis using that new same(2) keys by (metis insertE)
  next
    case False
    then show ?thesis using that r(7)[of m m'] same(2) keys by (metis insertE)
  qed
  have "i < length bs" using il r(2) by simp
  note cu = cu[OF this]
  show ?thesis
    by (rule ht_repI; (unfold cu(1) same(3) length_list_update)?)
      (fact r(1) r(2) cu(2) ok | erule chain | erule slots, assumption | erule uniq, assumption, assumption)+
qed

lemma ht_remove_rep:
  assumes rep: "ht_rep h bs" and i: "i < ht_table_size h" and bs: "bs ! i = xs @ n # ys"
    and run: "muggle_hash_table_remove h n key_free value_free = (h', ks, vs)"
  shows "ht_rep h' (bs[i := xs @ ys])" "m \<noteq> n \<Longrightarrow> ht_key h' m = ht_key h m \<and> ht_value h' m = ht_value h m"
    "ks = release_data key_free (ht_key h n)" "vs = release_data value_free (ht_value h n)"
    "ht_hash h' = ht_hash h" "ht_cmp h' = ht_cmp h" "ht_table_size h' = ht_table_size h"
proof -
  note r = ht_repD[OF rep]
  have chain_i: "slot_chain (ht_cells h) i (xs @ n # ys)" using r(5)[OF i] bs by simp
  have prev: "hn_prev (ht_cells h (Entry n)) = Some (last_ref i xs)" by (rule slot_prev[OF chain_i])
  have nxt: "hn_next (ht_cells h (Entry n)) = first_entry ys" using slot_next[of _ i "xs @ [n]" ys] chain_i by simp
  have dist: "distinct (xs @ n # ys)" using distinct_concat_nth[OF r(3), of i] i by (simp only: bs r(2))
  have ne: "last_ref i xs \<noteq> Entry n" "first_entry ys \<noteq> Some (Entry n)" "first_entry ys \<noteq> Some (last_ref i xs)"
    using dist last_ref_in[of i xs] by (auto simp: first_entry_def split: list.splits)
  have cells: "hn_next (ht_cells h' x) = (if x = last_ref i xs then first_entry ys else hn_next (ht_cells h x))"
    "hn_prev (ht_cells h' x) = (if Some x = first_entry ys then Some (last_ref i xs) else hn_prev (ht_cells h x))"
    "hn_key (ht_cells h' x) = (if x = Entry n then None else hn_key (ht_cells h x))"
    "hn_value (ht_cells h' x) = (if x = Entry n then None else hn_value (ht_cells h x))" for x
    using run ne prev nxt by (auto simp: muggle_hash_table_remove_def Let_def split: option.splits)
  show same: "ht_hash h' = ht_hash h" "ht_cmp h' = ht_cmp h" "ht_table_size h' = ht_table_size h"
    and "ks = release_data key_free (ht_key h n)" "vs = release_data value_free (ht_value h n)"
    using run by (auto simp: muggle_hash_table_remove_def Let_def ht_key_def ht_value_def)
  show keys: "ht_key h' m = ht_key h m \<and> ht_value h' m = ht_value h m" if "m \<noteq> n" for m
    using that by (simp add: ht_key_def ht_value_def cells)
  have pool: "ht_pool h' = node_free (ht_pool h) n"
    using run by (auto simp: muggle_hash_table_remove_def Let_def)
  have "i < length bs" using i r(2) by simp
  note cu = concat_upd_remove[OF this r(3) bs]
  have "n \<in> set (concat bs)" using bs i r(2) in_concat_nth by force
  then have ok: "node_ok (ht_pool h') (set (concat bs) - {n})" unfolding pool by (rule nodes.release_ok[OF r(4)])
  have chain: "slot_chain (ht_cells h') j (bs[i := xs @ ys] ! j)" if j: "j < ht_table_size h" for j
  proof (cases "j = i")
    case True
    then show ?thesis using slot_remove[OF chain_i dist cells(1,2)] i r(2) by simp
  next
    case False
    have "slot_chain (ht_cells h') j (bs ! j)"
    proof (rule slot_frame[OF r(5)[OF j]])
      fix x assume x: "x \<in> insert (Slot j) (Entry ` set (bs ! j))"
      have "set (xs @ n # ys) \<inter> set (bs ! j) = {}" using slots_disjoint[OF rep i j] False bs by simp
      then have "x \<noteq> last_ref i xs" "Some x \<noteq> first_entry ys"
        using x False last_ref_in[of i xs] by (auto simp: first_entry_def split: list.splits)
      then show "hn_next (ht_cells h' x) = hn_next (ht_cells h x) \<and> hn_prev (ht_cells h' x) = hn_prev (ht_cells h x)"
        by (simp add: cells)
    qed
    then show ?thesis using False by simp
  qed
  have idx: "ht_idx h' k = ht_idx h k" for k using same by (simp add: ht_idx_def)
  have slots: "ht_idx h' (ht_key h' m) = j" if "j < ht_table_size h" "m \<in> set (bs[i := xs @ ys] ! j)" for j m
  proof -
    have "m \<in> set (bs ! j)" using that i r(2) bs by (cases "j = i") auto
    moreover have "m \<noteq> n" using that calculation dist bs slots_disjoint[OF rep i that(1)] i r(2) by (cases "j = i") auto
    ultimately show ?thesis using r(6)[OF that(1)] keys by (simp add: idx)
  qed
  have uniq: "m = m'" if "m \<in> set (concat bs) - {n}" "m' \<in> set (concat bs) - {n}"
    "ht_cmp h' (ht_key h' m) (ht_key h' m') = 0" for m m'
    using that r(7)[of m m'] same(2) keys[of m] keys[of m'] by (metis DiffE insertCI)
  show "ht_rep h' (bs[i := xs @ ys])"
    by (rule ht_repI; (unfold cu(1) same(3) length_list_update)?)
      (fact r(1) r(2) cu(2) ok | erule chain | erule slots, assumption | erule uniq, assumption, assumption)+
qed

lemma ht_find_iff:
  assumes "data_cmp (ht_cmp h)" "hash_respects h" "ht_rep h bs"
  shows "muggle_hash_table_find h key = Some r \<longleftrightarrow>
    (case r of
       None \<Rightarrow> \<forall>n \<in> set (concat bs). ht_cmp h (ht_key h n) key \<noteq> 0
     | Some x \<Rightarrow> \<exists>n \<in> set (concat bs). ht_cmp h (ht_key h n) key = 0 \<and> x = Entry n)"
  using ht_find_eq[OF assms, of key r] by (simp only: muggle_hash_table_find_def Let_def ht_idx_def)

lemma ht_find_returns:
  assumes "data_cmp (ht_cmp h)" "hash_respects h" "ht_rep h bs"
  shows "\<exists>r. muggle_hash_table_find h key = Some r"
proof (cases "\<forall>n \<in> set (concat bs). ht_cmp h (ht_key h n) key \<noteq> 0")
  case True
  then have "muggle_hash_table_find h key = Some None" unfolding ht_find_iff[OF assms] by (simp only: option.case)
  then show ?thesis by blast
next
  case False
  then obtain n where "n \<in> set (concat bs)" "ht_cmp h (ht_key h n) key = 0" by blast
  then have "muggle_hash_table_find h key = Some (Some (Entry n))"
    unfolding ht_find_iff[OF assms] option.case by blast
  then show ?thesis by blast
qed

text \<open>Equal searches in two tables, from equal members up to one node.\<close>

lemma ht_find_transfer:
  assumes a: "data_cmp (ht_cmp h)" "hash_respects h" "ht_rep h bs"
    and b: "data_cmp (ht_cmp h')" "hash_respects h'" "ht_rep h' bs'"
    and same: "\<And>n. n \<in> set (concat bs) \<and> ht_cmp h (ht_key h n) key = 0 \<longleftrightarrow>
      n \<in> set (concat bs') \<and> ht_cmp h' (ht_key h' n) key = 0"
  shows "muggle_hash_table_find h' key = muggle_hash_table_find h key"
proof -
  obtain r where r: "muggle_hash_table_find h key = Some r" using ht_find_returns[OF a] by blast
  then have "muggle_hash_table_find h' key = Some r"
    unfolding ht_find_iff[OF a] ht_find_iff[OF b] using same by (cases r; simp only: option.case; blast)
  with r show ?thesis by simp
qed

lemma ht_put_run:
  assumes rep: "ht_rep h bs" and none: "muggle_hash_table_find h key = Some None"
    and alloc: "node_alloc e (ht_pool h) = (Some n, pool)" and fresh: "n \<notin> set (concat bs)"
  obtains h' where "muggle_hash_table_put e h key val = Some (Some (Entry n), h')"
    "ht_pool h' = pool" "ht_hash h' = ht_hash h" "ht_cmp h' = ht_cmp h" "ht_table_size h' = ht_table_size h"
    "\<And>r. hn_next (ht_cells h' r) = (if r = Slot (ht_idx h key) then Some (Entry n)
       else if r = Entry n then first_entry (bs ! ht_idx h key) else hn_next (ht_cells h r))"
    "\<And>r. hn_prev (ht_cells h' r) = (if r = Entry n then Some (Slot (ht_idx h key))
       else if Some r = first_entry (bs ! ht_idx h key) then Some (Entry n) else hn_prev (ht_cells h r))"
    "\<And>m. ht_key h' m = (if m = n then key else ht_key h m)"
    "\<And>m. ht_value h' m = (if m = n then val else ht_value h m)"
proof -
  let ?i = "ht_idx h key" and ?c = "ht_cells h"
  note r = ht_repD[OF rep]
  have il: "?i < ht_table_size h" using r(1) by (simp add: ht_idx_def)
  have chain: "slot_chain ?c ?i ([] @ bs ! ?i)" using r(5)[OF il] by simp
  have nxt: "hn_next (?c (Slot ?i)) = first_entry (bs ! ?i)" using slot_next[OF chain] by simp
  have ne: "first_entry (bs ! ?i) \<noteq> Some (Entry n)"
    using fresh il r(2) unfolding in_concat_nth by (cases "bs ! ?i") (auto simp: first_entry_def)
  define c1 where "c1 = ?c(Entry n := \<lparr>hn_prev = Some (Slot ?i), hn_next = hn_next (?c (Slot ?i)), hn_key = key, hn_value = val\<rparr>)"
  define c2 where "c2 = c1(Slot ?i := (c1 (Slot ?i))\<lparr>hn_next := Some (Entry n)\<rparr>)"
  define c3 where "c3 = (case hn_next (c2 (Entry n)) of None \<Rightarrow> c2 | Some x \<Rightarrow> c2(x := (c2 x)\<lparr>hn_prev := Some (Entry n)\<rparr>))"
  have run: "muggle_hash_table_put e h key val = Some (Some (Entry n), h\<lparr>ht_pool := pool, ht_cells := c3\<rparr>)"
    using none alloc
    by (cases "hn_next (ht_cells h (Slot (ht_hash h key mod ht_table_size h)))")
      (simp_all add: muggle_hash_table_put_def muggle_hash_table_find_def Let_def ht_idx_def c1_def c2_def c3_def)
  have n2: "hn_next (c2 (Entry n)) = first_entry (bs ! ?i)" by (simp add: c2_def c1_def nxt)
  show ?thesis
  proof (rule that[OF run])
    fix x m
    show "hn_next (ht_cells (h\<lparr>ht_pool := pool, ht_cells := c3\<rparr>) x) = (if x = Slot ?i then Some (Entry n)
       else if x = Entry n then first_entry (bs ! ?i) else hn_next (?c x))"
      by (cases "first_entry (bs ! ?i)") (auto simp: c3_def n2 c2_def c1_def nxt)
    show "hn_prev (ht_cells (h\<lparr>ht_pool := pool, ht_cells := c3\<rparr>) x) = (if x = Entry n then Some (Slot ?i)
       else if Some x = first_entry (bs ! ?i) then Some (Entry n) else hn_prev (?c x))"
      using ne by (cases "first_entry (bs ! ?i)") (auto simp: c3_def n2 c2_def c1_def nxt)
    show "ht_key (h\<lparr>ht_pool := pool, ht_cells := c3\<rparr>) m = (if m = n then key else ht_key h m)"
      "ht_value (h\<lparr>ht_pool := pool, ht_cells := c3\<rparr>) m = (if m = n then val else ht_value h m)"
      by (cases "first_entry (bs ! ?i)"; auto simp: ht_key_def ht_value_def c3_def n2 c2_def c1_def nxt)+
  qed simp_all
qed

lemma ht_put_new:
  assumes cmp: "data_cmp (ht_cmp h)" and hash: "hash_respects h" and rep: "ht_rep h bs"
    and good: "node_good e (ht_pool h) (set (concat bs))"
    and f: "muggle_hash_table_find h key = Some None" and a: "node_alloc e (ht_pool h) = (Some n, pool)"
  shows "\<exists>h' bs'. muggle_hash_table_put e h key val = Some (Some (Entry n), h') \<and> n \<notin> set (concat bs) \<and>
    ht_rep h' bs' \<and> set (concat bs') = insert n (set (concat bs)) \<and> ht_key h' n = key \<and> ht_value h' n = val \<and>
    (\<forall>m \<in> set (concat bs). ht_key h' m = ht_key h m \<and> ht_value h' m = ht_value h m) \<and>
    (\<forall>k. muggle_hash_table_find h' k =
       (if ht_cmp h key k = 0 then Some (Some (Entry n)) else muggle_hash_table_find h k))"
proof -
  note r = ht_repD[OF rep]
  have al: "n \<notin> set (concat bs)" "node_ok pool (insert n (set (concat bs)))"
    using a nodes.alloc_some[OF r(4) good] by simp_all
  obtain h' where h': "muggle_hash_table_put e h key val = Some (Some (Entry n), h')"
    "ht_pool h' = pool" "ht_hash h' = ht_hash h" "ht_cmp h' = ht_cmp h" "ht_table_size h' = ht_table_size h"
    "\<And>r. hn_next (ht_cells h' r) = (if r = Slot (ht_idx h key) then Some (Entry n)
       else if r = Entry n then first_entry (bs ! ht_idx h key) else hn_next (ht_cells h r))"
    "\<And>r. hn_prev (ht_cells h' r) = (if r = Entry n then Some (Slot (ht_idx h key))
       else if Some r = first_entry (bs ! ht_idx h key) then Some (Entry n) else hn_prev (ht_cells h r))"
    "\<And>m. ht_key h' m = (if m = n then key else ht_key h m)"
    "\<And>m. ht_value h' m = (if m = n then val else ht_value h m)"
    by (rule ht_put_run[OF rep f a al(1), of val]) (rule that)
  have absent: "\<forall>m \<in> set (concat bs). ht_cmp h (ht_key h m) key \<noteq> 0 \<and> ht_cmp h key (ht_key h m) \<noteq> 0"
    using f data_cmp.cmp_zero_iff[OF cmp] unfolding ht_find_iff[OF cmp hash rep] option.case by blast
  define bs' where "bs' = bs[ht_idx h key := n # bs ! ht_idx h key]"
  have ok': "node_ok (ht_pool h') (insert n (set (concat bs)))" using al h'(2) by simp
  have rep': "ht_rep h' bs'"
    unfolding bs'_def by (rule ht_put_rep[OF rep refl al(1) ok' absent h'(3-8)])
  have set': "set (concat bs') = insert n (set (concat bs))"
    unfolding bs'_def using r(1,2,3) by (intro concat_upd_Cons(1) al) (auto simp: ht_idx_def)
  have cmp': "data_cmp (ht_cmp h')" "hash_respects h'" using cmp hash h'(3,4) by (simp_all add: hash_respects_def)
  have "muggle_hash_table_find h' k = (if ht_cmp h key k = 0 then Some (Some (Entry n)) else muggle_hash_table_find h k)" for k
  proof (cases "ht_cmp h key k = 0")
    case True
    then have "n \<in> set (concat bs')" "ht_cmp h' (ht_key h' n) k = 0" using set' h'(4,8) by simp_all
    then have "muggle_hash_table_find h' k = Some (Some (Entry n))"
      unfolding ht_find_iff[OF cmp' rep'] option.case by blast
    then show ?thesis using True by simp
  next
    case False
    have "n' \<in> set (concat bs) \<and> ht_cmp h (ht_key h n') k = 0 \<longleftrightarrow>
        n' \<in> set (concat bs') \<and> ht_cmp h' (ht_key h' n') k = 0" for n'
      using False al h'(4,8) unfolding set' by auto
    then show ?thesis using False ht_find_transfer[OF cmp hash rep cmp' rep'] by simp
  qed
  moreover have "\<forall>m \<in> set (concat bs). ht_key h' m = ht_key h m \<and> ht_value h' m = ht_value h m"
    using al h'(8,9) by auto
  ultimately show ?thesis using h'(1,8,9) al rep' set' by auto
qed

lemma ht_find_removed:
  assumes cmp: "data_cmp (ht_cmp h)" and hash: "hash_respects h" and rep: "ht_rep h bs"
    and n: "n \<in> set (concat bs)"
    and run: "muggle_hash_table_remove h n key_free value_free = (h', ks, vs)"
  shows "\<exists>bs'. ht_rep h' bs' \<and> set (concat bs') = set (concat bs) - {n} \<and>
    (\<forall>m \<in> set (concat bs'). ht_key h' m = ht_key h m \<and> ht_value h' m = ht_value h m) \<and>
    (\<forall>k. muggle_hash_table_find h' k =
       (if ht_cmp h (ht_key h n) k = 0 then Some None else muggle_hash_table_find h k))"
proof -
  note r = ht_repD[OF rep]
  obtain i xs ys where i: "i < ht_table_size h" "bs ! i = xs @ n # ys"
    using n unfolding in_concat_nth r(2) by (auto dest!: split_list)
  note h' = ht_remove_rep[OF rep i run]
  define bs' where "bs' = bs[i := xs @ ys]"
  have set': "set (concat bs') = set (concat bs) - {n}"
    unfolding bs'_def using concat_upd_remove(1)[OF _ r(3) i(2)] i(1) r(2) by simp
  have rep': "ht_rep h' bs'" using h'(1) by (simp add: bs'_def)
  have cmp': "data_cmp (ht_cmp h')" "hash_respects h'" using cmp hash h'(5,6) by (simp_all add: hash_respects_def)
  have same: "\<forall>m \<in> set (concat bs'). ht_key h' m = ht_key h m \<and> ht_value h' m = ht_value h m"
    using h'(2) unfolding set' by blast
  have uniq: "m = n" if "m \<in> set (concat bs)" "ht_cmp h (ht_key h m) k = 0" "ht_cmp h (ht_key h n) k = 0" for m k
    using rep that n data_cmp.cmp_zero_trans[OF cmp] data_cmp.cmp_zero_iff[OF cmp] unfolding ht_rep_def by blast
  have "muggle_hash_table_find h' k = (if ht_cmp h (ht_key h n) k = 0 then Some None else muggle_hash_table_find h k)" for k
  proof (cases "ht_cmp h (ht_key h n) k = 0")
    case True
    then have "\<forall>m \<in> set (concat bs'). ht_cmp h' (ht_key h' m) k \<noteq> 0"
      using uniq same unfolding set' h'(6) by auto
    then have "muggle_hash_table_find h' k = Some None" unfolding ht_find_iff[OF cmp' rep'] option.case .
    then show ?thesis using True by simp
  next
    case False
    have "n' \<in> set (concat bs) \<and> ht_cmp h (ht_key h n') k = 0 \<longleftrightarrow>
        n' \<in> set (concat bs') \<and> ht_cmp h' (ht_key h' n') k = 0" for n'
      using False h'(2)[of n'] unfolding set' h'(6) by (cases "n' = n") auto
    then show ?thesis using False ht_find_transfer[OF cmp hash rep cmp' rep'] by simp
  qed
  then show ?thesis using rep' set' same by blast
qed

text \<open>A chain is released from its head; the table stays well-formed on the way.\<close>

lemma ht_clear_slot_ends:
  assumes "ht_rep h bs" "i < ht_table_size h" "bs ! i = ns"
  shows "\<exists>h'. ht_clear_slot kf vf (first_entry ns) h ks vs =
      Some (h', ks @ concat (map (\<lambda>n. release_data kf (ht_key h n)) ns),
        vs @ concat (map (\<lambda>n. release_data vf (ht_value h n)) ns)) \<and>
    ht_rep h' (bs[i := []]) \<and> ht_table_size h' = ht_table_size h \<and>
    (\<forall>m. m \<notin> set ns \<longrightarrow> ht_key h' m = ht_key h m \<and> ht_value h' m = ht_value h m)"
  using assms
proof (induction ns arbitrary: h bs ks vs)
  case Nil
  have "bs[i := []] = bs" using Nil.prems(3) list_update_id[of bs i] by simp
  then show ?case using Nil.prems(1) by (subst ht_clear_slot.simps) simp
next
  case (Cons n ns)
  obtain h1 k v where run: "muggle_hash_table_remove h n kf vf = (h1, k, v)"
    by (cases "muggle_hash_table_remove h n kf vf")
  have bs: "bs ! i = [] @ n # ns" using Cons.prems(3) by simp
  note h1 = ht_remove_rep[OF Cons.prems(1,2) bs run]
  note r = ht_repD[OF Cons.prems(1)]
  have "slot_chain (ht_cells h) i ([n] @ ns)" using r(5)[OF Cons.prems(2)] bs by simp
  then have nxt: "hn_next (ht_cells h (Entry n)) = first_entry ns" using slot_next by fastforce
  have n: "n \<notin> set ns" using distinct_concat_nth[OF r(3)] Cons.prems(2,3) r(2) by fastforce
  have step: "ht_clear_slot kf vf (first_entry (n # ns)) h ks vs = ht_clear_slot kf vf (first_entry ns) h1 (ks @ k) (vs @ v)"
    by (subst ht_clear_slot.simps) (simp add: nxt run)
  have maps: "map (\<lambda>n. release_data kf (ht_key h1 n)) ns = map (\<lambda>n. release_data kf (ht_key h n)) ns"
    "map (\<lambda>n. release_data vf (ht_value h1 n)) ns = map (\<lambda>n. release_data vf (ht_value h n)) ns"
    using n h1(2) by (auto intro!: map_cong) metis+
  have "i < ht_table_size h1" "bs[i := [] @ ns] ! i = ns" using Cons.prems(2) r(2) h1(7) by simp_all
  from Cons.IH[OF h1(1) this, of "ks @ k" "vs @ v"] obtain h' where
    "ht_clear_slot kf vf (first_entry ns) h1 (ks @ k) (vs @ v) =
      Some (h', (ks @ k) @ concat (map (\<lambda>n. release_data kf (ht_key h n)) ns),
        (vs @ v) @ concat (map (\<lambda>n. release_data vf (ht_value h n)) ns))"
    "ht_rep h' (bs[i := []])" "ht_table_size h' = ht_table_size h1"
    "\<forall>m. m \<notin> set ns \<longrightarrow> ht_key h' m = ht_key h1 m \<and> ht_value h' m = ht_value h1 m"
    unfolding maps by auto
  then show ?case using h1(2-4,7) by (intro exI[of _ h']) (auto simp: step[simplified])
qed

lemma ht_clear_from_ends:
  assumes "ht_rep h bs" "i + k = ht_table_size h"
  shows "\<exists>h'. ht_clear_from kf vf i k h ks vs =
      Some (h', ks @ concat (map (\<lambda>n. release_data kf (ht_key h n)) (concat (drop i bs))),
        vs @ concat (map (\<lambda>n. release_data vf (ht_value h n)) (concat (drop i bs)))) \<and>
    ht_rep h' (take i bs @ replicate k [])"
  using assms
proof (induction k arbitrary: i h bs ks vs)
  case 0
  then show ?case using ht_repD(2)[OF 0(1)] by auto
next
  case (Suc k)
  note r = ht_repD[OF Suc.prems(1)]
  have i: "i < ht_table_size h" using Suc.prems(2) by simp
  have nxt: "hn_next (ht_cells h (Slot i)) = first_entry (bs ! i)"
    using slot_next[of "ht_cells h" i "[]" "bs ! i"] r(5)[OF i] by simp
  obtain h1 where h1: "ht_clear_slot kf vf (first_entry (bs ! i)) h ks vs =
      Some (h1, ks @ concat (map (\<lambda>n. release_data kf (ht_key h n)) (bs ! i)),
        vs @ concat (map (\<lambda>n. release_data vf (ht_value h n)) (bs ! i)))"
    "ht_rep h1 (bs[i := []])" "ht_table_size h1 = ht_table_size h"
    "\<forall>m. m \<notin> set (bs ! i) \<longrightarrow> ht_key h1 m = ht_key h m \<and> ht_value h1 m = ht_value h m"
    using ht_clear_slot_ends[OF Suc.prems(1) i refl, of kf vf ks vs] by blast
  have bs: "drop i bs = bs ! i # drop (Suc i) bs" using i r(2) by (simp add: Cons_nth_drop_Suc)
  have "distinct (concat (drop i bs))"
    using r(3) append_take_drop_id[of i bs] by (metis concat_append distinct_append)
  then have disj: "n \<notin> set (bs ! i)" if "n \<in> set (concat (drop (Suc i) bs))" for n
    using that unfolding bs by auto
  have maps: "map (\<lambda>n. release_data kf (ht_key h1 n)) (concat (drop (Suc i) bs)) =
      map (\<lambda>n. release_data kf (ht_key h n)) (concat (drop (Suc i) bs))"
    "map (\<lambda>n. release_data vf (ht_value h1 n)) (concat (drop (Suc i) bs)) =
      map (\<lambda>n. release_data vf (ht_value h n)) (concat (drop (Suc i) bs))"
    using h1(4) disj by (auto intro!: map_cong)
  have d: "drop (Suc i) (bs[i := []]) = drop (Suc i) bs" "take (Suc i) (bs[i := []]) = take i bs @ [[]]"
    using i r(2) by (simp_all add: take_Suc_conv_app_nth)
  have "Suc i + k = ht_table_size h1" using Suc.prems(2) h1(3) by simp
  from Suc.IH[OF h1(2) this, of "ks @ concat (map (\<lambda>n. release_data kf (ht_key h n)) (bs ! i))"
      "vs @ concat (map (\<lambda>n. release_data vf (ht_value h n)) (bs ! i))", unfolded d maps]
  show ?case by (simp add: nxt h1(1) bs)
qed

section \<open>Properties\<close>

text \<open>A table with one entry, key 5 and value 50, hashed by the key modulo the table size.\<close>

definition ht_demo :: "(int, int) hash_table" where
  "ht_demo = \<lparr>ht_cells = (\<lambda>r. case r of
        Slot i \<Rightarrow> \<lparr>hn_prev = None, hn_next = (if i = 5 then Some (Entry (Malloced 7)) else None), hn_key = None, hn_value = None\<rparr>
      | Entry _ \<Rightarrow> \<lparr>hn_prev = Some (Slot 5), hn_next = None, hn_key = Some 5, hn_value = Some 50\<rparr>),
    ht_table_size = 8, ht_hash = (\<lambda>k. case k of None \<Rightarrow> 0 | Some x \<Rightarrow> nat (x mod 8)), ht_cmp = ex_cmp, ht_pool = None\<rparr>"

definition ht_demo_env :: node_env where
  "ht_demo_env = \<lparr>ne_mallocs = mp_demo_mallocs, ne_malloc = Some 8\<rparr>"

lemma ht_demo_rep: "ht_rep ht_demo [[], [], [], [], [], [Malloced 7], [], []]"
proof -
  have upto: "(\<forall>i < 8. P i) \<longleftrightarrow> P 0 \<and> P 1 \<and> P 2 \<and> P 3 \<and> P 4 \<and> P 5 \<and> P 6 \<and> P 7" for P :: "nat \<Rightarrow> bool"
    by (auto simp: All_less_Suc eval_nat_numeral)
  have "ht_table_size ht_demo = 8" by (simp add: ht_demo_def)
  then show ?thesis
    unfolding ht_rep_def upto
    by (simp add: upto ht_demo_def slot_chain_def links_def last_ref_def node_ok_def ht_idx_def ht_key_def)
qed

lemma ht_demo_ok: "data_cmp (ht_cmp ht_demo)" "hash_respects ht_demo"
    "node_good ht_demo_env (ht_pool ht_demo) {Malloced 7}"
  using data_cmp_ex_cmp
  by (auto simp: ht_demo_def hash_respects_def ex_cmp_def node_good_def ht_demo_env_def split: option.splits)

lemma ht_demo_runs:
  "ht_cmp ht_demo = ex_cmp" "ht_table_size ht_demo = 8" "ht_key ht_demo (Malloced 7) = Some 5" "ht_value ht_demo (Malloced 7) = Some 50"
  "muggle_hash_table_find ht_demo (Some 5) = Some (Some (Entry (Malloced 7)))"
  "muggle_hash_table_find ht_demo (Some 13) = Some None"
  "node_alloc ht_demo_env (ht_pool ht_demo) = (Some (Malloced 8), None)"
  by (simp_all add: ht_demo_def ht_key_def ht_value_def muggle_hash_table_find_def ht_search.simps node_alloc_def ht_demo_env_def)

text \<open>C18. Putting a key into a well-formed table always returns, and lookups see exactly the new
  entry. Under a compare callback that is a total preorder and a hash that equal keys share: \<open>put\<close>
  returns NULL, and leaves the table as it is, exactly when an equal key is present or no node can
  be allocated. Otherwise it returns a fresh node that holds the key and the value, the table stays
  well-formed, the other nodes keep key and value, and afterwards \<open>find\<close> returns the new node for
  the keys equal to the new one, and for every other key what it returned before.\<close>

theorem ht_put_find:
  assumes cmp: "data_cmp (ht_cmp h)" and hash: "hash_respects h" and rep: "ht_rep h bs"
    and good: "node_good e (ht_pool h) (set (concat bs))"
  shows "\<exists>r h'. muggle_hash_table_put e h key val = Some (r, h') \<and>
    (r = None \<longleftrightarrow> muggle_hash_table_find h key \<noteq> Some None \<or> fst (node_alloc e (ht_pool h)) = None) \<and>
    (case r of
       None \<Rightarrow> h' = h
     | Some x \<Rightarrow> \<exists>n bs'. x = Entry n \<and> n \<notin> set (concat bs) \<and> ht_rep h' bs' \<and>
          set (concat bs') = insert n (set (concat bs)) \<and> ht_key h' n = key \<and> ht_value h' n = val \<and>
          (\<forall>m \<in> set (concat bs). ht_key h' m = ht_key h m \<and> ht_value h' m = ht_value h m) \<and>
          (\<forall>k. muggle_hash_table_find h' k =
             (if ht_cmp h key k = 0 then Some (Some (Entry n)) else muggle_hash_table_find h k)))"
proof -
  obtain f where f: "muggle_hash_table_find h key = Some f" using ht_find_returns[OF cmp hash rep] by blast
  obtain a pool where a: "node_alloc e (ht_pool h) = (a, pool)" by fastforce
  consider (found) x where "f = Some x" | (null) "f = None" "a = None" | (new) n where "f = None" "a = Some n"
    by (cases f; cases a) auto
  then show ?thesis
  proof cases
    case found
    then have "muggle_hash_table_put e h key val = Some (None, h)"
      using f by (simp add: muggle_hash_table_put_def muggle_hash_table_find_def Let_def)
    then show ?thesis using f found by auto
  next
    case null
    have "pool = ht_pool h" using a null nodes.alloc_none[OF ht_repD(4)[OF rep], of e pool] by simp
    then have "muggle_hash_table_put e h key val = Some (None, h)"
      using f null a by (simp add: muggle_hash_table_put_def muggle_hash_table_find_def Let_def)
    then show ?thesis using a null by auto
  next
    case new
    from ht_put_new[OF cmp hash rep good f[unfolded new(1)] a[unfolded new(2)], of val]
    obtain h' bs' where "muggle_hash_table_put e h key val = Some (Some (Entry n), h')" "n \<notin> set (concat bs)"
      "ht_rep h' bs'" "set (concat bs') = insert n (set (concat bs))" "ht_key h' n = key" "ht_value h' n = val"
      "\<forall>m \<in> set (concat bs). ht_key h' m = ht_key h m \<and> ht_value h' m = ht_value h m"
      "\<forall>k. muggle_hash_table_find h' k =
         (if ht_cmp h key k = 0 then Some (Some (Entry n)) else muggle_hash_table_find h k)"
      by blast
    then show ?thesis using f a new by (intro exI[of _ "Some (Entry n)"] exI[of _ h']) auto
  qed
qed

theorem ht_put_find_witness:
  "\<exists>h'. muggle_hash_table_put ht_demo_env ht_demo (Some 13) (Some 130) = Some (Some (Entry (Malloced 8)), h') \<and>
     muggle_hash_table_find h' (Some 13) = Some (Some (Entry (Malloced 8))) \<and>
     muggle_hash_table_find h' (Some 5) = Some (Some (Entry (Malloced 7)))"
proof -
  have good: "node_good ht_demo_env (ht_pool ht_demo) (set (concat [[], [], [], [], [], [Malloced 7], [], []]))"
    using ht_demo_ok(3) by simp
  have run: "fst (the (muggle_hash_table_put ht_demo_env ht_demo (Some 13) (Some 130))) = Some (Entry (Malloced 8))"
    using ht_demo_runs(6,7)
    by (simp add: muggle_hash_table_put_def muggle_hash_table_find_def Let_def)
  from ht_put_find[OF ht_demo_ok(1,2) ht_demo_rep good, of "Some 13" "Some 130"] run
  obtain h' where h': "muggle_hash_table_put ht_demo_env ht_demo (Some 13) (Some 130) = Some (Some (Entry (Malloced 8)), h')"
    "\<And>k. muggle_hash_table_find h' k = (if ex_cmp (Some 13) k = 0 then Some (Some (Entry (Malloced 8)))
       else muggle_hash_table_find ht_demo k)"
    unfolding ht_demo_runs(1) by (fastforce split: option.splits)
  show ?thesis using h'(1) by (intro exI[of _ h']) (simp add: h'(2) ht_demo_runs)
qed

text \<open>C19. Removal takes out exactly one entry and clearing takes out all of them. Removing a node
  of a well-formed table leaves a well-formed table of the other nodes, with their keys and values,
  in which \<open>find\<close> finds no node for the keys equal to the removed one and is unchanged for all
  others; the free callbacks, when given, see the removed key and value unless they are NULL.
  Clearing always returns, leaves every slot empty, and hands each non-NULL key and value of the
  table to its callback once, slot after slot.\<close>

theorem ht_remove_clear:
  assumes cmp: "data_cmp (ht_cmp h)" and hash: "hash_respects h" and rep: "ht_rep h bs"
    and n: "n \<in> set (concat bs)"
  shows "(\<exists>h' bs'. muggle_hash_table_remove h n kf vf =
        (h', release_data kf (ht_key h n), release_data vf (ht_value h n)) \<and>
      ht_rep h' bs' \<and> set (concat bs') = set (concat bs) - {n} \<and>
      (\<forall>m \<in> set (concat bs'). ht_key h' m = ht_key h m \<and> ht_value h' m = ht_value h m) \<and>
      (\<forall>k. muggle_hash_table_find h' k =
         (if ht_cmp h (ht_key h n) k = 0 then Some None else muggle_hash_table_find h k))) \<and>
    (\<exists>h'. muggle_hash_table_clear h kf vf =
        Some (h', concat (map (\<lambda>n. release_data kf (ht_key h n)) (concat bs)),
          concat (map (\<lambda>n. release_data vf (ht_value h n)) (concat bs))) \<and>
      ht_rep h' (replicate (ht_table_size h) []))"
proof
  obtain h' ks vs where run: "muggle_hash_table_remove h n kf vf = (h', ks, vs)"
    by (cases "muggle_hash_table_remove h n kf vf")
  then have "ks = release_data kf (ht_key h n)" "vs = release_data vf (ht_value h n)"
    by (auto simp: muggle_hash_table_remove_def ht_key_def ht_value_def Let_def)
  then show "\<exists>h' bs'. muggle_hash_table_remove h n kf vf =
        (h', release_data kf (ht_key h n), release_data vf (ht_value h n)) \<and>
      ht_rep h' bs' \<and> set (concat bs') = set (concat bs) - {n} \<and>
      (\<forall>m \<in> set (concat bs'). ht_key h' m = ht_key h m \<and> ht_value h' m = ht_value h m) \<and>
      (\<forall>k. muggle_hash_table_find h' k =
         (if ht_cmp h (ht_key h n) k = 0 then Some None else muggle_hash_table_find h k))"
    using ht_find_removed[OF cmp hash rep n run] run by blast
  show "\<exists>h'. muggle_hash_table_clear h kf vf =
        Some (h', concat (map (\<lambda>n. release_data kf (ht_key h n)) (concat bs)),
          concat (map (\<lambda>n. release_data vf (ht_value h n)) (concat bs))) \<and>
      ht_rep h' (replicate (ht_table_size h) [])"
    using ht_clear_from_ends[OF rep, of 0 "ht_table_size h" kf vf "[]" "[]"] by (simp add: muggle_hash_table_clear_def)
qed

theorem ht_remove_clear_witness:
  "(\<exists>h'. muggle_hash_table_remove ht_demo (Malloced 7) True False = (h', [Some 5], []) \<and>
      muggle_hash_table_find h' (Some 5) = Some None) \<and>
   (\<exists>h'. muggle_hash_table_clear ht_demo True False = Some (h', [Some 5], []) \<and> ht_rep h' (replicate 8 []))"
proof -
  have n: "Malloced 7 \<in> set (concat [[], [], [], [], [], [Malloced 7], [], []])" by simp
  show ?thesis
    using ht_remove_clear[OF ht_demo_ok(1,2) ht_demo_rep n, of True False]
    by (auto simp: ht_demo_runs release_data_def)
qed

end
