(* ===== verification/Avl_Tree.thy ===== *)
theory Avl_Tree
  imports Node_Alloc "HOL-Library.Tree" "HOL-Library.Monad_Syntax"
begin

text \<open>
  The AVL tree (\<^verbatim>\<open>muggle/c/dsaa/avl_tree.c\<close>, \<^verbatim>\<open>avl_tree.h\<close>) at the level of its pointers: a store maps
  a node to its \<open>left\<close>, \<open>right\<close> and \<open>parent\<close> pointers, its balance factor, its key and its value.
  A NULL dereference, a failed assertion and a loop that does not end are \<open>None\<close>; that none of them
  happens is part of the theorems. The lemmas relate the store to a tree of nodes in which a position
  is a subtree and its context, up to the rebalancing of a node; the laws are in \<^verbatim>\<open>Avl_Tree_Laws\<close>.
\<close>

section \<open>State\<close>

datatype avl_side = AVL_TREE_SIDE_LEFT | AVL_TREE_SIDE_RIGHT

record ('k, 'v) avl_node =
  an_left :: "node_addr ptr"
  an_right :: "node_addr ptr"
  an_parent :: "node_addr ptr"
  an_balance :: int
  an_key :: "'k ptr"
  an_value :: "'v ptr"

record ('k, 'v) avl_tree =
  av_root :: "node_addr ptr"
  av_cmp :: "'k ptr \<Rightarrow> 'k ptr \<Rightarrow> int"
  av_pool :: "memory_pool ptr"
  av_cells :: "node_addr \<Rightarrow> ('k, 'v) avl_node"

text \<open>The balance factor is an \<^verbatim>\<open>int8_t\<close>.\<close>

definition to_int8 :: "int \<Rightarrow> int" where
  "to_int8 x = (x + 128) mod 256 - 128"

text \<open>Writes of one field of a node.\<close>

definition set_left :: "node_addr \<Rightarrow> node_addr ptr \<Rightarrow> ('k, 'v) avl_tree \<Rightarrow> ('k, 'v) avl_tree" where
  "set_left a v t = t\<lparr>av_cells := (av_cells t)(a := (av_cells t a)\<lparr>an_left := v\<rparr>)\<rparr>"

definition set_right :: "node_addr \<Rightarrow> node_addr ptr \<Rightarrow> ('k, 'v) avl_tree \<Rightarrow> ('k, 'v) avl_tree" where
  "set_right a v t = t\<lparr>av_cells := (av_cells t)(a := (av_cells t a)\<lparr>an_right := v\<rparr>)\<rparr>"

definition set_parent :: "node_addr \<Rightarrow> node_addr ptr \<Rightarrow> ('k, 'v) avl_tree \<Rightarrow> ('k, 'v) avl_tree" where
  "set_parent a v t = t\<lparr>av_cells := (av_cells t)(a := (av_cells t a)\<lparr>an_parent := v\<rparr>)\<rparr>"

definition set_balance :: "node_addr \<Rightarrow> int \<Rightarrow> ('k, 'v) avl_tree \<Rightarrow> ('k, 'v) avl_tree" where
  "set_balance a v t = t\<lparr>av_cells := (av_cells t)(a := (av_cells t a)\<lparr>an_balance := v\<rparr>)\<rparr>"

definition set_entry :: "node_addr \<Rightarrow> 'k ptr \<Rightarrow> 'v ptr \<Rightarrow> ('k, 'v) avl_tree \<Rightarrow> ('k, 'v) avl_tree" where
  "set_entry a k v t = t\<lparr>av_cells := (av_cells t)(a := (av_cells t a)\<lparr>an_key := k, an_value := v\<rparr>)\<rparr>"

definition MUGGLE_ASSERT :: "bool \<Rightarrow> unit option" where
  "MUGGLE_ASSERT x = (if \<not> x then None else Some ())"

section \<open>Operations\<close>

definition muggle_avl_tree_allocate_node ::
    "node_env \<Rightarrow> ('k, 'v) avl_tree \<Rightarrow> node_addr ptr \<times> ('k, 'v) avl_tree" where
  "muggle_avl_tree_allocate_node e t =
    (let (node, pool) = node_alloc e (av_pool t);
         t = t\<lparr>av_pool := pool\<rparr>
     in case node of
          None \<Rightarrow> (None, t)
        | Some a \<Rightarrow>
            (Some a, t\<lparr>av_cells := (av_cells t)(a := \<lparr>an_left = None, an_right = None, an_parent = None,
               an_balance = 0, an_key = None, an_value = None\<rparr>)\<rparr>))"

text \<open>The result carries the keys and the values handed to the free callbacks.\<close>

partial_function (option) muggle_avl_tree_erase_node ::
    "bool \<Rightarrow> bool \<Rightarrow> ('k, 'v) avl_tree \<Rightarrow> node_addr ptr \<Rightarrow>
      (('k, 'v) avl_tree \<times> 'k ptr list \<times> 'v ptr list) option" where
  "muggle_avl_tree_erase_node key_free value_free t node =
    (case node of
       None \<Rightarrow> Some (t, [], [])
     | Some a \<Rightarrow> do {
         (t, ks1, vs1) \<leftarrow>
           (if an_left (av_cells t a) \<noteq> None
            then muggle_avl_tree_erase_node key_free value_free t (an_left (av_cells t a))
            else Some (t, [], []));
         (t, ks2, vs2) \<leftarrow>
           (if an_right (av_cells t a) \<noteq> None
            then muggle_avl_tree_erase_node key_free value_free t (an_right (av_cells t a))
            else Some (t, [], []));
         let ks3 = release_data key_free (an_key (av_cells t a));
         let vs3 = release_data value_free (an_value (av_cells t a));
         let t = set_entry a None None t;
         let t = (case an_parent (av_cells t a) of
                    None \<Rightarrow> t
                  | Some parent \<Rightarrow>
                      if an_left (av_cells t parent) = Some a then set_left parent None t
                      else set_right parent None t);
         let t = t\<lparr>av_pool := node_free (av_pool t) a\<rparr>;
         Some (t, ks1 @ ks2 @ ks3, vs1 @ vs2 @ vs3)
       })"

text \<open>The writes the rotations share: \<open>z\<close> takes the place of \<open>x\<close> below \<open>parent\<close>, or as the root.\<close>

definition av_replace :: "node_addr ptr \<Rightarrow> node_addr \<Rightarrow> node_addr \<Rightarrow> ('k, 'v) avl_tree \<Rightarrow> ('k, 'v) avl_tree" where
  "av_replace parent x z t =
    (let t = (case parent of
                None \<Rightarrow> t
              | Some a \<Rightarrow>
                  if Some x = an_left (av_cells t a) then set_left a (Some z) t else set_right a (Some z) t);
         t = set_parent z parent t
     in if av_root t = Some x then t\<lparr>av_root := Some z\<rparr> else t)"

definition av_reparent :: "node_addr ptr \<Rightarrow> node_addr \<Rightarrow> ('k, 'v) avl_tree \<Rightarrow> ('k, 'v) avl_tree" where
  "av_reparent child a t = (case child of None \<Rightarrow> t | Some b \<Rightarrow> set_parent b (Some a) t)"

definition muggle_avl_tree_rotate_left ::
    "('k, 'v) avl_tree \<Rightarrow> node_addr \<Rightarrow> (bool \<times> ('k, 'v) avl_tree) option" where
  "muggle_avl_tree_rotate_left t x = do {
     let parent = an_parent (av_cells t x);
     z \<leftarrow> an_right (av_cells t x);
     MUGGLE_ASSERT (an_balance (av_cells t x) = 2);
     MUGGLE_ASSERT (an_balance (av_cells t z) = 1 \<or> an_balance (av_cells t z) = 0);
     let t = av_replace parent x z t;
     let t = set_right x (an_left (av_cells t z)) t;
     let t = av_reparent (an_left (av_cells t z)) x t;
     let t = set_parent x (Some z) t;
     let t = set_left z (Some x) t;
     if an_balance (av_cells t z) = 0 then Some (False, set_balance z (-1) (set_balance x 1 t))
     else Some (True, set_balance z 0 (set_balance x 0 t))
   }"

definition muggle_avl_tree_rotate_right ::
    "('k, 'v) avl_tree \<Rightarrow> node_addr \<Rightarrow> (bool \<times> ('k, 'v) avl_tree) option" where
  "muggle_avl_tree_rotate_right t x = do {
     let parent = an_parent (av_cells t x);
     z \<leftarrow> an_left (av_cells t x);
     MUGGLE_ASSERT (an_balance (av_cells t x) = -2);
     MUGGLE_ASSERT (an_balance (av_cells t z) = -1 \<or> an_balance (av_cells t z) = 0);
     let t = av_replace parent x z t;
     let t = set_left x (an_right (av_cells t z)) t;
     let t = av_reparent (an_right (av_cells t z)) x t;
     let t = set_parent x (Some z) t;
     let t = set_right z (Some x) t;
     if an_balance (av_cells t z) = 0 then Some (False, set_balance z 1 (set_balance x (-1) t))
     else Some (True, set_balance z 0 (set_balance x 0 t))
   }"

definition muggle_avl_tree_rotate_right_left ::
    "('k, 'v) avl_tree \<Rightarrow> node_addr \<Rightarrow> ('k, 'v) avl_tree option" where
  "muggle_avl_tree_rotate_right_left t x = do {
     let parent = an_parent (av_cells t x);
     z \<leftarrow> an_right (av_cells t x);
     y \<leftarrow> an_left (av_cells t z);
     MUGGLE_ASSERT (an_balance (av_cells t x) = 2);
     MUGGLE_ASSERT (an_balance (av_cells t z) = -1);
     let t2 = an_left (av_cells t y);
     let t3 = an_right (av_cells t y);
     let t = av_replace parent x y t;
     let t = av_reparent t2 x (set_right x t2 t);
     let t = av_reparent t3 z (set_left z t3 t);
     let t = set_parent x (Some y) (set_left y (Some x) t);
     let t = set_parent z (Some y) (set_right y (Some z) t);
     let t = (if an_balance (av_cells t y) > 0 then set_balance z 0 (set_balance x (-1) t)
              else if an_balance (av_cells t y) = 0 then set_balance z 0 (set_balance x 0 t)
              else set_balance z 1 (set_balance x 0 t));
     Some (set_balance y 0 t)
   }"

definition muggle_avl_tree_rotate_left_right ::
    "('k, 'v) avl_tree \<Rightarrow> node_addr \<Rightarrow> ('k, 'v) avl_tree option" where
  "muggle_avl_tree_rotate_left_right t x = do {
     let parent = an_parent (av_cells t x);
     z \<leftarrow> an_left (av_cells t x);
     y \<leftarrow> an_right (av_cells t z);
     MUGGLE_ASSERT (an_balance (av_cells t x) = -2);
     MUGGLE_ASSERT (an_balance (av_cells t z) = 1);
     let t2 = an_right (av_cells t y);
     let t3 = an_left (av_cells t y);
     let t = av_replace parent x y t;
     let t = av_reparent t2 x (set_left x t2 t);
     let t = av_reparent t3 z (set_right z t3 t);
     let t = set_parent z (Some y) (set_left y (Some z) t);
     let t = set_parent x (Some y) (set_right y (Some x) t);
     let t = (if an_balance (av_cells t y) > 0 then set_balance z (-1) (set_balance x 0 t)
              else if an_balance (av_cells t y) = 0 then set_balance z 0 (set_balance x 0 t)
              else set_balance z 0 (set_balance x 1 t));
     Some (set_balance y 0 t)
   }"

definition muggle_avl_tree_rebalance ::
    "('k, 'v) avl_tree \<Rightarrow> node_addr \<Rightarrow> (bool \<times> ('k, 'v) avl_tree) option" where
  "muggle_avl_tree_rebalance t node =
    (if an_balance (av_cells t node) < -1 then do {
       child \<leftarrow> an_left (av_cells t node);
       if an_balance (av_cells t child) \<le> 0 then muggle_avl_tree_rotate_right t node
       else do { t \<leftarrow> muggle_avl_tree_rotate_left_right t node; Some (True, t) }
     }
     else if an_balance (av_cells t node) > 1 then do {
       child \<leftarrow> an_right (av_cells t node);
       if an_balance (av_cells t child) \<ge> 0 then muggle_avl_tree_rotate_left t node
       else do { t \<leftarrow> muggle_avl_tree_rotate_right_left t node; Some (True, t) }
     }
     else Some (False, t))"

text \<open>Allocated memory of nodes is arbitrary before it is written: \<open>mem\<close>.\<close>

definition muggle_avl_tree_init ::
    "bool \<Rightarrow> mp_mallocs \<Rightarrow> (node_addr \<Rightarrow> ('k, 'v) avl_node) \<Rightarrow> ('k ptr \<Rightarrow> 'k ptr \<Rightarrow> int) ptr \<Rightarrow> nat \<Rightarrow>
      ('k, 'v) avl_tree option" where
  "muggle_avl_tree_init pool_mem m mem cmp capacity =
    (case cmp of
       None \<Rightarrow> None
     | Some cmp \<Rightarrow>
         case node_pool_init pool_mem m capacity 48 of
           None \<Rightarrow> None
         | Some pool \<Rightarrow> Some \<lparr>av_root = None, av_cmp = cmp, av_pool = pool, av_cells = mem\<rparr>)"

definition muggle_avl_tree_clear ::
    "('k, 'v) avl_tree \<Rightarrow> bool \<Rightarrow> bool \<Rightarrow> (('k, 'v) avl_tree \<times> 'k ptr list \<times> 'v ptr list) option" where
  "muggle_avl_tree_clear t key_free value_free =
    (case av_root t of
       None \<Rightarrow> Some (t, [], [])
     | Some node \<Rightarrow> muggle_avl_tree_erase_node key_free value_free t (Some node))"

definition muggle_avl_tree_destroy ::
    "('k, 'v) avl_tree \<Rightarrow> bool \<Rightarrow> bool \<Rightarrow> (('k, 'v) avl_tree \<times> 'k ptr list \<times> 'v ptr list) option" where
  "muggle_avl_tree_destroy t key_free value_free = do {
     (t, ks, vs) \<leftarrow> muggle_avl_tree_clear t key_free value_free;
     Some (t\<lparr>av_pool := map_option muggle_memory_pool_destroy (av_pool t)\<rparr>, ks, vs)
   }"

partial_function (option) av_find_loop ::
    "('k, 'v) avl_tree \<Rightarrow> 'k ptr \<Rightarrow> node_addr ptr \<Rightarrow> node_addr ptr option" where
  "av_find_loop t data node =
    (case node of
       None \<Rightarrow> Some None
     | Some a \<Rightarrow>
         let ret = av_cmp t data (an_key (av_cells t a)) in
         if ret = 0 then Some (Some a)
         else if ret < 0 then av_find_loop t data (an_left (av_cells t a))
         else av_find_loop t data (an_right (av_cells t a)))"

definition muggle_avl_tree_find :: "('k, 'v) avl_tree \<Rightarrow> 'k ptr \<Rightarrow> node_addr ptr option" where
  "muggle_avl_tree_find t data = av_find_loop t data (av_root t)"

text \<open>The walk of \<open>insert\<close> to the node that gets the new one, and on which side; \<open>Some None\<close> is an
  equal key on the way.\<close>

partial_function (option) av_insert_pos ::
    "('k, 'v) avl_tree \<Rightarrow> 'k ptr \<Rightarrow> node_addr \<Rightarrow> (node_addr \<times> avl_side) option option" where
  "av_insert_pos t key node =
    (let ret = av_cmp t key (an_key (av_cells t node)) in
     if ret = 0 then Some None
     else if ret < 0 then
       (case an_left (av_cells t node) of
          Some l \<Rightarrow> av_insert_pos t key l
        | None \<Rightarrow> Some (Some (node, AVL_TREE_SIDE_LEFT)))
     else
       (case an_right (av_cells t node) of
          Some r \<Rightarrow> av_insert_pos t key r
        | None \<Rightarrow> Some (Some (node, AVL_TREE_SIDE_RIGHT))))"

definition side_of :: "('k, 'v) avl_tree \<Rightarrow> node_addr \<Rightarrow> node_addr \<Rightarrow> avl_side" where
  "side_of t parent node =
    (if an_left (av_cells t parent) = Some node then AVL_TREE_SIDE_LEFT else AVL_TREE_SIDE_RIGHT)"

partial_function (option) av_insert_retrace ::
    "('k, 'v) avl_tree \<Rightarrow> node_addr \<Rightarrow> avl_side \<Rightarrow> ('k, 'v) avl_tree option" where
  "av_insert_retrace t node insert_side =
    (let t = (if insert_side = AVL_TREE_SIDE_LEFT
              then set_balance node (to_int8 (an_balance (av_cells t node) - 1)) t
              else set_balance node (to_int8 (an_balance (av_cells t node) + 1)) t);
         balance = an_balance (av_cells t node)
     in if balance = 0 then Some t
        else if balance = 1 \<or> balance = -1 then
          (case an_parent (av_cells t node) of
             Some parent \<Rightarrow> av_insert_retrace t parent (side_of t parent node)
           | None \<Rightarrow> Some t)
        else do {
          MUGGLE_ASSERT (balance = 2 \<or> balance = -2);
          (_, t) \<leftarrow> muggle_avl_tree_rebalance t node;
          Some t
        })"

definition muggle_avl_tree_insert ::
    "node_env \<Rightarrow> ('k, 'v) avl_tree \<Rightarrow> 'k ptr \<Rightarrow> 'v ptr \<Rightarrow> (node_addr ptr \<times> ('k, 'v) avl_tree) option" where
  "muggle_avl_tree_insert e t key val =
    (case av_root t of
       None \<Rightarrow>
         (case muggle_avl_tree_allocate_node e t of
            (None, t) \<Rightarrow> Some (None, t)
          | (Some node, t) \<Rightarrow> Some (Some node, (set_balance node 0 (set_entry node key val t))\<lparr>av_root := Some node\<rparr>))
     | Some root \<Rightarrow> do {
         pos \<leftarrow> av_insert_pos t key root;
         (case pos of
            None \<Rightarrow> Some (None, t)
          | Some (node, insert_side) \<Rightarrow>
              (case muggle_avl_tree_allocate_node e t of
                 (None, t) \<Rightarrow> Some (None, t)
               | (Some new_node, t) \<Rightarrow> do {
                   let t = (if insert_side = AVL_TREE_SIDE_LEFT then set_left node (Some new_node) t
                            else set_right node (Some new_node) t);
                   let t = set_balance new_node 0 (set_entry new_node key val (set_parent new_node (Some node) t));
                   t \<leftarrow> av_insert_retrace t node insert_side;
                   Some (Some new_node, t)
                 }))
       })"

partial_function (option) av_rightmost :: "('k, 'v) avl_tree \<Rightarrow> node_addr \<Rightarrow> node_addr option" where
  "av_rightmost t target =
    (case an_right (av_cells t target) of Some r \<Rightarrow> av_rightmost t r | None \<Rightarrow> Some target)"

partial_function (option) av_leftmost :: "('k, 'v) avl_tree \<Rightarrow> node_addr \<Rightarrow> node_addr option" where
  "av_leftmost t target =
    (case an_left (av_cells t target) of Some l \<Rightarrow> av_leftmost t l | None \<Rightarrow> Some target)"

definition swap_entries :: "node_addr \<Rightarrow> node_addr \<Rightarrow> ('k, 'v) avl_tree \<Rightarrow> ('k, 'v) avl_tree" where
  "swap_entries node target t =
    (let k = an_key (av_cells t node); v = an_value (av_cells t node);
         t = set_entry node (an_key (av_cells t target)) (an_value (av_cells t target)) t
     in set_entry target k v t)"

partial_function (option) av_move_to_leaf ::
    "('k, 'v) avl_tree \<Rightarrow> node_addr \<Rightarrow> (('k, 'v) avl_tree \<times> node_addr) option" where
  "av_move_to_leaf t node =
    (if an_left (av_cells t node) = None \<and> an_right (av_cells t node) = None then Some (t, node)
     else do {
       target \<leftarrow> (case an_left (av_cells t node) of
          Some l \<Rightarrow> av_rightmost t l
        | None \<Rightarrow> do { r \<leftarrow> an_right (av_cells t node); av_leftmost t r });
       av_move_to_leaf (swap_entries node target t) target
     })"

partial_function (option) av_remove_retrace ::
    "('k, 'v) avl_tree \<Rightarrow> node_addr ptr \<Rightarrow> avl_side \<Rightarrow> ('k, 'v) avl_tree option" where
  "av_remove_retrace t p remove_side =
    (case p of
       None \<Rightarrow> Some t
     | Some node \<Rightarrow>
         let t = (if remove_side = AVL_TREE_SIDE_LEFT
                  then set_balance node (to_int8 (an_balance (av_cells t node) + 1)) t
                  else set_balance node (to_int8 (an_balance (av_cells t node) - 1)) t);
             balance = an_balance (av_cells t node);
             parent = an_parent (av_cells t node)
         in if balance = 1 \<or> balance = -1 then Some t
            else if balance = 0 then
              (case parent of
                 Some a \<Rightarrow> av_remove_retrace t (Some a) (side_of t a node)
               | None \<Rightarrow> Some t)
            else do {
              MUGGLE_ASSERT (balance = 2 \<or> balance = -2);
              let remove_side = (case parent of Some a \<Rightarrow> side_of t a node | None \<Rightarrow> remove_side);
              (depth_decrease, t) \<leftarrow> muggle_avl_tree_rebalance t node;
              (if depth_decrease then av_remove_retrace t parent remove_side else Some t)
            })"

definition muggle_avl_tree_remove ::
    "('k, 'v) avl_tree \<Rightarrow> node_addr \<Rightarrow> bool \<Rightarrow> bool \<Rightarrow> (('k, 'v) avl_tree \<times> 'k ptr list \<times> 'v ptr list) option" where
  "muggle_avl_tree_remove t node key_free value_free = do {
     (t, node) \<leftarrow> av_move_to_leaf t node;
     (case an_parent (av_cells t node) of
        None \<Rightarrow> do {
          (t, ks, vs) \<leftarrow> muggle_avl_tree_erase_node key_free value_free t (Some node);
          Some (t\<lparr>av_root := None\<rparr>, ks, vs)
        }
      | Some parent \<Rightarrow> do {
          let remove_side = side_of t parent node;
          (t, ks, vs) \<leftarrow> muggle_avl_tree_erase_node key_free value_free t (Some node);
          t \<leftarrow> av_remove_retrace t (Some parent) remove_side;
          Some (t, ks, vs)
        })
   }"

section \<open>Trees in the store\<close>

text \<open>Reads after writes, field by field.\<close>

abbreviation "lc t a \<equiv> an_left (av_cells t a)"
abbreviation "rc t a \<equiv> an_right (av_cells t a)"
abbreviation "pa t a \<equiv> an_parent (av_cells t a)"
abbreviation "ba t a \<equiv> an_balance (av_cells t a)"
abbreviation "ky t a \<equiv> an_key (av_cells t a)"
abbreviation "vl t a \<equiv> an_value (av_cells t a)"

lemma set_left_fields [simp]:
  "lc (set_left a v t) b = (if b = a then v else lc t b)" "rc (set_left a v t) b = rc t b"
  "pa (set_left a v t) b = pa t b" "ba (set_left a v t) b = ba t b" "ky (set_left a v t) b = ky t b"
  "vl (set_left a v t) b = vl t b" "av_root (set_left a v t) = av_root t" "av_cmp (set_left a v t) = av_cmp t"
  "av_pool (set_left a v t) = av_pool t"
  by (simp_all add: set_left_def)

lemma set_right_fields [simp]:
  "rc (set_right a v t) b = (if b = a then v else rc t b)" "lc (set_right a v t) b = lc t b"
  "pa (set_right a v t) b = pa t b" "ba (set_right a v t) b = ba t b" "ky (set_right a v t) b = ky t b"
  "vl (set_right a v t) b = vl t b" "av_root (set_right a v t) = av_root t" "av_cmp (set_right a v t) = av_cmp t"
  "av_pool (set_right a v t) = av_pool t"
  by (simp_all add: set_right_def)

lemma set_parent_fields [simp]:
  "pa (set_parent a v t) b = (if b = a then v else pa t b)" "lc (set_parent a v t) b = lc t b"
  "rc (set_parent a v t) b = rc t b" "ba (set_parent a v t) b = ba t b" "ky (set_parent a v t) b = ky t b"
  "vl (set_parent a v t) b = vl t b" "av_root (set_parent a v t) = av_root t" "av_cmp (set_parent a v t) = av_cmp t"
  "av_pool (set_parent a v t) = av_pool t"
  by (simp_all add: set_parent_def)

lemma set_balance_fields [simp]:
  "ba (set_balance a i t) b = (if b = a then i else ba t b)" "lc (set_balance a i t) b = lc t b"
  "rc (set_balance a i t) b = rc t b" "pa (set_balance a i t) b = pa t b" "ky (set_balance a i t) b = ky t b"
  "vl (set_balance a i t) b = vl t b" "av_root (set_balance a i t) = av_root t" "av_cmp (set_balance a i t) = av_cmp t"
  "av_pool (set_balance a i t) = av_pool t"
  by (simp_all add: set_balance_def)

lemma set_entry_fields [simp]:
  "ky (set_entry a k v t) b = (if b = a then k else ky t b)" "vl (set_entry a k v t) b = (if b = a then v else vl t b)"
  "lc (set_entry a k v t) b = lc t b" "rc (set_entry a k v t) b = rc t b" "pa (set_entry a k v t) b = pa t b"
  "ba (set_entry a k v t) b = ba t b" "av_root (set_entry a k v t) = av_root t" "av_cmp (set_entry a k v t) = av_cmp t"
  "av_pool (set_entry a k v t) = av_pool t"
  by (simp_all add: set_entry_def)

lemma av_reparent_fields [simp]:
  "pa (av_reparent ch a t) b = (if Some b = ch then Some a else pa t b)" "lc (av_reparent ch a t) b = lc t b"
  "rc (av_reparent ch a t) b = rc t b" "ba (av_reparent ch a t) b = ba t b" "ky (av_reparent ch a t) b = ky t b"
  "vl (av_reparent ch a t) b = vl t b" "av_root (av_reparent ch a t) = av_root t" "av_cmp (av_reparent ch a t) = av_cmp t"
  "av_pool (av_reparent ch a t) = av_pool t"
  by (cases ch; simp add: av_reparent_def)+

text \<open>\<open>tree_at t T p par\<close>: the pointer \<open>p\<close> is the tree \<open>T\<close>, whose root has the parent \<open>par\<close>.\<close>

fun tree_at :: "('k, 'v) avl_tree \<Rightarrow> node_addr tree \<Rightarrow> node_addr ptr \<Rightarrow> node_addr ptr \<Rightarrow> bool" where
  "tree_at t Leaf p par \<longleftrightarrow> p = None"
| "tree_at t (Node l a r) p par \<longleftrightarrow>
     p = Some a \<and> pa t a = par \<and> tree_at t l (lc t a) (Some a) \<and> tree_at t r (rc t a) (Some a)"

text \<open>A context: the way from a position up to the root, with the subtrees beside it.\<close>

datatype frame = LF node_addr "node_addr tree" | RF "node_addr tree" node_addr

fun plug :: "node_addr tree \<Rightarrow> frame list \<Rightarrow> node_addr tree" where
  "plug T [] = T"
| "plug T (LF a r # k) = plug (Node T a r) k"
| "plug T (RF l a # k) = plug (Node l a T) k"

fun pre :: "frame list \<Rightarrow> node_addr list" where
  "pre [] = []"
| "pre (LF a r # k) = pre k"
| "pre (RF l a # k) = pre k @ inorder l @ [a]"

fun post :: "frame list \<Rightarrow> node_addr list" where
  "post [] = []"
| "post (LF a r # k) = a # inorder r @ post k"
| "post (RF l a # k) = post k"

definition ctx_set :: "frame list \<Rightarrow> node_addr set" where
  "ctx_set k = set (pre k) \<union> set (post k)"

lemma ctx_set_simps [simp]:
  "ctx_set [] = {}" "ctx_set (LF a r # k) = insert a (set_tree r \<union> ctx_set k)"
  "ctx_set (RF l a # k) = insert a (set_tree l \<union> ctx_set k)"
  by (auto simp: ctx_set_def)

fun ctx_at :: "('k, 'v) avl_tree \<Rightarrow> frame list \<Rightarrow> node_addr ptr \<Rightarrow> node_addr ptr \<Rightarrow> bool" where
  "ctx_at t [] p par \<longleftrightarrow> par = None \<and> av_root t = p"
| "ctx_at t (LF a r # k) p par \<longleftrightarrow>
     par = Some a \<and> lc t a = p \<and> tree_at t r (rc t a) (Some a) \<and> ctx_at t k (Some a) (pa t a)"
| "ctx_at t (RF l a # k) p par \<longleftrightarrow>
     par = Some a \<and> rc t a = p \<and> tree_at t l (lc t a) (Some a) \<and> ctx_at t k (Some a) (pa t a)"

lemma inorder_plug: "inorder (plug T k) = pre k @ inorder T @ post k"
  by (induction T k rule: plug.induct) auto

lemma tree_at_plug: "tree_at t (plug T k) (av_root t) None \<longleftrightarrow> (\<exists>p par. tree_at t T p par \<and> ctx_at t k p par)"
  by (induction T k rule: plug.induct) auto

lemma tree_at_root_in: "tree_at t T (Some x) par \<Longrightarrow> x \<in> set_tree T"
  by (cases T) auto

lemma ctx_par_in: "ctx_at t k p (Some a) \<Longrightarrow> a \<in> ctx_set k"
  by (cases k rule: pre.cases) auto

lemma ctx_root_in: "ctx_at t k p par \<Longrightarrow> k \<noteq> [] \<Longrightarrow> av_root t \<in> Some ` ctx_set k"
proof (induction k arbitrary: p par)
  case (Cons f k)
  then show ?case by (cases k; cases f) auto
qed simp

lemma tree_at_cong:
  assumes "\<And>a. a \<in> set_tree T \<Longrightarrow> lc t' a = lc t a \<and> rc t' a = rc t a \<and> pa t' a = pa t a"
  shows "tree_at t' T p par = tree_at t T p par"
  using assms by (induction T arbitrary: p par) auto

lemma ctx_at_cong:
  assumes "\<And>a. a \<in> ctx_set k \<Longrightarrow> lc t' a = lc t a \<and> rc t' a = rc t a \<and> pa t' a = pa t a" "av_root t' = av_root t"
  shows "ctx_at t' k p par = ctx_at t k p par"
  using assms
proof (induction k arbitrary: p par)
  case (Cons f k)
  then show ?case by (cases f) (simp_all add: tree_at_cong[of _ t' t])
qed simp

text \<open>The same tree below another parent.\<close>

lemma tree_at_reparent:
  assumes "tree_at t T p par" "distinct (inorder T)"
    and "\<And>a. a \<in> set_tree T \<Longrightarrow> lc t' a = lc t a \<and> rc t' a = rc t a \<and> pa t' a = (if Some a = p then par' else pa t a)"
  shows "tree_at t' T p par'"
proof (cases T)
  case (Node l a r)
  then have "a \<notin> set_tree l" "a \<notin> set_tree r" using assms(2) by auto
  then have "b \<in> set_tree l \<or> b \<in> set_tree r \<Longrightarrow> lc t' b = lc t b \<and> rc t' b = rc t b \<and> pa t' b = pa t b" for b
    using assms(1,3) Node by force
  then show ?thesis using assms Node by (simp add: tree_at_cong[of _ t' t])
qed (use assms in simp)

lemma av_replace_keeps [simp]:
  "ba (av_replace par x z t) b = ba t b" "ky (av_replace par x z t) b = ky t b" "vl (av_replace par x z t) b = vl t b"
  "av_cmp (av_replace par x z t) = av_cmp t" "av_pool (av_replace par x z t) = av_pool t"
  by (auto simp: av_replace_def Let_def split: option.splits)

lemma av_replace_fields:
  assumes "ctx_at t k p par" "b \<notin> ctx_set k"
  shows "lc (av_replace par x z t) b = lc t b" "rc (av_replace par x z t) b = rc t b"
    "pa (av_replace par x z t) b = (if b = z then par else pa t b)"
  using assms ctx_par_in[of t k p] by (auto simp: av_replace_def Let_def split: option.splits)

lemma av_replace_ctx:
  assumes ctx: "ctx_at t k (Some x) par" and x: "x \<notin> ctx_set k" and z: "z \<notin> ctx_set k" and d: "distinct (pre k @ post k)"
  shows "ctx_at (av_replace par x z t) k (Some z) par"
proof (cases k)
  case Nil
  then show ?thesis using ctx by (simp add: av_replace_def)
next
  case (Cons f k')
  have root: "av_root t \<noteq> Some x" using ctx_root_in[OF ctx] x Cons by auto
  show ?thesis
  proof (cases f)
    case (LF a r)
    then have a: "par = Some a" "lc t a = Some x" using ctx Cons by simp_all
    have na: "a \<notin> set_tree r" "a \<notin> ctx_set k'" using d Cons LF by (auto simp: ctx_set_def)
    have "tree_at (av_replace par x z t) r (rc t a) (Some a) = tree_at t r (rc t a) (Some a)"
      "ctx_at (av_replace par x z t) k' (Some a) (pa t a) = ctx_at t k' (Some a) (pa t a)"
      using na z Cons LF root by (auto intro!: tree_at_cong ctx_at_cong simp: av_replace_def a)
    then show ?thesis using ctx Cons LF z root by (auto simp: av_replace_def a)
  next
    case (RF l a)
    then have a: "par = Some a" "rc t a = Some x" "Some x \<noteq> lc t a"
      using ctx Cons x tree_at_root_in[of t l x "Some a"] by auto
    have na: "a \<notin> set_tree l" "a \<notin> ctx_set k'" using d Cons RF by (auto simp: ctx_set_def)
    have "tree_at (av_replace par x z t) l (lc t a) (Some a) = tree_at t l (lc t a) (Some a)"
      "ctx_at (av_replace par x z t) k' (Some a) (pa t a) = ctx_at t k' (Some a) (pa t a)"
      using na z Cons RF root a(3) by (auto intro!: tree_at_cong ctx_at_cong simp: av_replace_def a)
    then show ?thesis using ctx Cons RF z root a(3) by (auto simp: av_replace_def a)
  qed
qed

section \<open>Rotations\<close>

text \<open>The tree of the store is \<open>T\<close> in the context \<open>k\<close>, and \<open>par\<close> is the parent of \<open>T\<close>.\<close>

definition focus :: "('k, 'v) avl_tree \<Rightarrow> node_addr tree \<Rightarrow> frame list \<Rightarrow> node_addr ptr \<Rightarrow> bool" where
  "focus t T k par \<longleftrightarrow> (\<exists>p. tree_at t T p par \<and> ctx_at t k p par) \<and> distinct (inorder (plug T k))"

text \<open>Only links and balance factors differ.\<close>

definition same_data :: "('k, 'v) avl_tree \<Rightarrow> ('k, 'v) avl_tree \<Rightarrow> bool" where
  "same_data t' t \<longleftrightarrow> (\<forall>a. ky t' a = ky t a \<and> vl t' a = vl t a) \<and> av_cmp t' = av_cmp t \<and> av_pool t' = av_pool t"

lemma same_data_refl [simp]: "same_data t t"
  by (simp add: same_data_def)

lemma same_data_trans: "same_data t'' t' \<Longrightarrow> same_data t' t \<Longrightarrow> same_data t'' t"
  by (simp add: same_data_def)

lemma same_data_balance [simp]: "same_data (set_balance a i t) t' \<longleftrightarrow> same_data t t'"
  by (simp add: same_data_def)

lemma focus_balance [simp]: "focus (set_balance a i t) T k par = focus t T k par"
  by (simp add: focus_def tree_at_cong[of _ "set_balance a i t" t] ctx_at_cong[of _ "set_balance a i t" t])

lemma focus_disjoint: "focus t T k par \<Longrightarrow> b \<in> set_tree T \<Longrightarrow> b \<notin> ctx_set k"
  unfolding focus_def inorder_plug ctx_set_def set_inorder[symmetric] by auto

text \<open>Restructuring below a context: the new subtree replaces the old one, and nothing else of the
  context is written.\<close>

lemma focus_restructure:
  assumes f: "focus t T k par" and x: "tree_at t T (Some x) par" and z: "z \<in> set_tree T"
    and inord: "inorder T' = inorder T"
    and new: "tree_at t' T' (Some z) par"
    and frame: "\<And>b. b \<in> ctx_set k \<Longrightarrow> lc t' b = lc (av_replace par x z t) b \<and> rc t' b = rc (av_replace par x z t) b
      \<and> pa t' b = pa (av_replace par x z t) b" "av_root t' = av_root (av_replace par x z t)"
  shows "focus t' T' k par"
proof -
  have d: "distinct (pre k @ inorder T @ post k)" using f by (simp add: focus_def inorder_plug)
  have "ctx_at t k (Some x) par" using f x by (cases T) (auto simp: focus_def)
  moreover have "x \<notin> ctx_set k" "z \<notin> ctx_set k" "distinct (pre k @ post k)"
    using d z tree_at_root_in[OF x] by (auto simp: ctx_set_def simp flip: set_inorder)
  ultimately have "ctx_at (av_replace par x z t) k (Some z) par" by (rule av_replace_ctx)
  then have "ctx_at t' k (Some z) par" using frame by (simp add: ctx_at_cong[of k t'])
  then show ?thesis using new d inord by (auto simp: focus_def inorder_plug)
qed

lemma rotate_left_ok:
  assumes f: "focus t (Node A x (Node B z C)) k par" and bal: "ba t x = 2" "ba t z = 1 \<or> ba t z = 0"
  shows "\<exists>t'. muggle_avl_tree_rotate_left t x = Some (ba t z \<noteq> 0, t') \<and> focus t' (Node (Node A x B) z C) k par \<and>
    same_data t' t \<and> (\<forall>b. ba t' b = (if b = x then if ba t z = 0 then 1 else 0
      else if b = z then if ba t z = 0 then -1 else 0 else ba t b))"
proof -
  define t1 where "t1 = av_replace par x z t"
  define t2 where "t2 = set_left z (Some x) (set_parent x (Some z) (av_reparent (lc t1 z) x (set_right x (lc t1 z) t1)))"
  define t3 where "t3 = (if ba t z = 0 then set_balance z (-1) (set_balance x 1 t2) else set_balance z 0 (set_balance x 0 t2))"
  have T: "tree_at t (Node A x (Node B z C)) (Some x) par" and ctx: "ctx_at t k (Some x) par"
    using f by (auto simp: focus_def)
  have d: "distinct (pre k @ (inorder A @ x # inorder B @ z # inorder C) @ post k)"
    using f by (simp add: focus_def inorder_plug)
  have ne: "x \<noteq> z" using d by auto
  have run: "muggle_avl_tree_rotate_left t x = Some (ba t z \<noteq> 0, t3)"
    using T bal ne by (simp add: muggle_avl_tree_rotate_left_def MUGGLE_ASSERT_def t1_def t2_def t3_def Let_def)
  have nctx: "b \<notin> ctx_set k" if "b \<in> set_tree A \<union> set_tree B \<union> set_tree C \<union> {x, z}" for b
    using focus_disjoint[OF f, of b] that by auto
  note t1 = av_replace_fields[OF ctx nctx, of _ x z, folded t1_def]
  have d2: "set_tree A \<inter> set_tree B = {}" "set_tree B \<inter> set_tree C = {}" "x \<notin> set_tree A" "x \<notin> set_tree B"
    "x \<notin> set_tree C" "z \<notin> set_tree A" "z \<notin> set_tree B" "z \<notin> set_tree C" "set_tree A \<inter> set_tree C = {}" "distinct (inorder B)"
    using d by (auto simp flip: set_inorder)
  have lz: "b \<notin> set_tree B \<Longrightarrow> Some b \<noteq> lc t z" for b using T tree_at_root_in[of t B b] by auto
  have f2: "lc t2 b = (if b = z then Some x else lc t1 b)" "rc t2 b = (if b = x then lc t z else rc t1 b)"
    "pa t2 b = (if b = x then Some z else if Some b = lc t z then Some x else pa t1 b)" for b
    using t1(1)[of z] by (simp_all add: t2_def)
  have "tree_at t2 A (lc t x) (Some x) = tree_at t A (lc t x) (Some x)"
    "tree_at t2 C (rc t z) (Some z) = tree_at t C (rc t z) (Some z)"
    by (rule tree_at_cong; use d2 lz t1 f2 in auto)+
  moreover have "tree_at t2 B (lc t z) (Some x)"
    by (rule tree_at_reparent[of t B "lc t z" "Some z"]) (use T d2 lz t1 f2 in auto)
  ultimately have new: "tree_at t2 (Node (Node A x B) z C) (Some z) par"
    using T t1[of x] t1[of z] ne lz d2 f2 by auto
  have foc: "focus t2 (Node (Node A x B) z C) k par"
    by (rule focus_restructure[OF f T _ _ new]) (use nctx lz t1[of z] in \<open>auto simp: t2_def t1_def\<close>)
  have "focus t3 (Node (Node A x B) z C) k par" "same_data t3 t" using foc
    by (auto simp: t3_def) (auto simp: same_data_def t2_def t1_def)
  moreover have "ba t2 b = ba t b" for b by (simp add: t2_def t1_def)
  ultimately show ?thesis using run ne by (intro exI[of _ t3]) (auto simp: t3_def)
qed

lemma rotate_right_ok:
  assumes f: "focus t (Node (Node C z B) x A) k par" and bal: "ba t x = -2" "ba t z = -1 \<or> ba t z = 0"
  shows "\<exists>t'. muggle_avl_tree_rotate_right t x = Some (ba t z \<noteq> 0, t') \<and> focus t' (Node C z (Node B x A)) k par \<and>
    same_data t' t \<and> (\<forall>b. ba t' b = (if b = x then if ba t z = 0 then -1 else 0
      else if b = z then if ba t z = 0 then 1 else 0 else ba t b))"
proof -
  define t1 where "t1 = av_replace par x z t"
  define t2 where "t2 = set_right z (Some x) (set_parent x (Some z) (av_reparent (rc t1 z) x (set_left x (rc t1 z) t1)))"
  define t3 where "t3 = (if ba t z = 0 then set_balance z 1 (set_balance x (-1) t2) else set_balance z 0 (set_balance x 0 t2))"
  have T: "tree_at t (Node (Node C z B) x A) (Some x) par" and ctx: "ctx_at t k (Some x) par"
    using f by (auto simp: focus_def)
  have d: "distinct (pre k @ (inorder C @ z # inorder B @ x # inorder A) @ post k)"
    using f by (simp add: focus_def inorder_plug)
  have ne: "x \<noteq> z" using d by auto
  have run: "muggle_avl_tree_rotate_right t x = Some (ba t z \<noteq> 0, t3)"
    using T bal ne by (simp add: muggle_avl_tree_rotate_right_def MUGGLE_ASSERT_def t1_def t2_def t3_def Let_def)
  have nctx: "b \<notin> ctx_set k" if "b \<in> set_tree A \<union> set_tree B \<union> set_tree C \<union> {x, z}" for b
    using focus_disjoint[OF f, of b] that by auto
  note t1 = av_replace_fields[OF ctx nctx, of _ x z, folded t1_def]
  have d2: "set_tree A \<inter> set_tree B = {}" "set_tree B \<inter> set_tree C = {}" "x \<notin> set_tree A" "x \<notin> set_tree B"
    "x \<notin> set_tree C" "z \<notin> set_tree A" "z \<notin> set_tree B" "z \<notin> set_tree C" "set_tree A \<inter> set_tree C = {}" "distinct (inorder B)"
    using d by (auto simp flip: set_inorder)
  have rz: "b \<notin> set_tree B \<Longrightarrow> Some b \<noteq> rc t z" for b using T tree_at_root_in[of t B b] by auto
  have f2: "rc t2 b = (if b = z then Some x else rc t1 b)" "lc t2 b = (if b = x then rc t z else lc t1 b)"
    "pa t2 b = (if b = x then Some z else if Some b = rc t z then Some x else pa t1 b)" for b
    using t1(2)[of z] by (simp_all add: t2_def)
  have "tree_at t2 A (rc t x) (Some x) = tree_at t A (rc t x) (Some x)"
    "tree_at t2 C (lc t z) (Some z) = tree_at t C (lc t z) (Some z)"
    by (rule tree_at_cong; use d2 rz t1 f2 in auto)+
  moreover have "tree_at t2 B (rc t z) (Some x)"
    by (rule tree_at_reparent[of t B "rc t z" "Some z"]) (use T d2 rz t1 f2 in auto)
  ultimately have new: "tree_at t2 (Node C z (Node B x A)) (Some z) par"
    using T t1[of x] t1[of z] ne rz d2 f2 by auto
  have foc: "focus t2 (Node C z (Node B x A)) k par"
    by (rule focus_restructure[OF f T _ _ new]) (use nctx rz t1[of z] in \<open>auto simp: t2_def t1_def\<close>)
  have "focus t3 (Node C z (Node B x A)) k par" "same_data t3 t" using foc
    by (auto simp: t3_def) (auto simp: same_data_def t2_def t1_def)
  moreover have "ba t2 b = ba t b" for b by (simp add: t2_def t1_def)
  ultimately show ?thesis using run ne by (intro exI[of _ t3]) (auto simp: t3_def)
qed

lemma rotate_right_left_ok:
  assumes f: "focus t (Node A x (Node (Node B y C) z D)) k par" and bal: "ba t x = 2" "ba t z = -1"
  shows "\<exists>t'. muggle_avl_tree_rotate_right_left t x = Some t' \<and> focus t' (Node (Node A x B) y (Node C z D)) k par \<and>
    same_data t' t \<and> (\<forall>b. ba t' b = (if b = x then if ba t y > 0 then -1 else 0
      else if b = z then if ba t y < 0 then 1 else 0 else if b = y then 0 else ba t b))"
proof -
  define t1 where "t1 = av_replace par x y t"
  define t2 where "t2 = av_reparent (rc t y) z (set_left z (rc t y) (av_reparent (lc t y) x (set_right x (lc t y) t1)))"
  define t3 where "t3 = set_parent z (Some y) (set_right y (Some z) (set_parent x (Some y) (set_left y (Some x) t2)))"
  define t4 where "t4 = set_balance y 0 (if ba t y > 0 then set_balance z 0 (set_balance x (-1) t3)
    else if ba t y = 0 then set_balance z 0 (set_balance x 0 t3) else set_balance z 1 (set_balance x 0 t3))"
  have T: "tree_at t (Node A x (Node (Node B y C) z D)) (Some x) par" and ctx: "ctx_at t k (Some x) par"
    using f by (auto simp: focus_def)
  have d: "distinct (pre k @ (inorder A @ x # inorder B @ y # inorder C @ z # inorder D) @ post k)"
    using f by (simp add: focus_def inorder_plug)
  have ne: "x \<noteq> z" "x \<noteq> y" "y \<noteq> z" using d by auto
  have by3: "ba t3 b = ba t b" for b by (simp add: t3_def t2_def t1_def)
  have ptr: "pa t x = par" "rc t x = Some z" "lc t z = Some y" using T by simp_all
  have asserts: "MUGGLE_ASSERT (ba t x = 2) = Some ()" "MUGGLE_ASSERT (ba t z = - 1) = Some ()"
    by (simp_all only: MUGGLE_ASSERT_def bal simp_thms if_False)
  have by4: "ba (set_parent a b u) c = ba u c" "ba (set_right a b u) c = ba u c" "ba (set_left a b u) c = ba u c"
    "ba (av_reparent b a u) c = ba u c" "ba (av_replace b a c' u) c = ba u c" for a b c c' u
    by simp_all
  have run: "muggle_avl_tree_rotate_right_left t x = Some t4"
    unfolding muggle_avl_tree_rotate_right_left_def Let_def ptr bind.bind_lunit asserts t4_def
    by (simp only: t3_def t2_def t1_def by4)
  have nctx: "b \<notin> ctx_set k" if "b \<in> set_tree A \<union> set_tree B \<union> set_tree C \<union> set_tree D \<union> {x, y, z}" for b
    using focus_disjoint[OF f, of b] that by auto
  note t1 = av_replace_fields[OF ctx nctx, of _ x y, folded t1_def]
  have d2: "set_tree A \<inter> set_tree B = {}" "set_tree A \<inter> set_tree C = {}" "set_tree A \<inter> set_tree D = {}"
    "set_tree B \<inter> set_tree C = {}" "set_tree B \<inter> set_tree D = {}" "set_tree C \<inter> set_tree D = {}"
    "\<forall>a \<in> {x, y, z}. a \<notin> set_tree A \<and> a \<notin> set_tree B \<and> a \<notin> set_tree C \<and> a \<notin> set_tree D"
    "distinct (inorder B)" "distinct (inorder C)"
    using d by (auto simp flip: set_inorder)
  have ly: "b \<notin> set_tree B \<Longrightarrow> Some b \<noteq> lc t y" for b using T tree_at_root_in[of t B b] by auto
  have ry: "b \<notin> set_tree C \<Longrightarrow> Some b \<noteq> rc t y" for b using T tree_at_root_in[of t C b] by auto
  have fresh: "b \<noteq> x \<and> b \<noteq> y \<and> b \<noteq> z" if "b \<in> set_tree A \<union> set_tree B \<union> set_tree C \<union> set_tree D" for b
    using d2(7) that by blast
  have far: "Some b \<noteq> lc t y \<and> Some b \<noteq> rc t y" if "b \<in> set_tree A \<union> set_tree D" for b
    using ly[of b] ry[of b] d2(1-6) that by blast
  have near: "b \<in> set_tree B \<Longrightarrow> Some b \<noteq> rc t y" "b \<in> set_tree C \<Longrightarrow> Some b \<noteq> lc t y" for b
    using ly[of b] ry[of b] d2(4) by blast+
  have f3: "lc t3 b = (if b = y then Some x else if b = z then rc t y else lc t1 b)"
    "rc t3 b = (if b = y then Some z else if b = x then lc t y else rc t1 b)"
    "pa t3 b = (if b = x \<or> b = z then Some y else if Some b = rc t y then Some z
       else if Some b = lc t y then Some x else pa t1 b)" for b
    using ne by (auto simp: t3_def t2_def)
  have "tree_at t3 A (lc t x) (Some x) = tree_at t A (lc t x) (Some x)"
    "tree_at t3 D (rc t z) (Some z) = tree_at t D (rc t z) (Some z)"
    by (rule tree_at_cong; simp add: t1 f3 far fresh)+
  moreover have "tree_at t3 B (lc t y) (Some x)"
    by (rule tree_at_reparent[of t B "lc t y" "Some y"]) (use T d2(8,9) in \<open>auto simp: t1 f3 near fresh\<close>)
  moreover have "tree_at t3 C (rc t y) (Some z)"
    by (rule tree_at_reparent[of t C "rc t y" "Some y"]) (use T d2(8,9) in \<open>auto simp: t1 f3 near fresh\<close>)
  ultimately have new: "tree_at t3 (Node (Node A x B) y (Node C z D)) (Some y) par"
    using T t1[of x] t1[of z] t1[of y] ne ly[of y] ry[of y] d2(7) f3 by simp
  have foc: "focus t3 (Node (Node A x B) y (Node C z D)) k par"
    by (rule focus_restructure[OF f T _ _ new]) (use nctx ly ry in \<open>auto simp: t3_def t2_def t1_def\<close>)
  have "focus t4 (Node (Node A x B) y (Node C z D)) k par" "same_data t4 t" using foc
    by (auto simp: t4_def) (auto simp: same_data_def t3_def t2_def t1_def)
  then show ?thesis using run ne by (intro exI[of _ t4]) (auto simp: t4_def by3)
qed

lemma rotate_left_right_ok:
  assumes f: "focus t (Node (Node D z (Node C y B)) x A) k par" and bal: "ba t x = -2" "ba t z = 1"
  shows "\<exists>t'. muggle_avl_tree_rotate_left_right t x = Some t' \<and> focus t' (Node (Node D z C) y (Node B x A)) k par \<and>
    same_data t' t \<and> (\<forall>b. ba t' b = (if b = x then if ba t y < 0 then 1 else 0
      else if b = z then if ba t y > 0 then -1 else 0 else if b = y then 0 else ba t b))"
proof -
  define t1 where "t1 = av_replace par x y t"
  define t2 where "t2 = av_reparent (lc t y) z (set_right z (lc t y) (av_reparent (rc t y) x (set_left x (rc t y) t1)))"
  define t3 where "t3 = set_parent x (Some y) (set_right y (Some x) (set_parent z (Some y) (set_left y (Some z) t2)))"
  define t4 where "t4 = set_balance y 0 (if ba t y > 0 then set_balance z (-1) (set_balance x 0 t3)
    else if ba t y = 0 then set_balance z 0 (set_balance x 0 t3) else set_balance z 0 (set_balance x 1 t3))"
  have T: "tree_at t (Node (Node D z (Node C y B)) x A) (Some x) par" and ctx: "ctx_at t k (Some x) par"
    using f by (auto simp: focus_def)
  have d: "distinct (pre k @ (inorder D @ z # inorder C @ y # inorder B @ x # inorder A) @ post k)"
    using f by (simp add: focus_def inorder_plug)
  have ne: "x \<noteq> z" "x \<noteq> y" "y \<noteq> z" using d by auto
  have by3: "ba t3 b = ba t b" for b by (simp add: t3_def t2_def t1_def)
  have ptr: "pa t x = par" "lc t x = Some z" "rc t z = Some y" using T by simp_all
  have asserts: "MUGGLE_ASSERT (ba t x = - 2) = Some ()" "MUGGLE_ASSERT (ba t z = 1) = Some ()"
    by (simp_all only: MUGGLE_ASSERT_def bal simp_thms if_False)
  have by4: "ba (set_parent a b u) c = ba u c" "ba (set_right a b u) c = ba u c" "ba (set_left a b u) c = ba u c"
    "ba (av_reparent b a u) c = ba u c" "ba (av_replace b a c' u) c = ba u c" for a b c c' u
    by simp_all
  have run: "muggle_avl_tree_rotate_left_right t x = Some t4"
    unfolding muggle_avl_tree_rotate_left_right_def Let_def ptr bind.bind_lunit asserts t4_def
    by (simp only: t3_def t2_def t1_def by4)
  have nctx: "b \<notin> ctx_set k" if "b \<in> set_tree A \<union> set_tree B \<union> set_tree C \<union> set_tree D \<union> {x, y, z}" for b
    using focus_disjoint[OF f, of b] that by auto
  note t1 = av_replace_fields[OF ctx nctx, of _ x y, folded t1_def]
  have d2: "set_tree A \<inter> set_tree B = {}" "set_tree A \<inter> set_tree C = {}" "set_tree A \<inter> set_tree D = {}"
    "set_tree B \<inter> set_tree C = {}" "set_tree B \<inter> set_tree D = {}" "set_tree C \<inter> set_tree D = {}"
    "\<forall>a \<in> {x, y, z}. a \<notin> set_tree A \<and> a \<notin> set_tree B \<and> a \<notin> set_tree C \<and> a \<notin> set_tree D"
    "distinct (inorder B)" "distinct (inorder C)"
    using d by (auto simp flip: set_inorder)
  have ry: "b \<notin> set_tree B \<Longrightarrow> Some b \<noteq> rc t y" for b using T tree_at_root_in[of t B b] by auto
  have ly: "b \<notin> set_tree C \<Longrightarrow> Some b \<noteq> lc t y" for b using T tree_at_root_in[of t C b] by auto
  have fresh: "b \<noteq> x \<and> b \<noteq> y \<and> b \<noteq> z" if "b \<in> set_tree A \<union> set_tree B \<union> set_tree C \<union> set_tree D" for b
    using d2(7) that by blast
  have far: "Some b \<noteq> lc t y \<and> Some b \<noteq> rc t y" if "b \<in> set_tree A \<union> set_tree D" for b
    using ly[of b] ry[of b] d2(1-6) that by blast
  have near: "b \<in> set_tree B \<Longrightarrow> Some b \<noteq> lc t y" "b \<in> set_tree C \<Longrightarrow> Some b \<noteq> rc t y" for b
    using ly[of b] ry[of b] d2(4) by blast+
  have f3: "rc t3 b = (if b = y then Some x else if b = z then lc t y else rc t1 b)"
    "lc t3 b = (if b = y then Some z else if b = x then rc t y else lc t1 b)"
    "pa t3 b = (if b = x \<or> b = z then Some y else if Some b = lc t y then Some z
       else if Some b = rc t y then Some x else pa t1 b)" for b
    using ne by (auto simp: t3_def t2_def)
  have "tree_at t3 A (rc t x) (Some x) = tree_at t A (rc t x) (Some x)"
    "tree_at t3 D (lc t z) (Some z) = tree_at t D (lc t z) (Some z)"
    by (rule tree_at_cong; simp add: t1 f3 far fresh)+
  moreover have "tree_at t3 B (rc t y) (Some x)"
    by (rule tree_at_reparent[of t B "rc t y" "Some y"]) (use T d2(8,9) in \<open>auto simp: t1 f3 near fresh\<close>)
  moreover have "tree_at t3 C (lc t y) (Some z)"
    by (rule tree_at_reparent[of t C "lc t y" "Some y"]) (use T d2(8,9) in \<open>auto simp: t1 f3 near fresh\<close>)
  ultimately have new: "tree_at t3 (Node (Node D z C) y (Node B x A)) (Some y) par"
    using T t1[of x] t1[of z] t1[of y] ne ly[of y] ry[of y] d2(7) f3 by simp
  have foc: "focus t3 (Node (Node D z C) y (Node B x A)) k par"
    by (rule focus_restructure[OF f T _ _ new]) (use nctx ly ry in \<open>auto simp: t3_def t2_def t1_def\<close>)
  have "focus t4 (Node (Node D z C) y (Node B x A)) k par" "same_data t4 t" using foc
    by (auto simp: t4_def) (auto simp: same_data_def t3_def t2_def t1_def)
  then show ?thesis using run ne by (intro exI[of _ t4]) (auto simp: t4_def by3)
qed

section \<open>Balance\<close>

fun avl :: "('k, 'v) avl_tree \<Rightarrow> node_addr tree \<Rightarrow> bool" where
  "avl t Leaf \<longleftrightarrow> True"
| "avl t (Node l a r) \<longleftrightarrow>
     ba t a = int (height r) - int (height l) \<and> ba t a \<in> {-1, 0, 1} \<and> avl t l \<and> avl t r"

declare avl.simps(2) [simp del]

lemma avl_NodeD:
  assumes "avl t (Node l a r)"
  shows "ba t a = int (height r) - int (height l)" "ba t a \<in> {-1, 0, 1}" "avl t l" "avl t r"
  using assms unfolding avl.simps by blast+

text \<open>The parts of a frame: its node, its side, the subtree beside the hole, the tree with the hole
  filled, and the balance factor it has with a hole of a given height.\<close>

fun fr_node :: "frame \<Rightarrow> node_addr" where
  "fr_node (LF a r) = a" | "fr_node (RF l a) = a"

fun fr_side :: "frame \<Rightarrow> avl_side" where
  "fr_side (LF a r) = AVL_TREE_SIDE_LEFT" | "fr_side (RF l a) = AVL_TREE_SIDE_RIGHT"

fun fr_sib :: "frame \<Rightarrow> node_addr tree" where
  "fr_sib (LF a r) = r" | "fr_sib (RF l a) = l"

fun fill_in :: "frame \<Rightarrow> node_addr tree \<Rightarrow> node_addr tree" where
  "fill_in (LF a r) T = Node T a r" | "fill_in (RF l a) T = Node l a T"

fun fr_bal :: "frame \<Rightarrow> nat \<Rightarrow> int" where
  "fr_bal (LF a r) h = int (height r) - int h" | "fr_bal (RF l a) h = int h - int (height l)"

fun ctx_avl :: "('k, 'v) avl_tree \<Rightarrow> frame list \<Rightarrow> nat \<Rightarrow> bool" where
  "ctx_avl t [] h \<longleftrightarrow> True"
| "ctx_avl t (f # k) h \<longleftrightarrow>
     ba t (fr_node f) = fr_bal f h \<and> fr_bal f h \<in> {-1, 0, 1} \<and> avl t (fr_sib f) \<and>
     ctx_avl t k (Suc (max h (height (fr_sib f))))"

lemma plug_Cons: "plug T (f # k) = plug (fill_in f T) k"
  by (cases f) auto

lemma ctx_set_Cons: "ctx_set (f # k) = insert (fr_node f) (set_tree (fr_sib f) \<union> ctx_set k)"
  by (cases f) auto

lemma height_fill_in [simp]: "height (fill_in f T) = Suc (max (height T) (height (fr_sib f)))"
  by (cases f) auto

lemma avl_fill_in:
  "avl t (fill_in f T) \<longleftrightarrow> ba t (fr_node f) = fr_bal f (height T) \<and> fr_bal f (height T) \<in> {-1, 0, 1} \<and> avl t (fr_sib f) \<and> avl t T"
  by (cases f) (auto simp: avl.simps(2))

lemma avl_plug: "avl t (plug T k) \<longleftrightarrow> avl t T \<and> ctx_avl t k (height T)"
proof (induction k arbitrary: T)
  case (Cons f k)
  show ?case by (cases f) (auto simp: Cons.IH max.commute avl.simps(2))
qed simp

lemma avl_cong: "(\<And>a. a \<in> set_tree T \<Longrightarrow> ba t' a = ba t a) \<Longrightarrow> avl t' T = avl t T"
  by (induction T) (auto simp: avl.simps(2))

lemma ctx_avl_cong: "(\<And>a. a \<in> ctx_set k \<Longrightarrow> ba t' a = ba t a) \<Longrightarrow> ctx_avl t' k h = ctx_avl t k h"
proof (induction k arbitrary: h)
  case (Cons f k)
  then show ?case by (simp add: ctx_set_Cons avl_cong[of _ t' t])
qed simp

text \<open>Moving the position up, and to the root.\<close>

lemma focus_up: "focus t T (f # k) par \<longleftrightarrow> focus t (fill_in f T) k (pa t (fr_node f)) \<and> par = Some (fr_node f)"
  by (cases f) (auto simp: focus_def)

lemma focus_top: "focus t T k par \<Longrightarrow> focus t (plug T k) [] None"
  unfolding focus_def using tree_at_plug[of t T k] by auto

lemma focus_parent: "focus t T k par \<Longrightarrow> par = (case k of [] \<Rightarrow> None | f # _ \<Rightarrow> Some (fr_node f))"
  by (cases k) (auto simp: focus_up, auto simp: focus_def)

lemma focus_side:
  assumes "focus t T (f # k) par" "tree_at t T (Some a) par"
  shows "side_of t (fr_node f) a = fr_side f"
proof (cases f)
  case (LF b r)
  then show ?thesis using assms by (cases T) (auto simp: focus_def side_of_def)
next
  case (RF l b)
  have "a \<notin> set_tree l" using assms(1) tree_at_root_in[OF assms(2)] focus_disjoint[OF assms(1), of a] RF by auto
  then have "lc t b \<noteq> Some a" using assms RF tree_at_root_in[of t l a "Some b"] by (auto simp: focus_def)
  then show ?thesis using RF by (simp add: side_of_def)
qed

lemma focus_fill_in_root: "focus t (fill_in f T) k par \<Longrightarrow> tree_at t (fill_in f T) (Some (fr_node f)) par"
  by (cases f) (auto simp: focus_def)

lemma focus_fill_in_distinct:
  assumes "focus t (fill_in f T) k par"
  shows "fr_node f \<notin> ctx_set k" "fr_node f \<notin> set_tree T" "fr_node f \<notin> set_tree (fr_sib f)"
  using assms focus_disjoint[OF assms, of "fr_node f"]
  by (cases f; auto simp: focus_def inorder_plug)+

text \<open>Rebalancing a node that leans by two.\<close>

lemma rebalance_right:
  assumes f: "focus t (Node l a r) k par" and bal: "ba t a = 2" "int (height r) - int (height l) = 2"
    and sub: "avl t l" "avl t r"
  shows "\<exists>b t' T'. muggle_avl_tree_rebalance t a = Some (b, t') \<and> focus t' T' k par \<and> same_data t' t \<and>
    inorder T' = inorder (Node l a r) \<and> avl t' T' \<and> (\<forall>c \<in> ctx_set k. ba t' c = ba t c) \<and>
    height (Node l a r) = (if b then Suc (height T') else height T') \<and>
    (b \<longleftrightarrow> (\<forall>z. rc t a = Some z \<longrightarrow> ba t z \<noteq> 0))"
proof -
  obtain B z C where r: "r = Node B z C" using bal by (cases r) auto
  have T: "rc t a = Some z" using f r by (auto simp: focus_def)
  have d: "a \<notin> set_tree l" "a \<notin> set_tree B" "a \<notin> set_tree C" "z \<notin> set_tree l" "z \<notin> set_tree B" "z \<notin> set_tree C"
    "a \<noteq> z" "set_tree l \<inter> set_tree B = {}" "distinct (inorder B)"
    using f r by (auto simp: focus_def inorder_plug)
  have nctx: "c \<notin> ctx_set k" if "c = a \<or> c = z \<or> c \<in> set_tree B" for c using focus_disjoint[OF f, of c] that r by auto
  have hr: "height r = Suc (Suc (height l))" using bal(2) by linarith
  have zb: "ba t z = int (height C) - int (height B)" "ba t z \<in> {-1, 0, 1}" "avl t B" "avl t C"
    using avl_NodeD[OF sub(2)[unfolded r]] .
  have hBC: "max (height B) (height C) = Suc (height l)" using hr r by simp
  show ?thesis
  proof (cases "ba t z \<ge> 0")
    case True
    with zb hBC have hts: "ba t z = 1 \<and> height B = height l \<and> height C = Suc (height l) \<or>
        ba t z = 0 \<and> height B = Suc (height l) \<and> height C = Suc (height l)" by (simp add: max_def split: if_splits) linarith+
    then have z: "ba t z = 1 \<or> ba t z = 0" by blast
    from rotate_left_ok[OF f[unfolded r] bal(1) z] obtain t' where
      t': "muggle_avl_tree_rotate_left t a = Some (ba t z \<noteq> 0, t')" "focus t' (Node (Node l a B) z C) k par" "same_data t' t"
        "\<And>b. ba t' b = (if b = a then if ba t z = 0 then 1 else 0 else if b = z then if ba t z = 0 then -1 else 0 else ba t b)"
      by auto
    have "avl t' l = avl t l" "avl t' B = avl t B" "avl t' C = avl t C"
      by (rule avl_cong; use d t'(4) in auto)+
    then have "avl t' (Node (Node l a B) z C)" using hts sub(1) zb(3,4) d(7) by (elim disjE) (simp_all add: t'(4) avl.simps(2))
    moreover have "\<forall>c \<in> ctx_set k. ba t' c = ba t c" using t'(4) nctx by auto
    moreover have "muggle_avl_tree_rebalance t a = Some (ba t z \<noteq> 0, t')"
      using True bal(1) T t'(1) by (simp add: muggle_avl_tree_rebalance_def)
    moreover have "height (Node l a r) = (if ba t z \<noteq> 0 then Suc (height (Node (Node l a B) z C)) else height (Node (Node l a B) z C))"
      using hts by (elim disjE) (simp_all add: r)
    ultimately show ?thesis using t'(2,3) T r
      by (intro exI[of _ "ba t z \<noteq> 0"] exI[of _ t'] exI[of _ "Node (Node l a B) z C"]) (simp del: height_tree.simps)
  next
    case False
    then have z: "ba t z = -1" using zb(2) by auto
    then have hts: "height B = Suc (height l)" "height C = height l" using zb(1) hBC by (simp_all add: max_def split: if_splits)
    then obtain D y E where B: "B = Node D y E" by (cases B) auto
    from rotate_right_left_ok[OF f[unfolded r B] bal(1) z] obtain t' where
      t': "muggle_avl_tree_rotate_right_left t a = Some t'" "focus t' (Node (Node l a D) y (Node E z C)) k par" "same_data t' t"
        "\<And>b. ba t' b = (if b = a then if ba t y > 0 then -1 else 0 else if b = z then if ba t y < 0 then 1 else 0
           else if b = y then 0 else ba t b)"
      by auto
    have d': "y \<notin> set_tree l" "y \<notin> set_tree D" "y \<notin> set_tree E" "y \<notin> set_tree C" "y \<noteq> a" "y \<noteq> z"
      using f by (auto simp: focus_def inorder_plug r B)
    have "avl t' l = avl t l" "avl t' D = avl t D" "avl t' E = avl t E" "avl t' C = avl t C"
      by (rule avl_cong; use d d' B t'(4) in auto)+
    moreover have yb: "ba t y = int (height E) - int (height D)" "ba t y \<in> {-1, 0, 1}" "avl t D" "avl t E"
      using avl_NodeD[OF zb(3)[unfolded B]] .
    moreover have "max (height D) (height E) = height l" using hts(1) B by simp
    then have hDE: "ba t y = -1 \<and> height D = height l \<and> Suc (height E) = height l \<or> ba t y = 0 \<and> height D = height l \<and> height E = height l
        \<or> ba t y = 1 \<and> Suc (height D) = height l \<and> height E = height l"
      using yb(1,2) by (auto simp: max_def split: if_splits)
    ultimately have "avl t' (Node (Node l a D) y (Node E z C))" using hts(2) sub(1) zb(4) d(7) d'
      by (elim disjE) (simp_all add: t'(4) avl.simps(2))
    moreover have "\<forall>c \<in> ctx_set k. ba t' c = ba t c" using t'(4) nctx B by auto
    moreover have "muggle_avl_tree_rebalance t a = Some (True, t')"
      using z bal(1) T t'(1) by (simp add: muggle_avl_tree_rebalance_def)
    moreover have "height (Node l a r) = Suc (height (Node (Node l a D) y (Node E z C)))"
      using hDE hts by (elim disjE) (simp_all add: r)
    ultimately show ?thesis using t'(2,3) T r B z
      by (intro exI[of _ True] exI[of _ t'] exI[of _ "Node (Node l a D) y (Node E z C)"]) (simp del: height_tree.simps)
  qed
qed

lemma rebalance_left:
  assumes f: "focus t (Node r a l) k par" and bal: "ba t a = -2" "int (height r) - int (height l) = 2"
    and sub: "avl t l" "avl t r"
  shows "\<exists>b t' T'. muggle_avl_tree_rebalance t a = Some (b, t') \<and> focus t' T' k par \<and> same_data t' t \<and>
    inorder T' = inorder (Node r a l) \<and> avl t' T' \<and> (\<forall>c \<in> ctx_set k. ba t' c = ba t c) \<and>
    height (Node r a l) = (if b then Suc (height T') else height T') \<and>
    (b \<longleftrightarrow> (\<forall>z. lc t a = Some z \<longrightarrow> ba t z \<noteq> 0))"
proof -
  obtain B z C where r: "r = Node C z B" using bal by (cases r) auto
  have T: "lc t a = Some z" using f r by (auto simp: focus_def)
  have d: "a \<notin> set_tree l" "a \<notin> set_tree B" "a \<notin> set_tree C" "z \<notin> set_tree l" "z \<notin> set_tree B" "z \<notin> set_tree C"
    "a \<noteq> z" "set_tree l \<inter> set_tree B = {}" "distinct (inorder B)"
    using f r by (auto simp: focus_def inorder_plug)
  have nctx: "c \<notin> ctx_set k" if "c = a \<or> c = z \<or> c \<in> set_tree B" for c using focus_disjoint[OF f, of c] that r by auto
  have hr: "height r = Suc (Suc (height l))" using bal(2) by linarith
  have zb: "ba t z = int (height B) - int (height C)" "ba t z \<in> {-1, 0, 1}" "avl t C" "avl t B"
    using avl_NodeD[OF sub(2)[unfolded r]] .
  have hBC: "max (height B) (height C) = Suc (height l)" using hr r by (simp add: max.commute)
  show ?thesis
  proof (cases "ba t z \<le> 0")
    case True
    with zb hBC have hts: "ba t z = -1 \<and> height B = height l \<and> height C = Suc (height l) \<or>
        ba t z = 0 \<and> height B = Suc (height l) \<and> height C = Suc (height l)" by (simp add: max_def split: if_splits) linarith+
    then have z: "ba t z = -1 \<or> ba t z = 0" by blast
    from rotate_right_ok[OF f[unfolded r] bal(1) z] obtain t' where
      t': "muggle_avl_tree_rotate_right t a = Some (ba t z \<noteq> 0, t')" "focus t' (Node C z (Node B a l)) k par" "same_data t' t"
        "\<And>b. ba t' b = (if b = a then if ba t z = 0 then -1 else 0 else if b = z then if ba t z = 0 then 1 else 0 else ba t b)"
      by auto
    have "avl t' l = avl t l" "avl t' B = avl t B" "avl t' C = avl t C"
      by (rule avl_cong; use d t'(4) in auto)+
    then have "avl t' (Node C z (Node B a l))" using hts sub(1) zb(3,4) d(7) by (elim disjE) (simp_all add: t'(4) avl.simps(2))
    moreover have "\<forall>c \<in> ctx_set k. ba t' c = ba t c" using t'(4) nctx by auto
    moreover have "muggle_avl_tree_rebalance t a = Some (ba t z \<noteq> 0, t')"
      using True bal(1) T t'(1) by (simp add: muggle_avl_tree_rebalance_def)
    moreover have "height (Node r a l) = (if ba t z \<noteq> 0 then Suc (height (Node C z (Node B a l))) else height (Node C z (Node B a l)))"
      using hts by (elim disjE) (simp_all add: r)
    ultimately show ?thesis using t'(2,3) T r
      by (intro exI[of _ "ba t z \<noteq> 0"] exI[of _ t'] exI[of _ "Node C z (Node B a l)"]) (simp del: height_tree.simps)
  next
    case False
    then have z: "ba t z = 1" using zb(2) by auto
    then have hts: "height B = Suc (height l)" "height C = height l" using zb(1) hBC by (simp_all add: max_def split: if_splits)
    then obtain D y E where B: "B = Node E y D" by (cases B) auto
    from rotate_left_right_ok[OF f[unfolded r B] bal(1) z] obtain t' where
      t': "muggle_avl_tree_rotate_left_right t a = Some t'" "focus t' (Node (Node C z E) y (Node D a l)) k par" "same_data t' t"
        "\<And>b. ba t' b = (if b = a then if ba t y < 0 then 1 else 0 else if b = z then if ba t y > 0 then -1 else 0
           else if b = y then 0 else ba t b)"
      by auto
    have d': "y \<notin> set_tree l" "y \<notin> set_tree D" "y \<notin> set_tree E" "y \<notin> set_tree C" "y \<noteq> a" "y \<noteq> z"
      using f by (auto simp: focus_def inorder_plug r B)
    have "avl t' l = avl t l" "avl t' D = avl t D" "avl t' E = avl t E" "avl t' C = avl t C"
      by (rule avl_cong; use d d' B t'(4) in auto)+
    moreover have yb: "ba t y = int (height D) - int (height E)" "ba t y \<in> {-1, 0, 1}" "avl t E" "avl t D"
      using avl_NodeD[OF zb(4)[unfolded B]] .
    moreover have "max (height D) (height E) = height l" using hts(1) B by (simp add: max.commute)
    then have hDE: "ba t y = 1 \<and> height D = height l \<and> Suc (height E) = height l \<or> ba t y = 0 \<and> height D = height l \<and> height E = height l
        \<or> ba t y = -1 \<and> Suc (height D) = height l \<and> height E = height l"
      using yb(1,2) by (auto simp: max_def split: if_splits)
    ultimately have "avl t' (Node (Node C z E) y (Node D a l))" using hts(2) sub(1) zb(3) d(7) d'
      by (elim disjE) (simp_all add: t'(4) avl.simps(2))
    moreover have "\<forall>c \<in> ctx_set k. ba t' c = ba t c" using t'(4) nctx B by auto
    moreover have "muggle_avl_tree_rebalance t a = Some (True, t')"
      using z bal(1) T t'(1) by (simp add: muggle_avl_tree_rebalance_def)
    moreover have "height (Node r a l) = Suc (height (Node (Node C z E) y (Node D a l)))"
      using hDE hts by (elim disjE) (simp_all add: r)
    ultimately show ?thesis using t'(2,3) T r B z
      by (intro exI[of _ True] exI[of _ t'] exI[of _ "Node (Node C z E) y (Node D a l)"]) (simp del: height_tree.simps)
  qed
qed

text \<open>Both cases, at a frame that leans by two with its hole filled. The height does not change
  exactly when the higher child is itself in balance.\<close>

definition heavy :: "('k, 'v) avl_tree \<Rightarrow> node_addr \<Rightarrow> node_addr ptr" where
  "heavy t a = (if ba t a > 0 then rc t a else lc t a)"

lemma rebalance_ok:
  assumes f: "focus t T k par" and T: "T = Node l a r" and bal: "ba t a = int (height r) - int (height l)" "ba t a = 2 \<or> ba t a = -2"
    and sub: "avl t l" "avl t r"
  shows "\<exists>b t' T'. muggle_avl_tree_rebalance t a = Some (b, t') \<and> focus t' T' k par \<and> same_data t' t \<and>
    inorder T' = inorder T \<and> avl t' T' \<and> (\<forall>c \<in> ctx_set k. ba t' c = ba t c) \<and>
    height T = (if b then Suc (height T') else height T') \<and>
    (b \<longleftrightarrow> (\<forall>z. heavy t a = Some z \<longrightarrow> ba t z \<noteq> 0))"
proof (cases "ba t a = 2")
  case True
  then have "heavy t a = rc t a" "int (height r) - int (height l) = 2" using bal by (simp_all add: heavy_def)
  then show ?thesis using rebalance_right[OF f[unfolded T] True] sub unfolding T by metis
next
  case False
  then have n: "ba t a = -2" using bal by simp
  then have "heavy t a = lc t a" "int (height l) - int (height r) = 2" using bal by (simp_all add: heavy_def)
  then show ?thesis using rebalance_left[OF f[unfolded T] n] sub unfolding T by metis
qed

end
