(* ===== verification/Avl_Tree_Laws.thy ===== *)
theory Avl_Tree_Laws
  imports Avl_Tree
begin

text \<open>
  What the AVL tree (\<^verbatim>\<open>muggle/c/dsaa/avl_tree.c\<close>) promises: the retracing loops of \<open>insert\<close> and \<open>remove\<close>
  restore balance, the walks end, and the tree is a dictionary ordered by its keys.
\<close>

section \<open>Retracing\<close>

lemma to_int8_small: "-128 \<le> x \<Longrightarrow> x < 128 \<Longrightarrow> to_int8 x = x"
  by (simp add: to_int8_def)

text \<open>One step up: the frame gets the balance factor of its filled hole, and nothing else changes.\<close>

lemma retrace_step:
  assumes f: "focus t T (f # k) par" and T: "avl t T" and ctx: "ctx_avl t (f # k) h"
  defines "t1 \<equiv> set_balance (fr_node f) (fr_bal f (height T)) t"
  shows "focus t1 (fill_in f T) k (pa t (fr_node f))" "avl t1 T" "avl t1 (fr_sib f)"
    "ctx_avl t1 k (Suc (max h (height (fr_sib f))))" "ba t1 (fr_node f) = fr_bal f (height T)"
    "tree_at t1 (fill_in f T) (Some (fr_node f)) (pa t (fr_node f))"
    "focus t1 T (f # k) par"
proof -
  have foc: "focus t (fill_in f T) k (pa t (fr_node f))" using f by (simp add: focus_up)
  note d = focus_fill_in_distinct[OF foc]
  show foc1: "focus t1 (fill_in f T) k (pa t (fr_node f))" "focus t1 T (f # k) par" using foc f by (simp_all add: t1_def)
  show "avl t1 T" using T d by (subst avl_cong[of T _ t]) (auto simp: t1_def)
  show "avl t1 (fr_sib f)" using ctx d by (subst avl_cong[of "fr_sib f" _ t]) (auto simp: t1_def)
  show "ctx_avl t1 k (Suc (max h (height (fr_sib f))))" using ctx d by (subst ctx_avl_cong[of k _ t]) (auto simp: t1_def)
  show "ba t1 (fr_node f) = fr_bal f (height T)" by (simp add: t1_def)
  show "tree_at t1 (fill_in f T) (Some (fr_node f)) (pa t (fr_node f))" using focus_fill_in_root[OF foc1(1)] .
qed

lemma rebalance_frame:
  assumes f: "focus t (fill_in f T) k par" and bal: "ba t (fr_node f) = fr_bal f (height T)"
      "fr_bal f (height T) = 2 \<or> fr_bal f (height T) = -2"
    and sub: "avl t T" "avl t (fr_sib f)" and ctx: "ctx_avl t k h"
  shows "\<exists>b t' T'. muggle_avl_tree_rebalance t (fr_node f) = Some (b, t') \<and> focus t' T' k par \<and> same_data t' t \<and>
    inorder T' = inorder (fill_in f T) \<and> avl t' T' \<and> ctx_avl t' k h \<and>
    height (fill_in f T) = (if b then Suc (height T') else height T') \<and>
    (b \<longleftrightarrow> (\<forall>z. heavy t (fr_node f) = Some z \<longrightarrow> ba t z \<noteq> 0))"
proof -
  obtain l r where lr: "fill_in f T = Node l (fr_node f) r" "avl t l" "avl t r"
    "fr_bal f (height T) = int (height r) - int (height l)"
    using sub by (cases f) auto
  from rebalance_ok[OF f lr(1) _ _ lr(2,3)] bal lr(4) obtain b t' T' where
    "muggle_avl_tree_rebalance t (fr_node f) = Some (b, t')" "focus t' T' k par" "same_data t' t"
    "inorder T' = inorder (fill_in f T)" "avl t' T'" "\<forall>c \<in> ctx_set k. ba t' c = ba t c"
    "height (fill_in f T) = (if b then Suc (height T') else height T')"
    "b \<longleftrightarrow> (\<forall>z. heavy t (fr_node f) = Some z \<longrightarrow> ba t z \<noteq> 0)"
    by metis
  moreover from this(6) have "ctx_avl t' k h" using ctx by (subst ctx_avl_cong[of k _ t]) auto
  ultimately show ?thesis by (intro exI[of _ b] exI[of _ t'] exI[of _ T']) simp
qed

lemma fr_bal_near:
  assumes "fr_bal f h \<in> {-1, 0, 1}"
  shows "height (fr_sib f) = h \<or> height (fr_sib f) = Suc h \<or> Suc (height (fr_sib f)) = h"
  using assms by (cases f) auto

lemma fr_bal_values:
  "height (fr_sib f) = h \<Longrightarrow> fr_bal f h = 0"
  "height (fr_sib f) = h \<Longrightarrow> fr_bal f (Suc h) = 1 \<or> fr_bal f (Suc h) = -1"
  "height (fr_sib f) = Suc h \<Longrightarrow> fr_bal f h = 1 \<or> fr_bal f h = -1"
  "height (fr_sib f) = Suc (Suc h) \<Longrightarrow> fr_bal f h = 2 \<or> fr_bal f h = -2"
  "Suc (height (fr_sib f)) = h \<Longrightarrow> fr_bal f (Suc h) = 2 \<or> fr_bal f (Suc h) = -2"
  by (cases f; auto)+

lemma insert_update:
  assumes "ba t (fr_node f) = fr_bal f h" "fr_bal f h \<in> {-1, 0, 1}"
  shows "(if fr_side f = AVL_TREE_SIDE_LEFT then set_balance (fr_node f) (to_int8 (ba t (fr_node f) - 1)) t
    else set_balance (fr_node f) (to_int8 (ba t (fr_node f) + 1)) t) = set_balance (fr_node f) (fr_bal f (Suc h)) t"
proof (cases f)
  case (LF a r)
  then have "to_int8 (ba t (fr_node f) - 1) = fr_bal f (Suc h)" using assms by (subst to_int8_small) auto
  then show ?thesis using LF by simp
next
  case (RF l a)
  then have "to_int8 (ba t (fr_node f) + 1) = fr_bal f (Suc h)" using assms by (subst to_int8_small) auto
  then show ?thesis using RF by simp
qed

lemma remove_update:
  assumes "ba t (fr_node f) = fr_bal f (Suc h)" "fr_bal f (Suc h) \<in> {-1, 0, 1}"
  shows "(if fr_side f = AVL_TREE_SIDE_LEFT then set_balance (fr_node f) (to_int8 (ba t (fr_node f) + 1)) t
    else set_balance (fr_node f) (to_int8 (ba t (fr_node f) - 1)) t) = set_balance (fr_node f) (fr_bal f h) t"
proof (cases f)
  case (LF a r)
  then have "to_int8 (ba t (fr_node f) + 1) = fr_bal f h" using assms by (subst to_int8_small) auto
  then show ?thesis using LF by simp
next
  case (RF l a)
  then have "to_int8 (ba t (fr_node f) - 1) = fr_bal f h" using assms by (subst to_int8_small) auto
  then show ?thesis using RF by simp
qed

lemma heavy_child:
  assumes "focus t T (f # k) par" "tree_at t T (Some a) par" "ba t (fr_node f) = fr_bal f (height T)"
    "height (fr_sib f) < height T"
  shows "heavy t (fr_node f) = Some a"
  using assms by (cases f; cases T) (auto simp: focus_def heavy_def)

lemma insert_retrace_step:
  assumes f: "focus t T (f # k) par" and T: "avl t T" "height T = Suc h" and ctx: "ctx_avl t (f # k) h"
    and grown: "h = 0 \<or> (\<exists>a. tree_at t T (Some a) par \<and> ba t a \<noteq> 0)"
  shows "(\<exists>t' T'. av_insert_retrace t (fr_node f) (fr_side f) = Some t' \<and> focus t' T' [] None \<and> avl t' T' \<and>
      inorder T' = inorder (plug T (f # k)) \<and> same_data t' t) \<or>
    (\<exists>f' k' t1. k = f' # k' \<and> av_insert_retrace t (fr_node f) (fr_side f) = av_insert_retrace t1 (fr_node f') (fr_side f') \<and>
      focus t1 (fill_in f T) k (pa t (fr_node f)) \<and> avl t1 (fill_in f T) \<and> height (fill_in f T) = Suc (Suc h) \<and>
      ctx_avl t1 k (Suc h) \<and> tree_at t1 (fill_in f T) (Some (fr_node f)) (pa t (fr_node f)) \<and>
      ba t1 (fr_node f) \<noteq> 0 \<and> same_data t1 t)"
proof -
  let ?a = "fr_node f" and ?s = "height (fr_sib f)"
  define t1 where "t1 = set_balance ?a (fr_bal f (Suc h)) t"
  note st = retrace_step[OF f T(1) ctx, unfolded T(2), folded t1_def]
  have bal: "ba t ?a = fr_bal f h" "fr_bal f h \<in> {-1, 0, 1}" using ctx by simp_all
  have pa1: "pa t1 ?a = pa t ?a" and same1: "same_data t1 t" by (simp_all add: t1_def)
  have unf: "av_insert_retrace t ?a (fr_side f) =
      (if fr_bal f (Suc h) = 0 then Some t1
       else if fr_bal f (Suc h) = 1 \<or> fr_bal f (Suc h) = -1 then
         (case pa t ?a of Some parent \<Rightarrow> av_insert_retrace t1 parent (side_of t1 parent ?a) | None \<Rightarrow> Some t1)
       else do { MUGGLE_ASSERT (fr_bal f (Suc h) = 2 \<or> fr_bal f (Suc h) = -2);
          (_, t) \<leftarrow> muggle_avl_tree_rebalance t1 ?a; Some t })"
    by (subst av_insert_retrace.simps) (simp only: insert_update[OF bal] Let_def t1_def[symmetric] st(5) pa1)
  consider (same) "?s = h" | (level) "?s = Suc h" | (lean) "Suc ?s = h" using fr_bal_near[OF bal(2)] by blast
  then show ?thesis
  proof cases
    case same
    note v = fr_bal_values(2)[OF same]
    have avl1: "avl t1 (fill_in f T)" "height (fill_in f T) = Suc (Suc h)" using st(2,3,5) T(2) v same by (auto simp: avl_fill_in)
    show ?thesis
    proof (cases k)
      case Nil
      then have "pa t ?a = None" using focus_parent[OF st(1)] by simp
      then have "av_insert_retrace t ?a (fr_side f) = Some t1" using unf v by auto
      then show ?thesis using st(1) avl1 same1 focus_top[OF st(1)] Nil
        by (intro disjI1 exI[of _ t1] exI[of _ "fill_in f T"]) (simp add: plug_Cons)
    next
      case (Cons f' k')
      then have "pa t ?a = Some (fr_node f')" using focus_parent[OF st(1)] by simp
      moreover have "side_of t1 (fr_node f') ?a = fr_side f'" using focus_side[OF st(1)[unfolded Cons] st(6)] .
      ultimately have "av_insert_retrace t ?a (fr_side f) = av_insert_retrace t1 (fr_node f') (fr_side f')" using unf v by auto
      then show ?thesis using st(1,4-6) avl1 same1 Cons v same
        by (intro disjI2 exI[of _ f'] exI[of _ k'] exI[of _ t1]) auto
    qed
  next
    case level
    then have v: "fr_bal f (Suc h) = 0" by (rule fr_bal_values(1))
    have "avl t1 (plug (fill_in f T) k)" using st(2-5) T(2) v level by (auto simp: avl_plug avl_fill_in)
    then show ?thesis using unf v same1 focus_top[OF st(1)]
      by (intro disjI1 exI[of _ t1] exI[of _ "plug (fill_in f T) k"]) (simp add: plug_Cons)
  next
    case lean
    note v = fr_bal_values(5)[OF lean]
    obtain a where a: "tree_at t T (Some a) par" "ba t a \<noteq> 0" using grown lean by auto
    have ne: "a \<noteq> ?a" using tree_at_root_in[OF a(1)] focus_fill_in_distinct(2)[OF st(1)] by auto
    have tr1: "tree_at t1 T (Some a) par" using a(1) by (subst tree_at_cong[of T _ t]) (auto simp: t1_def)
    have heavy: "heavy t1 ?a = Some a" using heavy_child[OF st(7) tr1] st(5) T(2) lean by simp
    from rebalance_frame[OF st(1) _ _ st(2,3,4)] st(5) v T(2) obtain b t' T' where
      r: "muggle_avl_tree_rebalance t1 ?a = Some (b, t')" "focus t' T' k (pa t ?a)" "same_data t' t1"
      "inorder T' = inorder (fill_in f T)" "avl t' T'" "ctx_avl t' k (Suc (max h ?s))"
      "height (fill_in f T) = (if b then Suc (height T') else height T')"
      "b \<longleftrightarrow> (\<forall>z. heavy t1 ?a = Some z \<longrightarrow> ba t1 z \<noteq> 0)"
      by metis
    have "b" using r(8) heavy a(2) ne by (simp add: t1_def)
    then have "avl t' (plug T' k)" using r(5-7) T(2) lean by (simp add: avl_plug)
    moreover have "av_insert_retrace t ?a (fr_side f) = Some t'" using unf v r(1) by (auto simp: MUGGLE_ASSERT_def)
    ultimately show ?thesis using focus_top[OF r(2)] same_data_trans[OF r(3) same1] r(4)
      by (intro disjI1 exI[of _ t'] exI[of _ "plug T' k"]) (simp add: plug_Cons inorder_plug)
  qed
qed

lemma insert_retrace:
  assumes "focus t T (f # k) par" "avl t T" "height T = Suc h" "ctx_avl t (f # k) h"
    and "h = 0 \<or> (\<exists>a. tree_at t T (Some a) par \<and> ba t a \<noteq> 0)"
  shows "\<exists>t' T'. av_insert_retrace t (fr_node f) (fr_side f) = Some t' \<and> focus t' T' [] None \<and> avl t' T' \<and>
    inorder T' = inorder (plug T (f # k)) \<and> same_data t' t"
  using assms
proof (induction k arbitrary: t T f h par)
  case Nil
  then show ?case using insert_retrace_step[OF Nil] by blast
next
  case (Cons f' k)
  from insert_retrace_step[OF Cons.prems] show ?case
  proof (elim disjE exE conjE)
    fix f'' k' t1
    assume up: "f' # k = f'' # k'"
      "av_insert_retrace t (fr_node f) (fr_side f) = av_insert_retrace t1 (fr_node f'') (fr_side f'')"
      "focus t1 (fill_in f T) (f' # k) (pa t (fr_node f))" "avl t1 (fill_in f T)" "height (fill_in f T) = Suc (Suc h)"
      "ctx_avl t1 (f' # k) (Suc h)" "tree_at t1 (fill_in f T) (Some (fr_node f)) (pa t (fr_node f))"
      "ba t1 (fr_node f) \<noteq> 0" "same_data t1 t"
    then have "Suc h = 0 \<or> (\<exists>a. tree_at t1 (fill_in f T) (Some a) (pa t (fr_node f)) \<and> ba t1 a \<noteq> 0)" by blast
    from Cons.IH[OF up(3-6) this] obtain t' T' where "av_insert_retrace t1 (fr_node f') (fr_side f') = Some t'"
      "focus t' T' [] None" "avl t' T'" "inorder T' = inorder (plug (fill_in f T) (f' # k))" "same_data t' t1" by blast
    then show ?thesis using up(1,2) same_data_trans[OF _ up(9)]
      by (intro exI[of _ t'] exI[of _ T']) (simp add: plug_Cons)
  qed blast
qed

lemma remove_retrace:
  assumes "focus t T k par" "avl t T" "ctx_avl t k (Suc (height T))" "\<And>f k'. k = f # k' \<Longrightarrow> side = fr_side f"
  shows "\<exists>t' T'. av_remove_retrace t par side = Some t' \<and> focus t' T' [] None \<and> avl t' T' \<and>
    inorder T' = inorder (plug T k) \<and> same_data t' t"
  using assms
proof (induction k arbitrary: t T par side)
  case Nil
  then have "par = None" using focus_parent by fastforce
  then show ?case using Nil by (subst av_remove_retrace.simps) auto
next
  case (Cons f k)
  let ?a = "fr_node f" and ?s = "height (fr_sib f)" and ?h = "height T"
  define t1 where "t1 = set_balance ?a (fr_bal f ?h) t"
  note st = retrace_step[OF Cons.prems(1-3), folded t1_def]
  have side: "side = fr_side f" using Cons.prems(4) by simp
  have par: "par = Some ?a" using focus_parent[OF Cons.prems(1)] by simp
  have bal: "ba t ?a = fr_bal f (Suc ?h)" "fr_bal f (Suc ?h) \<in> {-1, 0, 1}" using Cons.prems(3) by simp_all
  have pa1: "pa t1 ?a = pa t ?a" and same1: "same_data t1 t" by (simp_all add: t1_def)
  have unf: "av_remove_retrace t par side =
      (if fr_bal f ?h = 1 \<or> fr_bal f ?h = -1 then Some t1
       else if fr_bal f ?h = 0 then
         (case pa t ?a of Some a \<Rightarrow> av_remove_retrace t1 (Some a) (side_of t1 a ?a) | None \<Rightarrow> Some t1)
       else do { MUGGLE_ASSERT (fr_bal f ?h = 2 \<or> fr_bal f ?h = -2);
          let remove_side = (case pa t ?a of Some a \<Rightarrow> side_of t1 a ?a | None \<Rightarrow> fr_side f);
          (depth_decrease, t) \<leftarrow> muggle_avl_tree_rebalance t1 ?a;
          (if depth_decrease then av_remove_retrace t (pa t1 ?a) remove_side else Some t) })"
    unfolding side par
    by (subst av_remove_retrace.simps) (simp only: option.case remove_update[OF bal] Let_def t1_def[symmetric] st(5) pa1)
  have up: "(case pa t ?a of Some a \<Rightarrow> side_of t1 a ?a | None \<Rightarrow> fr_side f) = fr_side f'" "pa t ?a = Some (fr_node f')"
    if "k = f' # k'" for f' k'
    using focus_parent[OF st(1)] focus_side[OF st(1)[unfolded that] st(6)] that by simp_all
  consider (level) "?s = ?h" | (same) "?s = Suc ?h" | (lean) "?s = Suc (Suc ?h)" using fr_bal_near[OF bal(2)] by auto
  then show ?case
  proof cases
    case same
    have "avl t1 (plug (fill_in f T) k)" using st(2-5) fr_bal_values(3)[OF same] same by (auto simp: avl_plug avl_fill_in)
    then show ?thesis using unf fr_bal_values(3)[OF same] same1 focus_top[OF st(1)]
      by (intro exI[of _ t1] exI[of _ "plug (fill_in f T) k"]) (auto simp: plug_Cons)
  next
    case level
    then have v: "fr_bal f ?h = 0" by (rule fr_bal_values(1))
    have avl1: "avl t1 (fill_in f T)" "ctx_avl t1 k (Suc (height (fill_in f T)))" using st(2-5) v level by (simp_all add: avl_fill_in)
    have run: "av_remove_retrace t par side = av_remove_retrace t1 (pa t ?a) (case pa t ?a of Some a \<Rightarrow> side_of t1 a ?a | None \<Rightarrow> fr_side f)"
      unfolding unf by (cases "pa t ?a") (simp_all add: v av_remove_retrace.simps[of t1 None])
    from Cons.IH[OF st(1) avl1, of "case pa t ?a of Some a \<Rightarrow> side_of t1 a ?a | None \<Rightarrow> fr_side f"] up(1)
    obtain t' T' where "av_remove_retrace t par side = Some t'" "focus t' T' [] None" "avl t' T'"
      "inorder T' = inorder (plug (fill_in f T) k)" "same_data t' t1" unfolding run by blast
    then show ?thesis using same_data_trans[OF _ same1] by (intro exI[of _ t'] exI[of _ T']) (simp add: plug_Cons)
  next
    case lean
    note v = fr_bal_values(4)[OF lean]
    from rebalance_frame[OF st(1) st(5) v st(2,3,4)] obtain b t' T' where
      r: "muggle_avl_tree_rebalance t1 ?a = Some (b, t')" "focus t' T' k (pa t ?a)" "same_data t' t1"
      "inorder T' = inorder (fill_in f T)" "avl t' T'" "ctx_avl t' k (Suc (max (Suc ?h) ?s))"
      "height (fill_in f T) = (if b then Suc (height T') else height T')" by metis
    have same': "same_data t' t" using same_data_trans[OF r(3) same1] .
    have run: "av_remove_retrace t par side = (if b then av_remove_retrace t' (pa t ?a)
        (case pa t ?a of Some a \<Rightarrow> side_of t1 a ?a | None \<Rightarrow> fr_side f) else Some t')"
      using unf v r(1) pa1 by (auto simp: MUGGLE_ASSERT_def)
    show ?thesis
    proof (cases b)
      case True
      have "ctx_avl t' k (Suc (height T'))" using r(6,7) lean True by simp
      from Cons.IH[OF r(2,5) this, of "case pa t ?a of Some a \<Rightarrow> side_of t1 a ?a | None \<Rightarrow> fr_side f"] up(1)
      obtain t'' T'' where "av_remove_retrace t par side = Some t''" "focus t'' T'' [] None" "avl t'' T''"
        "inorder T'' = inorder (plug T' k)" "same_data t'' t'" using run True by auto
      then show ?thesis using same_data_trans[OF _ same'] r(4)
        by (intro exI[of _ t''] exI[of _ T'']) (simp add: plug_Cons inorder_plug)
    next
      case False
      then have "avl t' (plug T' k)" using r(5-7) lean by (simp add: avl_plug)
      then show ?thesis using run False focus_top[OF r(2)] same' r(4)
        by (intro exI[of _ t'] exI[of _ "plug T' k"]) (simp add: plug_Cons inorder_plug)
    qed
  qed
qed

section \<open>The tree as an ordered dictionary\<close>

definition entry :: "('k, 'v) avl_tree \<Rightarrow> node_addr \<Rightarrow> 'k ptr \<times> 'v ptr" where
  "entry t a = (ky t a, vl t a)"

definition entries :: "('k, 'v) avl_tree \<Rightarrow> node_addr tree \<Rightarrow> ('k ptr \<times> 'v ptr) list" where
  "entries t T = map (entry t) (inorder T)"

definition ascending :: "('k ptr \<Rightarrow> 'k ptr \<Rightarrow> int) \<Rightarrow> ('k ptr \<times> 'v ptr) list \<Rightarrow> bool" where
  "ascending cmp es \<longleftrightarrow> sorted_wrt (\<lambda>x y. cmp (fst x) (fst y) < 0) es"

text \<open>\<open>T\<close> is the tree of the store: linked in both directions without sharing, in balance, with
  ascending keys, of nodes in use.\<close>

definition av_rep :: "('k, 'v) avl_tree \<Rightarrow> node_addr tree \<Rightarrow> bool" where
  "av_rep t T \<longleftrightarrow> focus t T [] None \<and> avl t T \<and> node_ok (av_pool t) (set_tree T) \<and> ascending (av_cmp t) (entries t T)"

lemma same_data_entry: "same_data t' t \<Longrightarrow> entry t' = entry t"
  by (auto simp: same_data_def entry_def)

lemma ascending_append:
  "ascending cmp (xs @ ys) \<longleftrightarrow> ascending cmp xs \<and> ascending cmp ys \<and> (\<forall>x \<in> set xs. \<forall>y \<in> set ys. cmp (fst x) (fst y) < 0)"
  by (simp add: ascending_def sorted_wrt_append)

lemma ascending_Cons:
  "ascending cmp (x # ys) \<longleftrightarrow> (\<forall>y \<in> set ys. cmp (fst x) (fst y) < 0) \<and> ascending cmp ys"
  by (simp add: ascending_def)

lemma pre_append: "pre (k1 @ k2) = pre k2 @ pre k1"
  by (induction k1 rule: pre.induct) auto

lemma post_append: "post (k1 @ k2) = post k1 @ post k2"
  by (induction k1 rule: post.induct) auto

lemma plug_append: "plug T (k1 @ k2) = plug (plug T k1) k2"
  by (induction T k1 rule: plug.induct) auto

lemma focus_descend: "focus t (plug S k1) k par \<Longrightarrow> \<exists>par'. focus t S (k1 @ k) par'"
proof (induction k1 arbitrary: S)
  case (Cons f k1)
  then obtain par' where par': "focus t (fill_in f S) (k1 @ k) par'" by (auto simp: plug_Cons)
  have "pa t (fr_node f) = par'" using focus_fill_in_root[OF par'] by (cases f) auto
  then show ?case using par' by (auto simp: focus_up)
qed auto

lemma av_repD:
  assumes "av_rep t T"
  shows "focus t T [] None" "avl t T" "node_ok (av_pool t) (set_tree T)" "ascending (av_cmp t) (entries t T)"
    "tree_at t T (av_root t) None" "distinct (inorder T)"
  using assms by (auto simp: av_rep_def focus_def)

text \<open>Searching.\<close>

lemma ascending_Node:
  assumes "ascending (av_cmp t) (entries t (Node l a r))"
  shows "ascending (av_cmp t) (entries t l)" "ascending (av_cmp t) (entries t r)"
    "b \<in> set_tree l \<Longrightarrow> av_cmp t (ky t b) (ky t a) < 0" "b \<in> set_tree r \<Longrightarrow> av_cmp t (ky t a) (ky t b) < 0"
  using assms by (auto simp: entries_def entry_def ascending_append ascending_Cons)

lemma smaller_side:
  assumes "data_cmp cmp" "cmp key x < 0" "cmp x y < 0"
  shows "cmp key y < 0"
  using data_cmp.cmp_less_trans[OF assms(1,2)] assms(3) by simp

lemma larger_side:
  assumes "data_cmp cmp" "cmp key x > 0" "cmp y x < 0"
  shows "cmp key y > 0"
  using data_cmp.cmp_less_trans[OF assms(1,3), of key] data_cmp.cmp_neg_iff[OF assms(1)] assms(2) by (metis less_imp_le)

lemma av_find_loop_ends:
  assumes cmp: "data_cmp (av_cmp t)" and "tree_at t T p par" "ascending (av_cmp t) (entries t T)"
  shows "\<exists>r. av_find_loop t key p = Some r \<and>
    (case r of None \<Rightarrow> \<forall>a \<in> set_tree T. av_cmp t key (ky t a) \<noteq> 0 | Some a \<Rightarrow> a \<in> set_tree T \<and> av_cmp t key (ky t a) = 0)"
  using assms(2,3)
proof (induction T arbitrary: p par)
  case Leaf
  then show ?case by (subst av_find_loop.simps) auto
next
  case (Node l a r)
  note asc = ascending_Node[OF Node.prems(2)]
  have p: "p = Some a" "tree_at t l (lc t a) (Some a)" "tree_at t r (rc t a) (Some a)" using Node.prems(1) by simp_all
  consider (eq) "av_cmp t key (ky t a) = 0" | (less) "av_cmp t key (ky t a) < 0" | (greater) "av_cmp t key (ky t a) > 0"
    by linarith
  then show ?case
  proof cases
    case eq
    then show ?thesis using p by (subst av_find_loop.simps) auto
  next
    case less
    then have "av_find_loop t key p = av_find_loop t key (lc t a)" using p by (subst av_find_loop.simps) simp
    moreover have "\<forall>b \<in> set_tree r. av_cmp t key (ky t b) \<noteq> 0" using asc(4) smaller_side[OF cmp less] by fastforce
    ultimately show ?thesis using Node.IH(1)[OF p(2) asc(1)] less by (auto split: option.splits)
  next
    case greater
    then have "av_find_loop t key p = av_find_loop t key (rc t a)" using p by (subst av_find_loop.simps) simp
    moreover have "\<forall>b \<in> set_tree l. av_cmp t key (ky t b) \<noteq> 0" using asc(3) larger_side[OF cmp greater] by fastforce
    ultimately show ?thesis using Node.IH(2)[OF p(3) asc(2)] greater by (auto split: option.splits)
  qed
qed

text \<open>In an ascending sequence at most one key equals a given one.\<close>

lemma ascending_map_less:
  "ascending cmp (map e xs) \<Longrightarrow> a \<in> set xs \<Longrightarrow> b \<in> set xs \<Longrightarrow> a \<noteq> b \<Longrightarrow>
    cmp (fst (e a)) (fst (e b)) < 0 \<or> cmp (fst (e b)) (fst (e a)) < 0"
  by (induction xs) (auto simp: ascending_Cons)

lemma av_unique:
  assumes cmp: "data_cmp (av_cmp t)" and rep: "av_rep t T" and "a \<in> set_tree T" "b \<in> set_tree T"
    "av_cmp t key (ky t a) = 0" "av_cmp t key (ky t b) = 0"
  shows "a = b"
proof (rule ccontr)
  assume ne: "a \<noteq> b"
  have zero: "av_cmp t (ky t a) (ky t b) = 0" "av_cmp t (ky t b) (ky t a) = 0"
    using assms(5,6) data_cmp.cmp_zero_trans[OF cmp] data_cmp.cmp_zero_iff[OF cmp] by blast+
  then show False
    using ascending_map_less[OF av_repD(4)[OF rep, unfolded entries_def], of a b] assms(3,4) ne by (simp add: entry_def)
qed

lemma av_find_iff:
  assumes cmp: "data_cmp (av_cmp t)" and rep: "av_rep t T"
  shows "muggle_avl_tree_find t key = Some r \<longleftrightarrow>
    (case r of None \<Rightarrow> \<forall>a \<in> set_tree T. av_cmp t key (ky t a) \<noteq> 0 | Some a \<Rightarrow> a \<in> set_tree T \<and> av_cmp t key (ky t a) = 0)"
proof -
  obtain r' where r': "av_find_loop t key (av_root t) = Some r'"
    "case r' of None \<Rightarrow> \<forall>a \<in> set_tree T. av_cmp t key (ky t a) \<noteq> 0 | Some a \<Rightarrow> a \<in> set_tree T \<and> av_cmp t key (ky t a) = 0"
    using av_find_loop_ends[OF cmp av_repD(5,4)[OF rep]] by blast
  then show ?thesis using av_unique[OF cmp rep]
    by (auto simp: muggle_avl_tree_find_def split: option.splits)
qed

section \<open>Insertion\<close>

text \<open>The walk from \<open>a\<close>, the root of \<open>T\<close>, meets an equal key or ends at a hole that splits the keys.\<close>

definition insert_spot :: "('k, 'v) avl_tree \<Rightarrow> 'k ptr \<Rightarrow> node_addr \<Rightarrow> node_addr tree \<Rightarrow> bool" where
  "insert_spot t key a T \<longleftrightarrow>
    (av_insert_pos t key a = Some None \<and> (\<exists>b \<in> set_tree T. av_cmp t key (ky t b) = 0)) \<or>
    (\<exists>f k. av_insert_pos t key a = Some (Some (fr_node f, fr_side f)) \<and> plug Leaf (f # k) = T \<and>
      (\<forall>b \<in> set (pre (f # k)). av_cmp t (ky t b) key < 0) \<and> (\<forall>b \<in> set (post (f # k)). av_cmp t key (ky t b) < 0))"

lemma insert_spot_up:
  assumes spot: "insert_spot t key b T" and run: "av_insert_pos t key a = av_insert_pos t key b"
    and f: "\<forall>c \<in> set (pre [f]). av_cmp t (ky t c) key < 0" "\<forall>c \<in> set (post [f]). av_cmp t key (ky t c) < 0"
  shows "insert_spot t key a (fill_in f T)"
proof (cases "av_insert_pos t key b = Some None")
  case True
  then show ?thesis using spot run by (cases f) (auto simp: insert_spot_def)
next
  case False
  then obtain f' k where k: "av_insert_pos t key b = Some (Some (fr_node f', fr_side f'))" "plug Leaf (f' # k) = T"
    "\<forall>b \<in> set (pre (f' # k)). av_cmp t (ky t b) key < 0" "\<forall>b \<in> set (post (f' # k)). av_cmp t key (ky t b) < 0"
    using spot unfolding insert_spot_def by blast
  have "plug Leaf (f' # k @ [f]) = fill_in f T" using k(2) plug_append[of Leaf "f' # k" "[f]"] by (simp add: plug_Cons)
  moreover have "pre (f' # k @ [f]) = pre [f] @ pre (f' # k)" "post (f' # k @ [f]) = post (f' # k) @ post [f]"
    using pre_append[of "f' # k" "[f]"] post_append[of "f' # k" "[f]"] by simp_all
  ultimately show ?thesis unfolding insert_spot_def run using k f
    by (intro disjI2 exI[of _ f'] exI[of _ "k @ [f]"]) (simp add: ball_Un)
qed

lemma insert_pos_ends:
  assumes cmp: "data_cmp (av_cmp t)" and "tree_at t T (Some a) par" "ascending (av_cmp t) (entries t T)"
  shows "insert_spot t key a T"
  using assms(2,3)
proof (induction T arbitrary: a par)
  case (Node l x r)
  note asc = ascending_Node[OF Node.prems(2)]
  have p: "x = a" "tree_at t l (lc t a) (Some a)" "tree_at t r (rc t a) (Some a)" using Node.prems(1) by auto
  consider (eq) "av_cmp t key (ky t a) = 0" | (less) "av_cmp t key (ky t a) < 0" | (greater) "av_cmp t key (ky t a) > 0"
    by linarith
  then show ?case
  proof cases
    case eq
    then have "av_insert_pos t key a = Some None" by (subst av_insert_pos.simps) simp
    then show ?thesis using eq p(1) by (simp add: insert_spot_def)
  next
    case less
    have right: "\<forall>b \<in> set_tree r. av_cmp t key (ky t b) < 0" using asc(4) smaller_side[OF cmp less] p(1) by blast
    show ?thesis
    proof (cases l)
      case Leaf
      then have "av_insert_pos t key a = Some (Some (a, AVL_TREE_SIDE_LEFT))" using p less by (subst av_insert_pos.simps) simp
      then show ?thesis unfolding insert_spot_def
        using Leaf less right p(1) by (intro disjI2 exI[of _ "LF a r"] exI[of _ "[]"]) simp
    next
      case (Node ll b lr)
      then have lb: "lc t a = Some b" using p(2) by simp
      then have "av_insert_pos t key a = av_insert_pos t key b" using less by (subst av_insert_pos.simps) simp
      then show ?thesis using insert_spot_up[of t key b l a "LF a r"] Node.IH(1)[of b "Some a"] p asc(1) lb less right by simp
    qed
  next
    case greater
    have left: "\<forall>b \<in> set_tree l. av_cmp t (ky t b) key < 0" "av_cmp t (ky t a) key < 0"
      using asc(3) larger_side[OF cmp greater] p(1) data_cmp.cmp_neg_iff[OF cmp] greater by blast+
    show ?thesis
    proof (cases r)
      case Leaf
      then have "av_insert_pos t key a = Some (Some (a, AVL_TREE_SIDE_RIGHT))" using p greater by (subst av_insert_pos.simps) simp
      then show ?thesis unfolding insert_spot_def
        using Leaf greater left p(1) by (intro disjI2 exI[of _ "RF l a"] exI[of _ "[]"]) simp
    next
      case (Node rl b rr)
      then have lb: "rc t a = Some b" using p(3) by simp
      then have "av_insert_pos t key a = av_insert_pos t key b" using greater by (subst av_insert_pos.simps) simp
      then show ?thesis using insert_spot_up[of t key b r a "RF l a"] Node.IH(2)[of b "Some a"] p asc(2) lb left by simp
    qed
  qed
qed simp

text \<open>Linking a new leaf into a hole.\<close>

lemma link_leaf:
  assumes f: "focus t Leaf (f # k) par" and n: "n \<notin> ctx_set (f # k)" and root: "av_root t' = av_root t"
    and fields: "\<And>b. lc t' b = (if b = n then None else if b = fr_node f \<and> fr_side f = AVL_TREE_SIDE_LEFT then Some n else lc t b)"
      "\<And>b. rc t' b = (if b = n then None else if b = fr_node f \<and> fr_side f = AVL_TREE_SIDE_RIGHT then Some n else rc t b)"
      "\<And>b. pa t' b = (if b = n then Some (fr_node f) else pa t b)"
  shows "focus t' (Node Leaf n Leaf) (f # k) (Some (fr_node f))"
proof -
  have par: "par = Some (fr_node f)" using focus_parent[OF f] by simp
  have d: "distinct (inorder (plug (Node Leaf n Leaf) (f # k)))"
    using f n by (auto simp: focus_def inorder_plug ctx_set_def)
  have foc: "focus t (fill_in f Leaf) k (pa t (fr_node f))" using f by (simp add: focus_up)
  note na = focus_fill_in_distinct[OF foc]
  have "tree_at t' (fr_sib f) p q = tree_at t (fr_sib f) p q" for p q
    using na n by (intro tree_at_cong) (auto simp: fields ctx_set_Cons)
  moreover have "ctx_at t' k p q = ctx_at t k p q" for p q
    using na n root by (intro ctx_at_cong) (auto simp: fields ctx_set_Cons)
  ultimately have "ctx_at t' (f # k) (Some n) (Some (fr_node f))"
    using f n by (cases f) (auto simp: focus_def fields)
  moreover have "tree_at t' (Node Leaf n Leaf) (Some n) (Some (fr_node f))" by (simp add: fields)
  ultimately show ?thesis using d by (auto simp: focus_def)
qed

lemma ascending_insert:
  assumes "ascending cmp (map e (xs @ ys))" "\<And>a. a \<in> set xs \<Longrightarrow> cmp (fst (e a)) (fst (e n)) < 0"
    "\<And>a. a \<in> set ys \<Longrightarrow> cmp (fst (e n)) (fst (e a)) < 0"
  shows "ascending cmp (map e (xs @ n # ys))"
  using assms by (auto simp: ascending_append ascending_Cons)

lemma av_insert_leaf:
  assumes cmp: "data_cmp (av_cmp t)" and rep: "av_rep t T" and root: "av_root t = Some a"
    and f: "av_insert_pos t key a = Some (Some (fr_node f, fr_side f))" "plug Leaf (f # k) = T"
      "\<forall>b \<in> set (pre (f # k)). av_cmp t (ky t b) key < 0" "\<forall>b \<in> set (post (f # k)). av_cmp t key (ky t b) < 0"
    and al: "node_alloc e (av_pool t) = (Some n, pool)" "n \<notin> set_tree T" "node_ok pool (insert n (set_tree T))"
  shows "\<exists>t' T'. muggle_avl_tree_insert e t key val = Some (Some n, t') \<and> inorder T = pre (f # k) @ post (f # k) \<and>
    inorder T' = pre (f # k) @ n # post (f # k) \<and> av_rep t' T' \<and> entry t' n = (key, val) \<and>
    (\<forall>b \<in> set_tree T. entry t' b = entry t b) \<and> av_cmp t' = av_cmp t"
proof -
  define t0 where "t0 = t\<lparr>av_pool := pool, av_cells := (av_cells t)(n := \<lparr>an_left = None, an_right = None, an_parent = None,
    an_balance = 0, an_key = None, an_value = None\<rparr>)\<rparr>"
  define t1 where "t1 = (if fr_side f = AVL_TREE_SIDE_LEFT then set_left (fr_node f) (Some n) t0 else set_right (fr_node f) (Some n) t0)"
  define t2 where "t2 = set_balance n 0 (set_entry n key val (set_parent n (Some (fr_node f)) t1))"
  obtain par where foc: "focus t Leaf (f # k) par"
    using focus_descend[of t Leaf "f # k" "[]" None] av_repD(1)[OF rep] f(2) by auto
  have inT: "inorder T = pre (f # k) @ post (f # k)" using inorder_plug[of Leaf "f # k"] f(2) by simp
  then have sT: "set_tree T = ctx_set (f # k)" by (metis ctx_set_def set_append set_inorder)
  have n: "n \<notin> ctx_set (f # k)" "n \<noteq> fr_node f" using al(2) sT by (auto simp: ctx_set_Cons)
  have foc2: "focus t2 (Node Leaf n Leaf) (f # k) (Some (fr_node f))"
    by (rule link_leaf[OF foc n(1)]) (use n(2) in \<open>cases f; auto simp: t2_def t1_def t0_def\<close>)+
  have bal2: "ba t2 b = (if b = n then 0 else ba t b)" for b by (auto simp: t2_def t1_def t0_def)
  have "avl t (plug Leaf (f # k))" using av_repD(2)[OF rep] f(2) by simp
  then have ctx: "ctx_avl t2 (f # k) 0" unfolding avl_plug using n(1) bal2 by (subst ctx_avl_cong[of _ t2 t]) (metis, simp)
  have "avl t2 (Node Leaf n Leaf)" by (simp add: avl.simps(2) bal2)
  from insert_retrace[OF foc2 this _ ctx] obtain t' T' where t':
    "av_insert_retrace t2 (fr_node f) (fr_side f) = Some t'" "focus t' T' [] None" "avl t' T'"
    "inorder T' = pre (f # k) @ n # post (f # k)" "same_data t' t2" by (auto simp: inorder_plug)
  have run: "muggle_avl_tree_insert e t key val = Some (Some n, t')"
    using root f(1) al(1) t'(1)
    by (simp add: muggle_avl_tree_insert_def muggle_avl_tree_allocate_node_def Let_def t0_def[symmetric] t1_def[symmetric] t2_def[symmetric])
  have e2: "entry t2 b = (if b = n then (key, val) else entry t b)" "av_cmp t2 = av_cmp t" "av_pool t2 = pool" for b
    by (auto simp: entry_def t2_def t1_def t0_def)
  have e': "entry t' b = (if b = n then (key, val) else entry t b)" "av_cmp t' = av_cmp t" "av_pool t' = pool" for b
    using t'(5) e2 same_data_entry[OF t'(5)] by (auto simp: same_data_def)
  have k': "fst (entry t' b) = (if b = n then key else ky t b)" for b
    using e'(1)[of b] by (auto simp: entry_def split: if_splits)
  have "set_tree T' = insert n (set_tree T)" using t'(4) inT by (metis (no_types) Un_insert_right list.simps(15) set_append set_inorder)
  moreover have "ascending (av_cmp t) (map (entry t') (pre (f # k) @ n # post (f # k)))"
  proof (rule ascending_insert)
    have "map (entry t') (pre (f # k) @ post (f # k)) = map (entry t) (pre (f # k) @ post (f # k))"
      using n(1) by (intro map_cong) (auto simp: e' ctx_set_def)
    then show "ascending (av_cmp t) (map (entry t') (pre (f # k) @ post (f # k)))"
      using av_repD(4)[OF rep] by (simp only: entries_def inT)
  qed (use f(3,4) n(1) in \<open>auto simp: k' ctx_set_def\<close>)
  ultimately have "av_rep t' T'" using t'(2-4) al(3) e' by (simp add: av_rep_def entries_def)
  then show ?thesis using run inT t'(4) e' al(2) by (intro exI[of _ t'] exI[of _ T']) auto
qed

lemma av_insert_root:
  assumes rep: "av_rep t Leaf" and al: "node_alloc e (av_pool t) = (Some n, pool)" "node_ok pool {n}"
  shows "\<exists>t'. muggle_avl_tree_insert e t key val = Some (Some n, t') \<and> av_rep t' (Node Leaf n Leaf) \<and>
    entry t' n = (key, val) \<and> av_cmp t' = av_cmp t"
  using av_repD(5)[OF rep] al
  by (simp add: muggle_avl_tree_insert_def muggle_avl_tree_allocate_node_def Let_def av_rep_def focus_def avl.simps(2)
      entries_def entry_def ascending_def)

section \<open>Removal\<close>

lemma rightmost_ends:
  "tree_at t T (Some a) par \<Longrightarrow> \<exists>l b k. av_rightmost t a = Some b \<and> plug (Node l b Leaf) k = T \<and> post k = []"
proof (induction T arbitrary: a par)
  case (Node l x r)
  have p: "x = a" "tree_at t r (rc t a) (Some a)" using Node.prems by auto
  show ?case
  proof (cases r)
    case Leaf
    then have "av_rightmost t a = Some a" using p by (subst av_rightmost.simps) simp
    then show ?thesis using Leaf p by (intro exI[of _ l] exI[of _ a] exI[of _ "[]"]) simp
  next
    case (Node rl c rr)
    then have c: "rc t a = Some c" using p by simp
    then have "av_rightmost t a = av_rightmost t c" by (subst av_rightmost.simps) simp
    moreover obtain l' b k where "av_rightmost t c = Some b" "plug (Node l' b Leaf) k = r" "post k = []"
      using Node.IH(2)[of c "Some a"] p c by auto
    ultimately show ?thesis using p
      by (intro exI[of _ l'] exI[of _ b] exI[of _ "k @ [RF l a]"]) (simp add: plug_append post_append)
  qed
qed simp

lemma leftmost_ends:
  "tree_at t T (Some a) par \<Longrightarrow> \<exists>r b k. av_leftmost t a = Some b \<and> plug (Node Leaf b r) k = T \<and> pre k = []"
proof (induction T arbitrary: a par)
  case (Node l x r)
  have p: "x = a" "tree_at t l (lc t a) (Some a)" using Node.prems by auto
  show ?case
  proof (cases l)
    case Leaf
    then have "av_leftmost t a = Some a" using p by (subst av_leftmost.simps) simp
    then show ?thesis using Leaf p by (intro exI[of _ r] exI[of _ a] exI[of _ "[]"]) simp
  next
    case (Node rl c rr)
    then have c: "lc t a = Some c" using p by simp
    then have "av_leftmost t a = av_leftmost t c" by (subst av_leftmost.simps) simp
    moreover obtain r' b k where "av_leftmost t c = Some b" "plug (Node Leaf b r') k = l" "pre k = []"
      using Node.IH(1)[of c "Some a"] p c by auto
    ultimately show ?thesis using p
      by (intro exI[of _ r'] exI[of _ b] exI[of _ "k @ [LF a r]"]) (simp add: plug_append pre_append)
  qed
qed simp

text \<open>Only keys and values differ.\<close>

definition same_links :: "('k, 'v) avl_tree \<Rightarrow> ('k, 'v) avl_tree \<Rightarrow> bool" where
  "same_links t' t \<longleftrightarrow> (\<forall>a. lc t' a = lc t a \<and> rc t' a = rc t a \<and> pa t' a = pa t a \<and> ba t' a = ba t a) \<and>
    av_root t' = av_root t \<and> av_cmp t' = av_cmp t \<and> av_pool t' = av_pool t"

lemma same_links_focus: "same_links t' t \<Longrightarrow> focus t' T k par = focus t T k par"
  by (simp add: focus_def same_links_def tree_at_cong[of _ t' t] ctx_at_cong[of _ t' t])

lemma same_links_avl: "same_links t' t \<Longrightarrow> avl t' T = avl t T"
  by (simp add: same_links_def avl_cong[of _ t' t])

lemma swap_entries_ok:
  "same_links (swap_entries a b t) t"
  "entry (swap_entries a b t) c = (if c = b then entry t a else if c = a then entry t b else entry t c)"
  by (auto simp: same_links_def swap_entries_def entry_def Let_def)

lemma map_swap:
  assumes "\<And>c. e' c = (if c = b then e a else if c = a then e b else e c)" "a \<notin> set xs" "b \<notin> set xs"
  shows "map e' xs = map e xs"
  using assms by (auto intro!: map_cong)

text \<open>The entry moves down to a leaf; without that leaf, the entries are those without the moved one.\<close>

lemma move_to_leaf_ends:
  assumes "focus t (Node l a r) k par"
  shows "\<exists>t' b k' par'. av_move_to_leaf t a = Some (t', b) \<and> same_links t' t \<and>
    plug (Node Leaf b Leaf) k' = plug (Node l a r) k \<and> focus t' (Node Leaf b Leaf) k' par' \<and>
    entry t' b = entry t a \<and> map (entry t') (pre k' @ post k') = map (entry t) (pre k @ inorder l @ inorder r @ post k)"
  using assms
proof (induction "size (Node l a r)" arbitrary: t l a r k par rule: less_induct)
  case less
  have T: "tree_at t l (lc t a) (Some a)" "tree_at t r (rc t a) (Some a)" using less.prems by (auto simp: focus_def)
  have d: "distinct (pre k @ (inorder l @ a # inorder r) @ post k)" using less.prems by (simp add: focus_def inorder_plug)
  show ?case
  proof (cases "l = Leaf \<and> r = Leaf")
    case True
    then have "av_move_to_leaf t a = Some (t, a)" using T by (subst av_move_to_leaf.simps) simp
    then show ?thesis using True less.prems
      by (intro exI[of _ t] exI[of _ a] exI[of _ k] exI[of _ par]) (simp add: same_links_def)
  next
    case False
    text \<open>The target: the next smaller entry, or the next larger one.\<close>
    have "\<exists>b S k1 l' r'. (case lc t a of Some x \<Rightarrow> av_rightmost t x | None \<Rightarrow> do { y \<leftarrow> rc t a; av_leftmost t y }) = Some b \<and>
      S = Node l' b r' \<and> plug S k1 = Node l a r \<and> size S < size (Node l a r) \<and>
      (inorder l = pre k1 @ inorder l' @ [b] \<and> inorder r' = [] \<and> post k1 = a # inorder r \<or>
       inorder l = [] \<and> inorder l' = [] \<and> pre k1 = [a] \<and> inorder r = b # inorder r' @ post k1)"
    proof (cases l)
      case (Node ll x lr)
      then obtain l' b k1 where b: "av_rightmost t x = Some b" "plug (Node l' b Leaf) k1 = l" "post k1 = []"
        using rightmost_ends[of t l x "Some a"] T by auto
      moreover have "size (Node l' b Leaf) \<le> size l" using b(2) inorder_plug[of "Node l' b Leaf" k1] length_inorder[of l]
        by (metis add_leE le_add1 le_add2 length_append length_inorder)
      moreover have "inorder l = pre k1 @ inorder l' @ [b]" using inorder_plug[of "Node l' b Leaf" k1] b(2,3) by simp
      ultimately show ?thesis using T Node
        by (intro exI[of _ b] exI[of _ "Node l' b Leaf"] exI[of _ "k1 @ [LF a r]"] exI[of _ l'] exI[of _ Leaf])
          (auto simp: plug_append pre_append post_append)
    next
      case Leaf
      then obtain rl y rr where r: "r = Node rl y rr" using False by (cases r) auto
      then obtain r' b k1 where b: "av_leftmost t y = Some b" "plug (Node Leaf b r') k1 = r" "pre k1 = []"
        using leftmost_ends[of t r y "Some a"] T by auto
      moreover have "size (Node Leaf b r') \<le> size r" using b(2) inorder_plug[of "Node Leaf b r'" k1] length_inorder[of r]
        by (metis add_leE le_add1 le_add2 length_append length_inorder)
      moreover have "inorder r = b # inorder r' @ post k1" using inorder_plug[of "Node Leaf b r'" k1] b(2,3) by simp
      ultimately show ?thesis using T Leaf r
        by (intro exI[of _ b] exI[of _ "Node Leaf b r'"] exI[of _ "k1 @ [RF Leaf a]"] exI[of _ Leaf] exI[of _ r'])
          (auto simp: plug_append pre_append post_append)
    qed
    then obtain b k1 l' r' where b:
      "(case lc t a of Some x \<Rightarrow> av_rightmost t x | None \<Rightarrow> do { y \<leftarrow> rc t a; av_leftmost t y }) = Some b"
      "plug (Node l' b r') k1 = Node l a r" "size (Node l' b r') < size (Node l a r)"
      "inorder l = pre k1 @ inorder l' @ [b] \<and> inorder r' = [] \<and> post k1 = a # inorder r \<or>
       inorder l = [] \<and> inorder l' = [] \<and> pre k1 = [a] \<and> inorder r = b # inorder r' @ post k1"
      by blast
    define t1 where "t1 = swap_entries a b t"
    note sw = swap_entries_ok[of a b t, folded t1_def]
    have leaf: "\<not> (lc t a = None \<and> rc t a = None)" using T False by (cases l; cases r) auto
    have run: "av_move_to_leaf t a = av_move_to_leaf t1 b" 
      by (subst av_move_to_leaf.simps) (simp only: leaf if_False b(1) bind.bind_lunit t1_def)
    obtain par1 where foc: "focus t1 (Node l' b r') (k1 @ k) par1"
      using focus_descend[of t1 "Node l' b r'" k1 k par] less.prems same_links_focus[OF sw(1)] b(2) by auto
    from less.hyps[OF b(3) foc] obtain t' b' k' par' where t': "av_move_to_leaf t1 b = Some (t', b')" "same_links t' t1"
      "plug (Node Leaf b' Leaf) k' = plug (Node l' b r') (k1 @ k)" "focus t' (Node Leaf b' Leaf) k' par'"
      "entry t' b' = entry t1 b" "map (entry t') (pre k' @ post k') = map (entry t1) (pre (k1 @ k) @ inorder l' @ inorder r' @ post (k1 @ k))"
      by blast
    have "map (entry t1) (pre (k1 @ k) @ inorder l' @ inorder r' @ post (k1 @ k)) = map (entry t) (pre k @ inorder l @ inorder r @ post k)"
      using b(4) d by (elim disjE conjE) (auto simp: pre_append post_append sw(2) map_swap[OF sw(2)])
    then show ?thesis using run t' sw b(2)
      by (intro exI[of _ t'] exI[of _ b'] exI[of _ k'] exI[of _ par']) (auto simp: plug_append same_links_def)
  qed
qed

text \<open>Erasing a subtree: its nodes go back, its keys and values are released in postorder, and the
  pointer to it in its parent is cleared; nothing else changes.\<close>

definition erased :: "('k, 'v) avl_tree \<Rightarrow> node_addr set \<Rightarrow> node_addr ptr \<Rightarrow> node_addr ptr \<Rightarrow> ('k, 'v) avl_tree \<Rightarrow> bool" where
  "erased t A p par t' \<longleftrightarrow> av_root t' = av_root t \<and> av_cmp t' = av_cmp t \<and>
    (\<forall>b. b \<notin> A \<longrightarrow> ky t' b = ky t b \<and> vl t' b = vl t b \<and> pa t' b = pa t b \<and> ba t' b = ba t b \<and>
      lc t' b = (if p \<noteq> None \<and> par = Some b \<and> lc t b = p then None else lc t b) \<and>
      rc t' b = (if p \<noteq> None \<and> par = Some b \<and> lc t b \<noteq> p then None else rc t b))"

lemma erasedD:
  assumes "erased t A p par t'" "b \<notin> A"
  shows "ky t' b = ky t b" "vl t' b = vl t b" "pa t' b = pa t b" "ba t' b = ba t b"
    "lc t' b = (if p \<noteq> None \<and> par = Some b \<and> lc t b = p then None else lc t b)"
    "rc t' b = (if p \<noteq> None \<and> par = Some b \<and> lc t b \<noteq> p then None else rc t b)"
  using assms unfolding erased_def by blast+

lemma erased_root: "erased t A p par t' \<Longrightarrow> av_root t' = av_root t \<and> av_cmp t' = av_cmp t"
  unfolding erased_def by blast

lemma erase_if:
  "(if p \<noteq> None then muggle_avl_tree_erase_node kf vf t p else Some (t, [], [])) = muggle_avl_tree_erase_node kf vf t p"
  by (cases p) (simp_all add: muggle_avl_tree_erase_node.simps[of kf vf t None])

lemma erase_ends:
  assumes "tree_at t T p par" "distinct (inorder T)" "node_ok (av_pool t) S" "set_tree T \<subseteq> S" "par \<notin> Some ` set_tree T"
  shows "\<exists>t'. muggle_avl_tree_erase_node kf vf t p =
      Some (t', concat (map (\<lambda>a. release_data kf (ky t a)) (postorder T)), concat (map (\<lambda>a. release_data vf (vl t a)) (postorder T))) \<and>
    node_ok (av_pool t') (S - set_tree T) \<and> erased t (set_tree T) p par t'"
  using assms
proof (induction T arbitrary: t p par S)
  case Leaf
  then show ?case by (subst muggle_avl_tree_erase_node.simps) (simp add: erased_def)
next
  case (Node l a r)
  let ?ks = "\<lambda>t T. concat (map (\<lambda>a. release_data kf (ky t a)) (postorder T))"
    and ?vs = "\<lambda>t T. concat (map (\<lambda>a. release_data vf (vl t a)) (postorder T))"
  have T: "p = Some a" "pa t a = par" "tree_at t l (lc t a) (Some a)" "tree_at t r (rc t a) (Some a)" using Node.prems(1) by auto
  have d: "a \<notin> set_tree l" "a \<notin> set_tree r" "set_tree l \<inter> set_tree r = {}" "distinct (inorder l)" "distinct (inorder r)"
    using Node.prems(2) by auto
  have a: "a \<in> S" "set_tree l \<subseteq> S" "set_tree r \<subseteq> S - set_tree l" "par \<noteq> Some a" using Node.prems(4,5) d(3) by auto
  obtain t1 where t1: "muggle_avl_tree_erase_node kf vf t (lc t a) = Some (t1, ?ks t l, ?vs t l)"
    "node_ok (av_pool t1) (S - set_tree l)" "erased t (set_tree l) (lc t a) (Some a) t1"
    using Node.IH(1)[OF T(3) d(4) Node.prems(3) a(2)] d(1) by auto
  have f1: "lc t1 a = None" "rc t1 a = rc t a" "pa t1 a = par" "ky t1 a = ky t a" "vl t1 a = vl t a" 
    using erasedD[OF t1(3) d(1)] T(2) by (auto split: if_splits)
  have r1: "\<forall>b \<in> set_tree r. lc t1 b = lc t b \<and> rc t1 b = rc t b \<and> pa t1 b = pa t b \<and> ky t1 b = ky t b \<and> vl t1 b = vl t b"

  proof
    fix b assume "b \<in> set_tree r"
    then have "b \<notin> set_tree l" "a \<noteq> b" using d(2,3) by auto
    then show "lc t1 b = lc t b \<and> rc t1 b = rc t b \<and> pa t1 b = pa t b \<and> ky t1 b = ky t b \<and> vl t1 b = vl t b"
      using erasedD[OF t1(3), of b] by simp
  qed
  then have tr: "tree_at t1 r (rc t1 a) (Some a)" using T(4) f1(2) by (simp add: tree_at_cong[of r t1 t])
  have vals: "?ks t1 r = ?ks t r" "?vs t1 r = ?vs t r" using r1 by (auto intro!: arg_cong[of _ _ concat] map_cong)
  obtain t2 where t2: "muggle_avl_tree_erase_node kf vf t1 (rc t1 a) = Some (t2, ?ks t r, ?vs t r)"
    "node_ok (av_pool t2) (S - set_tree l - set_tree r)" "erased t1 (set_tree r) (rc t1 a) (Some a) t2"
    using Node.IH(2)[OF tr d(5) t1(2) a(3)] d(2) by (auto simp: vals)
  have f2: "pa t2 a = par" "ky t2 a = ky t a" "vl t2 a = vl t a"
    using erasedD[OF t2(3) d(2)] f1 by simp_all
  define t3 where "t3 = set_entry a None None t2"
  define t4 where "t4 = (case par of None \<Rightarrow> t3 | Some b \<Rightarrow> if lc t3 b = Some a then set_left b None t3 else set_right b None t3)"
  define t5 where "t5 = t4\<lparr>av_pool := node_free (av_pool t4) a\<rparr>"
  have "muggle_avl_tree_erase_node kf vf t p = Some (t5, ?ks t (Node l a r), ?vs t (Node l a r))"
    unfolding T(1) by (subst muggle_avl_tree_erase_node.simps)
      (simp only: option.case erase_if t1(1) t2(1) bind.bind_lunit case_prod_conv Let_def f2 set_entry_fields t3_def t4_def t5_def,
       simp)
  moreover have "node_ok (av_pool t5) (S - set_tree (Node l a r))"
  proof -
    have "av_pool t4 = av_pool t2" by (simp add: t4_def t3_def split: option.split)
    moreover have "node_ok (node_free (av_pool t2) a) (S - set_tree l - set_tree r - {a})"
      using nodes.release_ok[OF t2(2)] a(1) d(1,2) by simp
    moreover have "S - set_tree l - set_tree r - {a} = S - set_tree (Node l a r)" by auto
    ultimately show ?thesis by (simp add: t5_def)
  qed
  moreover have "erased t (set_tree (Node l a r)) p par t5"
  proof -
    have out: "ky t2 b = ky t b \<and> vl t2 b = vl t b \<and> pa t2 b = pa t b \<and> ba t2 b = ba t b \<and> lc t2 b = lc t b \<and> rc t2 b = rc t b"
      if "b \<notin> set_tree (Node l a r)" for b
    proof -
      have b: "b \<notin> set_tree l" "b \<notin> set_tree r" "Some a \<noteq> Some b" using that by auto
      show ?thesis using erasedD[OF t1(3) b(1)] erasedD[OF t2(3) b(2)] b(3) by (simp only: simp_thms if_False)
    qed
    have root: "av_root t2 = av_root t" "av_cmp t2 = av_cmp t" using erased_root[OF t1(3)] erased_root[OF t2(3)] by simp_all
    have cells: "ky t5 b = (if b = a then None else ky t2 b)" "vl t5 b = (if b = a then None else vl t2 b)" "pa t5 b = pa t2 b" "ba t5 b = ba t2 b"
      "lc t5 b = (if par = Some b \<and> lc t2 b = p then None else lc t2 b)" "rc t5 b = (if par = Some b \<and> lc t2 b \<noteq> p then None else rc t2 b)"
      "av_root t5 = av_root t2" "av_cmp t5 = av_cmp t2" for b
      by (cases par; simp add: t5_def t4_def t3_def T(1))+
    show ?thesis unfolding erased_def
    proof (intro conjI allI impI)
      fix b assume b: "b \<notin> set_tree (Node l a r)"
      note o = out[OF b]
      have "b \<noteq> a" using b by simp
      then show "ky t5 b = ky t b" "vl t5 b = vl t b" "pa t5 b = pa t b" "ba t5 b = ba t b"
        "lc t5 b = (if p \<noteq> None \<and> par = Some b \<and> lc t b = p then None else lc t b)"
        "rc t5 b = (if p \<noteq> None \<and> par = Some b \<and> lc t b \<noteq> p then None else rc t b)"
        using o by (simp_all add: cells T(1))
    qed (simp_all add: cells root)
  qed
  ultimately show ?case by blast
qed

lemma focus_erased:
  assumes f: "focus t (Node Leaf b Leaf) (f # k) par" and er: "erased t {b} (Some b) par t'"
  shows "focus t' Leaf (f # k) par" "ctx_avl t' (f # k) h = ctx_avl t (f # k) h"
proof -
  have T: "par = Some (fr_node f)" "ctx_at t (f # k) (Some b) par" using focus_parent[OF f] f by (auto simp: focus_def)
  have nb: "b \<notin> ctx_set (f # k)" using focus_disjoint[OF f, of b] by simp
  have foc: "focus t (fill_in f (Node Leaf b Leaf)) k (pa t (fr_node f))" using f by (simp add: focus_up)
  note na = focus_fill_in_distinct[OF foc]
  have d: "distinct (inorder (plug Leaf (f # k)))" using f by (simp add: focus_def inorder_plug)
  have fields: "c \<noteq> fr_node f \<Longrightarrow> lc t' c = lc t c \<and> rc t' c = rc t c" "pa t' c = pa t c" "ba t' c = ba t c" if "c \<noteq> b" for c
    using erasedD[OF er, of c] that T(1) by auto
  have sib: "tree_at t' (fr_sib f) p q = tree_at t (fr_sib f) p q" for p q
  proof (rule tree_at_cong)
    fix c assume "c \<in> set_tree (fr_sib f)"
    then have "c \<noteq> b" "c \<noteq> fr_node f" using nb na(3) by (auto simp: ctx_set_Cons)
    then show "lc t' c = lc t c \<and> rc t' c = rc t c \<and> pa t' c = pa t c" using fields by blast
  qed
  have up: "ctx_at t' k p q = ctx_at t k p q" for p q
  proof (rule ctx_at_cong)
    fix c assume "c \<in> ctx_set k"
    then have "c \<noteq> b" "c \<noteq> fr_node f" using nb na(1) by (auto simp: ctx_set_Cons)
    then show "lc t' c = lc t c \<and> rc t' c = rc t c \<and> pa t' c = pa t c" using fields by blast
  qed (use erased_root[OF er] in simp)
  have nf: "fr_node f \<noteq> b" using nb by (auto simp: ctx_set_Cons)
  note fa = erasedD[OF er, of "fr_node f"]
  have "ctx_at t' (f # k) None par"
  proof (cases f)
    case (LF x r)
    then show ?thesis using T sib up fa nf by simp
  next
    case (RF l x)
    then have "lc t x \<noteq> Some b" using T(2) nb tree_at_root_in[of t l b "Some x"] by auto
    then show ?thesis using RF T sib up fa nf by simp
  qed
  then show "focus t' Leaf (f # k) par" using d by (simp add: focus_def)
  show "ctx_avl t' (f # k) h = ctx_avl t (f # k) h" by (rule ctx_avl_cong) (use fields(3) nb in metis)
qed

lemma plug_at: "a \<in> set_tree T \<Longrightarrow> \<exists>l r k. plug (Node l a r) k = T"
proof (induction T)
  case (Node l x r)
  then consider "a = x" | "a \<in> set_tree l" | "a \<in> set_tree r" by auto
  then show ?case
  proof cases
    case 1
    then show ?thesis by (intro exI[of _ l] exI[of _ r] exI[of _ "[]"]) simp
  next
    case 2
    then obtain l' r' k where "plug (Node l' a r') k = l" using Node.IH(1) by blast
    then show ?thesis by (intro exI[of _ l'] exI[of _ r'] exI[of _ "k @ [LF x r]"]) (simp add: plug_append)
  next
    case 3
    then obtain l' r' k where "plug (Node l' a r') k = r" using Node.IH(2) by blast
    then show ?thesis by (intro exI[of _ l'] exI[of _ r'] exI[of _ "k @ [RF l x]"]) (simp add: plug_append)
  qed
qed simp

lemma av_remove_ends:
  assumes rep: "av_rep t T" and a: "a \<in> set_tree T"
  shows "\<exists>t' T' xs ys. muggle_avl_tree_remove t a kf vf = Some (t', release_data kf (ky t a), release_data vf (vl t a)) \<and>
    inorder T = xs @ a # ys \<and> av_rep t' T' \<and> entries t' T' = map (entry t) (xs @ ys) \<and> av_cmp t' = av_cmp t"
proof -
  note r = av_repD[OF rep]
  obtain l x k where T: "plug (Node l a x) k = T" using plug_at[OF a] by blast
  obtain par where foc: "focus t (Node l a x) k par" using focus_descend[of t "Node l a x" k "[]" None] r(1) T by auto
  from move_to_leaf_ends[OF foc] obtain t1 b k1 par1 where m: "av_move_to_leaf t a = Some (t1, b)" "same_links t1 t"
    "plug (Node Leaf b Leaf) k1 = T" "focus t1 (Node Leaf b Leaf) k1 par1" "entry t1 b = entry t a"
    "map (entry t1) (pre k1 @ post k1) = map (entry t) ((pre k @ inorder l) @ (inorder x @ post k))" using T by auto
  have inT: "inorder T = (pre k @ inorder l) @ a # (inorder x @ post k)" using inorder_plug[of "Node l a x" k] T by simp
  have asc: "ascending (av_cmp t) (map (entry t) ((pre k @ inorder l) @ (inorder x @ post k)))"
    using r(4) unfolding entries_def inT by (simp add: ascending_append ascending_Cons ball_Un)
  have b: "b \<in> set_tree T" "tree_at t1 (Node Leaf b Leaf) (Some b) par1"
    using m(3,4) inorder_plug[of "Node Leaf b Leaf" k1] by (auto simp: focus_def simp flip: set_inorder)
  have pb: "pa t1 b = par1" using b(2) by simp
  have "par1 \<noteq> Some b" using focus_disjoint[OF m(4), of b] m(4) ctx_par_in[of t1 k1 "Some b" b] by (auto simp: focus_def)
  then obtain t2 where t2: "muggle_avl_tree_erase_node kf vf t1 (Some b) = Some (t2, release_data kf (ky t a), release_data vf (vl t a))"
    "node_ok (av_pool t2) (set_tree T - {b})" "erased t1 {b} (Some b) par1 t2"
    using erase_ends[OF b(2), of "set_tree T" kf vf] b(1) r(3) m(2,5) by (auto simp: same_links_def entry_def)
  have cmp2: "av_cmp t2 = av_cmp t" using erased_root[OF t2(3)] m(2) by (simp add: same_links_def)
  have nb: "b \<notin> set (pre k1 @ post k1)" using focus_disjoint[OF m(4), of b] by (simp add: ctx_set_def)
  have "entry t2 c = entry t1 c" if "c \<noteq> b" for c using erasedD[OF t2(3), of c] that by (simp add: entry_def)
  then have e2: "map (entry t2) (pre k1 @ post k1) = map (entry t) ((pre k @ inorder l) @ (inorder x @ post k))"
    using nb m(6) by (metis map_cong)
  have sT: "set_tree T - {b} = set (pre k1 @ post k1)"
    using inorder_plug[of "Node Leaf b Leaf" k1] m(3) nb by (auto simp flip: set_inorder)
  have "\<exists>t' T'. muggle_avl_tree_remove t a kf vf = Some (t', release_data kf (ky t a), release_data vf (vl t a)) \<and>
      focus t' T' [] None \<and> avl t' T' \<and> inorder T' = pre k1 @ post k1 \<and> entry t' = entry t2 \<and> av_cmp t' = av_cmp t2 \<and> av_pool t' = av_pool t2"
  proof (cases k1)
    case Nil
    then have "par1 = None" using focus_parent[OF m(4)] by simp
    then have "muggle_avl_tree_remove t a kf vf = Some (t2\<lparr>av_root := None\<rparr>, release_data kf (ky t a), release_data vf (vl t a))"
      by (simp add: muggle_avl_tree_remove_def m(1) pb t2(1))
    then show ?thesis using Nil
      by (intro exI[of _ "t2\<lparr>av_root := None\<rparr>"] exI[of _ Leaf]) (auto simp: focus_def entry_def)
  next
    case (Cons f k2)
    then have par1: "par1 = Some (fr_node f)" using focus_parent[OF m(4)] by simp
    note er = focus_erased[OF m(4)[unfolded Cons] t2(3)]
    have "avl t1 (plug (Node Leaf b Leaf) k1)" using r(2) m(2,3) same_links_avl by metis
    then have "ctx_avl t1 k1 (Suc 0)" by (simp add: avl_plug)
    then have ctx: "ctx_avl t2 k1 (Suc (height (Leaf :: node_addr tree)))" using er(2)[of "Suc 0"] Cons by simp
    have side: "side_of t1 (fr_node f) b = fr_side f" using focus_side[OF m(4)[unfolded Cons] b(2)] .
    from remove_retrace[OF er(1) _ ctx[unfolded Cons], of "fr_side f"] obtain t' T' where
      t': "av_remove_retrace t2 par1 (fr_side f) = Some t'" "focus t' T' [] None" "avl t' T'"
        "inorder T' = inorder (plug Leaf (f # k2))" "same_data t' t2" by auto
    have "muggle_avl_tree_remove t a kf vf = Some (t', release_data kf (ky t a), release_data vf (vl t a))"
      using t'(1) by (simp add: muggle_avl_tree_remove_def m(1) pb t2(1) par1 side Let_def)
    then show ?thesis using t'(2-5) same_data_entry[OF t'(5)] Cons
      by (intro exI[of _ t'] exI[of _ T']) (simp add: inorder_plug same_data_def)
  qed
  then obtain t' T' where t': "muggle_avl_tree_remove t a kf vf = Some (t', release_data kf (ky t a), release_data vf (vl t a))"
    "focus t' T' [] None" "avl t' T'" "inorder T' = pre k1 @ post k1" "entry t' = entry t2" "av_cmp t' = av_cmp t2" "av_pool t' = av_pool t2" by blast
  have ent: "entries t' T' = map (entry t) ((pre k @ inorder l) @ (inorder x @ post k))" using t'(4,5) e2 by (simp only: entries_def)
  have "set_tree T' = set_tree T - {b}" using t'(4) sT by (metis set_inorder)
  then have "av_rep t' T'" using t'(2,3,6,7) t2(2) cmp2 asc ent by (simp add: av_rep_def)
  then show ?thesis using t'(1,6) inT ent cmp2
    by (intro exI[of _ t'] exI[of _ T'] exI[of _ "pre k @ inorder l"] exI[of _ "inorder x @ post k"]) simp
qed

section \<open>Height and reachable trees\<close>

lemma four_times:
  fixes a b x :: nat
  assumes "x \<le> a ^ 2" "x \<le> b ^ 2"
  shows "4 * x \<le> (a + b) ^ 2"
proof (cases "a \<le> b")
  case True
  then have "(2 * a) ^ 2 \<le> (a + b) ^ 2" by (intro power_mono) auto
  then show ?thesis using assms(1) by (simp only: power_mult_distrib) simp
next
  case False
  then have "(2 * b) ^ 2 \<le> (a + b) ^ 2" by (intro power_mono) auto
  then show ?thesis using assms(2) by (simp only: power_mult_distrib) simp
qed

lemma avl_height: "avl t T \<Longrightarrow> 2 ^ height T \<le> (size T + 1) ^ 2"
proof (induction T)
  case (Node l a r)
  note b = avl_NodeD[OF Node.prems]
  have lr: "2 ^ height l \<le> (size l + 1) ^ 2" "2 ^ height r \<le> (size r + 1) ^ 2" using Node.IH b(3,4) by blast+
  show ?case
  proof (cases "height (Node l a r) < 2")
    case True
    then have "height (Node l a r) = 1" "size (Node l a r) \<ge> 1" by auto
    then show ?thesis by (simp only: power_one_right) (simp add: power2_eq_square)
  next
    case False
    define h where "h = height (Node l a r) - 2"
    have h: "height (Node l a r) = h + 2"
      using False le_add_diff_inverse2[of 2 "height (Node l a r)"] by (simp only: h_def not_less)
    have "h \<le> height l" "h \<le> height r" using b(1,2) h by auto
    then have hl: "(2::nat) ^ h \<le> (size l + 1) ^ 2" and hr: "(2::nat) ^ h \<le> (size r + 1) ^ 2"
      using lr power_increasing[of h _ "2::nat"] by (meson le_trans one_le_numeral)+
    then show ?thesis unfolding h using four_times[OF hl hr] by (simp add: power_add)
  qed
qed simp

text \<open>The search loop with a bound on the number of comparisons; \<open>None\<close> is a search that needs more.\<close>

fun av_find_within :: "nat \<Rightarrow> ('k, 'v) avl_tree \<Rightarrow> 'k ptr \<Rightarrow> node_addr ptr \<Rightarrow> node_addr ptr option" where
  "av_find_within n t data None = Some None"
| "av_find_within 0 t data (Some a) = None"
| "av_find_within (Suc n) t data (Some a) =
    (let ret = av_cmp t data (an_key (av_cells t a)) in
     if ret = 0 then Some (Some a)
     else if ret < 0 then av_find_within n t data (an_left (av_cells t a))
     else av_find_within n t data (an_right (av_cells t a)))"

lemma find_within_height:
  "tree_at t T p par \<Longrightarrow> height T \<le> n \<Longrightarrow> \<exists>r. av_find_within n t key p = Some r \<and> av_find_loop t key p = Some r"
proof (induction T arbitrary: p par n)
  case Leaf
  then show ?case by (subst av_find_loop.simps) simp
next
  case (Node l a r)
  then obtain m where "n = Suc m" "height l \<le> m" "height r \<le> m" by (cases n) auto
  then show ?case using Node by (subst av_find_loop.simps) (auto simp: Let_def)
qed

text \<open>The nodes that can be reached from the root.\<close>

inductive_set av_nodes :: "('k, 'v) avl_tree \<Rightarrow> node_addr set" for t where
  root: "av_root t = Some a \<Longrightarrow> a \<in> av_nodes t"
| left: "a \<in> av_nodes t \<Longrightarrow> lc t a = Some b \<Longrightarrow> b \<in> av_nodes t"
| right: "a \<in> av_nodes t \<Longrightarrow> rc t a = Some b \<Longrightarrow> b \<in> av_nodes t"

lemma tree_at_closed: "tree_at t T p par \<Longrightarrow> a \<in> set_tree T \<Longrightarrow> lc t a = Some b \<or> rc t a = Some b \<Longrightarrow> b \<in> set_tree T"
  by (induction T arbitrary: p par) (auto dest: tree_at_root_in)

lemma tree_at_nodes: "tree_at t T p par \<Longrightarrow> (\<And>a. p = Some a \<Longrightarrow> a \<in> av_nodes t) \<Longrightarrow> set_tree T \<subseteq> av_nodes t"
proof (induction T arbitrary: p par)
  case (Node l a r)
  then have a: "a \<in> av_nodes t" "tree_at t l (lc t a) (Some a)" "tree_at t r (rc t a) (Some a)" by auto
  have "set_tree l \<subseteq> av_nodes t" "set_tree r \<subseteq> av_nodes t"
    using Node.IH(1)[OF a(2)] Node.IH(2)[OF a(3)] av_nodes.left[OF a(1)] av_nodes.right[OF a(1)] by blast+
  then show ?case using a(1) by simp
qed simp

lemma av_nodes_eq:
  assumes "tree_at t T (av_root t) None"
  shows "av_nodes t = set_tree T"
proof
  show "av_nodes t \<subseteq> set_tree T"
  proof
    fix a assume "a \<in> av_nodes t"
    then show "a \<in> set_tree T" using assms by induction (auto dest: tree_at_root_in tree_at_closed)
  qed
  show "set_tree T \<subseteq> av_nodes t" using tree_at_nodes[OF assms] av_nodes.root by blast
qed

lemma av_insert_law:
  assumes cmp: "data_cmp (av_cmp t)" and rep: "av_rep t T" and good: "node_good e (av_pool t) (set_tree T)"
  shows "\<exists>r t'. muggle_avl_tree_insert e t key val = Some (r, t') \<and>
    (r = None \<longleftrightarrow> muggle_avl_tree_find t key \<noteq> Some None \<or> fst (node_alloc e (av_pool t)) = None) \<and>
    (case r of
       None \<Rightarrow> t' = t
     | Some n \<Rightarrow> n \<notin> set_tree T \<and> av_cmp t' = av_cmp t \<and> entry t' n = (key, val) \<and> (\<forall>b \<in> set_tree T. entry t' b = entry t b) \<and>
         (\<exists>T' xs ys. av_rep t' T' \<and> inorder T = xs @ ys \<and> inorder T' = xs @ n # ys))"
proof -
  note r = av_repD[OF rep]
  obtain a pool where al: "node_alloc e (av_pool t) = (a, pool)" by fastforce
  have fail: "pool = av_pool t" if "a = None" using that al nodes.alloc_none[OF r(3)] by simp
  have new: "n \<notin> set_tree T" "node_ok pool (insert n (set_tree T))" if "a = Some n" for n
    using that al nodes.alloc_some[OF r(3) good] by simp_all
  show ?thesis
  proof (cases T)
    case Leaf
    then have root: "av_root t = None" and find: "muggle_avl_tree_find t key = Some None"
      using r(5) av_find_iff[OF cmp rep] by auto
    show ?thesis
    proof (cases a)
      case None
      then have "muggle_avl_tree_insert e t key val = Some (None, t)"
        using root al fail by (simp add: muggle_avl_tree_insert_def muggle_avl_tree_allocate_node_def)
      then show ?thesis using al None by simp
    next
      case (Some n)
      from av_insert_root[OF rep[unfolded Leaf], of e n pool key val] obtain t' where
        "muggle_avl_tree_insert e t key val = Some (Some n, t')" "av_rep t' (Node Leaf n Leaf)" "entry t' n = (key, val)" "av_cmp t' = av_cmp t"
        using al Some new(2)[OF Some] Leaf by auto
      then show ?thesis using Leaf find al Some by (intro exI[of _ "Some n"] exI[of _ t']) auto
    qed
  next
    case (Node l x y)
    then have root: "av_root t = Some x" using r(5) by simp
    have spot: "insert_spot t key x T" using insert_pos_ends[OF cmp _ r(4)] r(5) root by simp
    show ?thesis
    proof (cases "av_insert_pos t key x = Some None")
      case True
      then have "muggle_avl_tree_find t key \<noteq> Some None"
        using spot av_find_iff[OF cmp rep, of key None] by (auto simp: insert_spot_def)
      then show ?thesis using True root by (simp add: muggle_avl_tree_insert_def)
    next
      case False
      then obtain f k where f: "av_insert_pos t key x = Some (Some (fr_node f, fr_side f))" "plug Leaf (f # k) = T"
        "\<forall>b \<in> set (pre (f # k)). av_cmp t (ky t b) key < 0" "\<forall>b \<in> set (post (f # k)). av_cmp t key (ky t b) < 0"
        using spot unfolding insert_spot_def by blast
      have "\<forall>b \<in> set_tree T. av_cmp t key (ky t b) \<noteq> 0"
        using f(2-4) inorder_plug[of Leaf "f # k"] data_cmp.cmp_zero_iff[OF cmp] by (force simp flip: set_inorder)
      then have find: "muggle_avl_tree_find t key = Some None" using av_find_iff[OF cmp rep] by simp
      show ?thesis
      proof (cases a)
        case None
        then have "muggle_avl_tree_insert e t key val = Some (None, t)"
          using root al fail f(1) by (simp add: muggle_avl_tree_insert_def muggle_avl_tree_allocate_node_def)
        then show ?thesis using al None by simp
      next
        case (Some n)
        from av_insert_leaf[OF cmp rep root f, of e n pool val] obtain t' T' where
          "muggle_avl_tree_insert e t key val = Some (Some n, t')" "inorder T = pre (f # k) @ post (f # k)"
          "inorder T' = pre (f # k) @ n # post (f # k)" "av_rep t' T'" "entry t' n = (key, val)"
          "\<forall>b \<in> set_tree T. entry t' b = entry t b" "av_cmp t' = av_cmp t" using al Some new[OF Some] by auto
        then show ?thesis using find al Some new(1)[OF Some]
          by (intro exI[of _ "Some n"] exI[of _ t']) (simp, blast)
      qed
    qed
  qed
qed

text \<open>Trees that the operations can produce, with allocations as documented.\<close>

inductive av_reach :: "('k, 'v) avl_tree \<Rightarrow> bool" where
  init: "data_cmp cmp \<Longrightarrow> muggle_avl_tree_init pool_mem m mem (Some cmp) capacity = Some t \<Longrightarrow>
    (\<And>p. av_pool t = Some p \<Longrightarrow> mp_fits 48 (mp_capacity p)) \<Longrightarrow> av_reach t"
| insert: "av_reach t \<Longrightarrow> node_good e (av_pool t) (av_nodes t) \<Longrightarrow>
    muggle_avl_tree_insert e t key val = Some (r, t') \<Longrightarrow> av_reach t'"
| remove: "av_reach t \<Longrightarrow> a \<in> av_nodes t \<Longrightarrow> muggle_avl_tree_remove t a kf vf = Some (t', ks, vs) \<Longrightarrow> av_reach t'"

lemma av_reach_rep: "av_reach t \<Longrightarrow> data_cmp (av_cmp t) \<and> (\<exists>T. av_rep t T)"
proof (induction rule: av_reach.induct)
  case (init cmp pool_mem m mem capacity t)
  then obtain pool where pool: "node_pool_init pool_mem m capacity 48 = Some pool" "av_pool t = pool" "av_root t = None" "av_cmp t = cmp"
    by (auto simp: muggle_avl_tree_init_def split: option.splits)
  then have "node_ok pool {}" using node_pool_init_ok[OF pool(1)] init(3) by blast
  then have "av_rep t Leaf" using pool by (simp add: av_rep_def focus_def entries_def ascending_def)
  then show ?case using pool(4) init(1) by auto
next
  case (insert t e key val r t')
  then obtain T where cmp: "data_cmp (av_cmp t)" and rep: "av_rep t T" by blast
  have "node_good e (av_pool t) (set_tree T)" using insert.hyps(2) av_nodes_eq[OF av_repD(5)[OF rep]] by simp
  from av_insert_law[OF cmp rep this, of key val] insert.hyps(3) show ?case using cmp rep by (auto split: option.splits)
next
  case (remove t a kf vf t' ks vs)
  then obtain T where cmp: "data_cmp (av_cmp t)" and rep: "av_rep t T" by blast
  have "a \<in> set_tree T" using remove.hyps(2) av_nodes_eq[OF av_repD(5)[OF rep]] by simp
  from av_remove_ends[OF rep this, of kf vf] remove.hyps(3) show ?case using cmp by auto
qed

section \<open>Properties\<close>

definition lookup :: "('k, 'v) avl_tree \<Rightarrow> 'k ptr \<Rightarrow> ('k ptr \<times> 'v ptr) option option" where
  "lookup t k = map_option (map_option (entry t)) (muggle_avl_tree_find t k)"

lemma lookup_iff:
  assumes cmp: "data_cmp (av_cmp t)" and rep: "av_rep t T"
  shows "lookup t k = Some r \<longleftrightarrow>
    (case r of None \<Rightarrow> \<forall>x \<in> set (entries t T). av_cmp t k (fst x) \<noteq> 0 | Some x \<Rightarrow> x \<in> set (entries t T) \<and> av_cmp t k (fst x) = 0)"
proof -
  have "\<exists>q. muggle_avl_tree_find t k = Some q"
    using find_within_height[OF av_repD(5)[OF rep], of "height T" k] by (auto simp: muggle_avl_tree_find_def)
  then obtain q where q: "muggle_avl_tree_find t k = Some q" by blast
  note f = q[unfolded av_find_iff[OF cmp rep]]
  have e: "set (entries t T) = entry t ` set_tree T" by (simp add: entries_def)
  show ?thesis
  proof (cases q)
    case None
    then show ?thesis using f q e by (auto simp: lookup_def entry_def split: option.splits)
  next
    case (Some a)
    have "b = a" if "b \<in> set_tree T" "av_cmp t k (ky t b) = 0" for b
      using that av_unique[OF cmp rep, of b a k] f Some by simp
    then show ?thesis using f q e Some by (auto simp: lookup_def entry_def split: option.splits)
  qed
qed

lemma lookup_find: "lookup t k = None \<longleftrightarrow> muggle_avl_tree_find t k = None"
  by (simp add: lookup_def)

text \<open>A tree of one node, with key 5 and value 50.\<close>

definition av_demo :: "(int, int) avl_tree" where
  "av_demo = \<lparr>av_root = Some (Malloced 7), av_cmp = ex_cmp, av_pool = None,
    av_cells = (\<lambda>_. \<lparr>an_left = None, an_right = None, an_parent = None, an_balance = 0, an_key = Some 5, an_value = Some 50\<rparr>)\<rparr>"

definition av_demo_env :: node_env where
  "av_demo_env = \<lparr>ne_mallocs = mp_demo_mallocs, ne_malloc = Some 8\<rparr>"

lemma av_demo_ok:
  "data_cmp (av_cmp av_demo)" "av_rep av_demo (Node Leaf (Malloced 7) Leaf)"
  "node_good av_demo_env (av_pool av_demo) (set_tree (Node Leaf (Malloced 7) Leaf))"
  "av_cmp av_demo = ex_cmp" "node_alloc av_demo_env (av_pool av_demo) = (Some (Malloced 8), None)"
  "muggle_avl_tree_find av_demo (Some 5) = Some (Some (Malloced 7))" "muggle_avl_tree_find av_demo (Some 3) = Some None"
  "entry av_demo a = (Some 5, Some 50)"
  using data_cmp_ex_cmp
  by (simp_all add: av_demo_def av_demo_env_def av_rep_def focus_def avl.simps(2) node_ok_def entries_def ascending_def
      node_good_def node_alloc_def muggle_avl_tree_find_def av_find_loop.simps entry_def)

text \<open>C20. Inserting into a well-formed AVL tree always returns, keeps the tree well-formed (linked in
  both directions, in balance, with ascending keys), and no assertion of the rotations fails and no
  NULL pointer is followed. It returns NULL, and changes nothing, exactly when an equal key is present
  or no node can be allocated. Otherwise the entries in key order are those from before with the new
  one between them, and afterwards \<open>find\<close> returns the new node for keys equal to the new one, and for
  every other key what it returned before.\<close>

theorem avl_insert_find:
  assumes cmp: "data_cmp (av_cmp t)" and rep: "av_rep t T" and good: "node_good e (av_pool t) (set_tree T)"
  shows "\<exists>r t'. muggle_avl_tree_insert e t key val = Some (r, t') \<and>
    (r = None \<longleftrightarrow> muggle_avl_tree_find t key \<noteq> Some None \<or> fst (node_alloc e (av_pool t)) = None) \<and>
    (case r of
       None \<Rightarrow> t' = t
     | Some n \<Rightarrow> n \<notin> set_tree T \<and>
         (\<exists>T' xs ys. av_rep t' T' \<and> set_tree T' = insert n (set_tree T) \<and>
            entries t T = xs @ ys \<and> entries t' T' = xs @ (key, val) # ys) \<and>
         (\<forall>k. muggle_avl_tree_find t' k = (if av_cmp t k key = 0 then Some (Some n) else muggle_avl_tree_find t k)))"
proof -
  from av_insert_law[OF cmp rep good, of key val] obtain r t' where
    r: "muggle_avl_tree_insert e t key val = Some (r, t')"
      "r = None \<longleftrightarrow> muggle_avl_tree_find t key \<noteq> Some None \<or> fst (node_alloc e (av_pool t)) = None"
      "case r of None \<Rightarrow> t' = t
       | Some n \<Rightarrow> n \<notin> set_tree T \<and> av_cmp t' = av_cmp t \<and> entry t' n = (key, val) \<and> (\<forall>b \<in> set_tree T. entry t' b = entry t b) \<and>
           (\<exists>T' xs ys. av_rep t' T' \<and> inorder T = xs @ ys \<and> inorder T' = xs @ n # ys)"
    by (elim exE conjE) (rule that)
  show ?thesis
  proof (cases r)
    case None
    then show ?thesis using r by auto
  next
    case (Some n)
    then obtain T' xs ys where n: "n \<notin> set_tree T" "av_cmp t' = av_cmp t" "entry t' n = (key, val)"
      "\<forall>b \<in> set_tree T. entry t' b = entry t b" "av_rep t' T'" "inorder T = xs @ ys" "inorder T' = xs @ n # ys"
      using r(3) by auto
    have sets: "set_tree T = set xs \<union> set ys" "set_tree T' = insert n (set_tree T)"
      using n(6,7) by (auto simp flip: set_inorder)
    have ent: "entries t T = map (entry t) xs @ map (entry t) ys" "entries t' T' = map (entry t) xs @ (key, val) # map (entry t) ys"
      using n(3,4,6,7) sets(1) by (simp_all add: entries_def)
    have keys: "ky t' n = key" "b \<in> set_tree T \<Longrightarrow> ky t' b = ky t b" for b using n(3,4) by (auto simp: entry_def)
    have cmp': "data_cmp (av_cmp t')" using cmp n(2) by simp
    have "muggle_avl_tree_find t' k = (if av_cmp t k key = 0 then Some (Some n) else muggle_avl_tree_find t k)" for k
    proof (cases "av_cmp t k key = 0")
      case True
      then show ?thesis using av_find_iff[OF cmp' n(5), of k "Some n"] sets(2) keys(1) n(2) by simp
    next
      case False
      obtain q where q: "muggle_avl_tree_find t k = Some q"
        using av_find_loop_ends[OF cmp av_repD(5,4)[OF rep]] by (auto simp: muggle_avl_tree_find_def)
      then have "muggle_avl_tree_find t' k = Some q"
        unfolding av_find_iff[OF cmp rep] av_find_iff[OF cmp' n(5)] using False keys sets(2) n(2) by (cases q) auto
      then show ?thesis using False q by simp
    qed
    then show ?thesis using r(1,2) Some n(1,5) sets(2) ent by (intro exI[of _ "Some n"] exI[of _ t']) auto
  qed
qed

theorem avl_insert_find_witness:
  "\<exists>t' T'. muggle_avl_tree_insert av_demo_env av_demo (Some 3) (Some 30) = Some (Some (Malloced 8), t') \<and> av_rep t' T' \<and>
     muggle_avl_tree_find t' (Some 3) = Some (Some (Malloced 8)) \<and> muggle_avl_tree_find t' (Some 5) = Some (Some (Malloced 7))"
proof -
  have run: "fst (the (muggle_avl_tree_insert av_demo_env av_demo (Some 3) (Some 30))) = Some (Malloced 8)"
    by (simp add: muggle_avl_tree_insert_def av_demo_def av_insert_pos.simps muggle_avl_tree_allocate_node_def node_alloc_def
        av_demo_env_def Let_def av_insert_retrace.simps to_int8_def)
  from avl_insert_find[OF av_demo_ok(1-3), of "Some 3" "Some 30"] obtain r t' where
    r: "muggle_avl_tree_insert av_demo_env av_demo (Some 3) (Some 30) = Some (r, t')"
      "case r of None \<Rightarrow> True | Some n \<Rightarrow> (\<exists>T'. av_rep t' T') \<and>
         (\<forall>k. muggle_avl_tree_find t' k = (if ex_cmp k (Some 3) = 0 then Some (Some n) else muggle_avl_tree_find av_demo k))"
    unfolding av_demo_ok(4) by (fastforce split: option.splits)
  then show ?thesis using run av_demo_ok(6) by auto
qed

text \<open>C21. Removing a node of a well-formed AVL tree always returns: the walk that moves the entry down
  to a leaf and the retracing both end, no assertion fails, and the tree stays well-formed and in
  balance. The entries in key order lose exactly the one of the given node, whose key and value, unless
  NULL, go to the free callbacks; looking up any key afterwards finds nothing if it equals the
  removed key, and otherwise the same key and value as before.\<close>

theorem avl_remove_lookup:
  assumes cmp: "data_cmp (av_cmp t)" and rep: "av_rep t T" and a: "a \<in> set_tree T"
  shows "\<exists>t' T' xs ys. muggle_avl_tree_remove t a kf vf =
      Some (t', release_data kf (fst (entry t a)), release_data vf (snd (entry t a))) \<and>
    av_rep t' T' \<and> entries t T = xs @ entry t a # ys \<and> entries t' T' = xs @ ys \<and>
    (\<forall>k. lookup t' k = (if av_cmp t k (fst (entry t a)) = 0 then Some None else lookup t k))"
proof -
  from av_remove_ends[OF rep a, of kf vf] obtain t' T' xs ys where
    t': "muggle_avl_tree_remove t a kf vf = Some (t', release_data kf (ky t a), release_data vf (vl t a))"
      "inorder T = xs @ a # ys" "av_rep t' T'" "entries t' T' = map (entry t) (xs @ ys)" "av_cmp t' = av_cmp t" by blast
  have ent: "entries t T = map (entry t) xs @ entry t a # map (entry t) ys" using t'(2) by (simp add: entries_def)
  have cmp': "data_cmp (av_cmp t')" using cmp t'(5) by simp
  have others: "av_cmp t k (fst x) \<noteq> 0" if "av_cmp t k (ky t a) = 0" "x \<in> set (entries t' T')" for k x
  proof
    assume "av_cmp t k (fst x) = 0"
    then have "av_cmp t (ky t a) (fst x) = 0" "av_cmp t (fst x) (ky t a) = 0"
      using that(1) data_cmp.cmp_zero_trans[OF cmp] data_cmp.cmp_zero_iff[OF cmp] by blast+
    then show False using that(2) av_repD(4)[OF rep] unfolding ent t'(4)
      by (auto simp: ascending_append ascending_Cons entry_def)
  qed
  have "lookup t' k = (if av_cmp t k (ky t a) = 0 then Some None else lookup t k)" for k
  proof (cases "av_cmp t k (ky t a) = 0")
    case True
    then show ?thesis using lookup_iff[OF cmp' t'(3), of k None] others[OF True] t'(5) by simp
  next
    case False
    obtain q where q: "lookup t k = Some q"
      using av_find_loop_ends[OF cmp av_repD(5,4)[OF rep], of k] by (auto simp: lookup_def muggle_avl_tree_find_def)
    then have "lookup t' k = Some q"
      unfolding lookup_iff[OF cmp rep] lookup_iff[OF cmp' t'(3)] t'(4,5) ent using False by (cases q) (auto simp: entry_def)
    then show ?thesis using False q by simp
  qed
  then show ?thesis using t'(1,3,4) ent
    by (intro exI[of _ t'] exI[of _ T'] exI[of _ "map (entry t) xs"] exI[of _ "map (entry t) ys"]) (simp add: entry_def)
qed

theorem avl_remove_lookup_witness:
  "\<exists>t' T'. muggle_avl_tree_remove av_demo (Malloced 7) True False = Some (t', [Some 5], []) \<and> av_rep t' T' \<and>
     entries t' T' = [] \<and> lookup t' (Some 5) = Some None"
proof -
  have a: "Malloced 7 \<in> set_tree (Node Leaf (Malloced 7) Leaf)" by simp
  have "entries av_demo (Node Leaf (Malloced 7) Leaf) = [(Some 5, Some 50)]" by (simp add: entries_def av_demo_ok(8))
  then show ?thesis
    using avl_remove_lookup[OF av_demo_ok(1,2) a, of True False]
    by (auto simp: av_demo_ok(4,8) release_data_def Cons_eq_append_conv)
qed

text \<open>C22. Searches are logarithmic. In every tree that \<open>init\<close>, \<open>insert\<close> and \<open>remove\<close> can produce, with
  allocations that behave as documented, a search compares at most \<open>n\<close> keys for every \<open>n\<close> with
  \<open>(nodes + 1)\<^sup>2 < 2 ^ (n + 1)\<close>, that is, at most \<open>2 * log2 (nodes + 1)\<close> rounded down, and then returns.\<close>

theorem avl_search_bound:
  assumes reach: "av_reach t" and n: "(card (av_nodes t) + 1) ^ 2 < 2 ^ (n + 1)"
  shows "\<exists>r. muggle_avl_tree_find t key = Some r \<and> av_find_within n t key (av_root t) = Some r"
proof -
  obtain T where rep: "av_rep t T" using av_reach_rep[OF reach] by blast
  note r = av_repD[OF rep]
  have "card (av_nodes t) = size T"
    using av_nodes_eq[OF r(5)] r(6) distinct_card[of "inorder T"] by simp
  then have "(2::nat) ^ height T < 2 ^ (n + 1)" using avl_height[OF r(2)] n by simp
  then have "height T < n + 1" by (rule power_less_imp_less_exp[rotated]) simp
  then have "height T \<le> n" by simp
  then show ?thesis using find_within_height[OF r(5)] by (auto simp: muggle_avl_tree_find_def)
qed

definition av_demo_empty :: "(int, int) avl_tree" where
  "av_demo_empty = av_demo\<lparr>av_root := None\<rparr>"

theorem avl_search_bound_witness:
  "\<exists>r. muggle_avl_tree_find av_demo_empty (Some 5) = Some r \<and> av_find_within 0 av_demo_empty (Some 5) (av_root av_demo_empty) = Some r"
proof -
  have init: "muggle_avl_tree_init False mp_demo_mallocs (av_cells av_demo) (Some ex_cmp) 0 = Some av_demo_empty"
    by (simp add: muggle_avl_tree_init_def node_pool_init_def av_demo_empty_def av_demo_def)
  have reach: "av_reach av_demo_empty"
    by (rule av_reach.init[OF data_cmp_ex_cmp init]) (simp add: av_demo_empty_def av_demo_def)
  have "tree_at av_demo_empty Leaf (av_root av_demo_empty) None" by (simp add: av_demo_empty_def)
  then have "av_nodes av_demo_empty = {}" using av_nodes_eq by fastforce
  then show ?thesis using avl_search_bound[OF reach, of 0 "Some 5"] by simp
qed

text \<open>C23. Clearing a well-formed tree always returns: it visits every node once, children before their
  parent, hands each non-NULL key and value to its callback, and gives every node back to its
  allocator, so that none is left in use. The root pointer keeps its value: it points to a node that
  has been given back.\<close>

theorem avl_clear_releases:
  assumes rep: "av_rep t T"
  shows "\<exists>t'. muggle_avl_tree_clear t kf vf =
      Some (t', concat (map (\<lambda>a. release_data kf (fst (entry t a))) (postorder T)),
        concat (map (\<lambda>a. release_data vf (snd (entry t a))) (postorder T))) \<and>
    set (postorder T) = av_nodes t \<and> distinct (postorder T) \<and> node_ok (av_pool t') {} \<and> av_root t' = av_root t"
proof -
  note r = av_repD[OF rep]
  have post: "set (postorder T) = av_nodes t" using av_nodes_eq[OF r(5)] by simp
  have d: "distinct (postorder T)"
    using r(6) distinct_card[of "inorder T"] card_distinct[of "postorder T"] by simp
  from erase_ends[OF r(5,6,3), of kf vf] obtain t' where
    t': "muggle_avl_tree_erase_node kf vf t (av_root t) =
      Some (t', concat (map (\<lambda>a. release_data kf (ky t a)) (postorder T)), concat (map (\<lambda>a. release_data vf (vl t a)) (postorder T)))"
    "node_ok (av_pool t') {}" "erased t (set_tree T) (av_root t) None t'" by auto
  have "muggle_avl_tree_clear t kf vf = muggle_avl_tree_erase_node kf vf t (av_root t)"
    by (cases "av_root t") (simp_all add: muggle_avl_tree_clear_def muggle_avl_tree_erase_node.simps[of kf vf t None])
  then show ?thesis using t'(1,2) erased_root[OF t'(3)] post d by (simp add: entry_def)
qed

theorem avl_clear_releases_witness:
  "\<exists>t'. muggle_avl_tree_clear av_demo True True = Some (t', [Some 5], [Some 50]) \<and> node_ok (av_pool t') {} \<and>
     av_root t' = Some (Malloced 7)"
proof -
  have "av_root av_demo = Some (Malloced 7)" by (simp add: av_demo_def)
  then show ?thesis
    using avl_clear_releases[OF av_demo_ok(2), of True True] by (auto simp: av_demo_ok(8) release_data_def)
qed

end
