(* ===== verification/Bytes_Buffer.thy ===== *)
theory Bytes_Buffer
  imports Muggle_Prelude
begin

text \<open>
  The buffer for byte messages of variable length (\<^verbatim>\<open>muggle/c/memory/bytes_buffer.c\<close>,
  \<^verbatim>\<open>bytes_buffer.h\<close>): a ring that keeps a message contiguous when it can, by leaving the cells between
  the truncate position and the end unused. The lemmas relate the four positions to the queue of bytes
  the buffer holds; the theorems show when the operations are those of a queue.

  The positions are C integers between 0 and the capacity. Every sum of the code is of a position and
  a count that was compared with the room before, so none of them overflows.
\<close>

section \<open>State\<close>

record 'b bytes_buffer =
  bb_c :: int
  bb_w :: int
  bb_r :: int
  bb_t :: int
  bb_buffer :: "'b list ptr"

abbreviation "bb_mem b \<equiv> the (bb_buffer b)"

section \<open>Operations\<close>

definition muggle_bytes_buffer_contiguous_writable :: "'b bytes_buffer \<Rightarrow> int" where
  "muggle_bytes_buffer_contiguous_writable b =
    (if bb_w b \<ge> bb_r b then
       (if bb_r b \<noteq> 0 then bb_c b - bb_w b else bb_c b - bb_w b - 1)
     else bb_r b - bb_w b - 1)"

definition muggle_bytes_buffer_jump_writable :: "'b bytes_buffer \<Rightarrow> int" where
  "muggle_bytes_buffer_jump_writable b =
    (if bb_w b \<ge> bb_r b then (if bb_r b \<noteq> 0 then bb_r b - 1 else 0) else 0)"

definition muggle_bytes_buffer_jump_readable :: "'b bytes_buffer \<Rightarrow> int" where
  "muggle_bytes_buffer_jump_readable b = (if bb_w b \<ge> bb_r b then 0 else bb_w b)"

definition muggle_bytes_buffer_clear :: "'b bytes_buffer \<Rightarrow> 'b bytes_buffer" where
  "muggle_bytes_buffer_clear b = b\<lparr>bb_w := 0, bb_r := 0, bb_t := bb_c b\<rparr>"

definition muggle_bytes_buffer_refresh :: "'b bytes_buffer \<Rightarrow> 'b bytes_buffer" where
  "muggle_bytes_buffer_refresh b = (if bb_w b = bb_r b then muggle_bytes_buffer_clear b else b)"

definition muggle_bytes_buffer_init :: "'b malloc \<Rightarrow> int \<Rightarrow> bool \<times> 'b bytes_buffer" where
  "muggle_bytes_buffer_init m capacity =
    (let b = \<lparr>bb_c = 0, bb_w = 0, bb_r = 0, bb_t = 0, bb_buffer = malloc_array m (nat capacity)\<rparr>
     in if bb_buffer b = None then (False, b)
        else (True, b\<lparr>bb_c := capacity, bb_t := capacity\<rparr>))"

definition muggle_bytes_buffer_destroy :: "'b bytes_buffer \<Rightarrow> 'b bytes_buffer" where
  "muggle_bytes_buffer_destroy b = (if bb_buffer b \<noteq> None then b\<lparr>bb_buffer := None\<rparr> else b)"

definition muggle_bytes_buffer_writable :: "'b bytes_buffer \<Rightarrow> int" where
  "muggle_bytes_buffer_writable b =
    (let cw = muggle_bytes_buffer_contiguous_writable b;
         jw = muggle_bytes_buffer_jump_writable b
     in cw + jw)"

definition muggle_bytes_buffer_contiguous_readable :: "'b bytes_buffer \<Rightarrow> int" where
  "muggle_bytes_buffer_contiguous_readable b =
    (if bb_w b \<ge> bb_r b then bb_w b - bb_r b else bb_t b - bb_r b)"

definition muggle_bytes_buffer_readable :: "'b bytes_buffer \<Rightarrow> int" where
  "muggle_bytes_buffer_readable b =
    (let cr = muggle_bytes_buffer_contiguous_readable b;
         jr = muggle_bytes_buffer_jump_readable b
     in cr + jr)"

text \<open>The bytes \<^verbatim>\<open>buffer[i .. i + n)\<close>, as \<^verbatim>\<open>memcpy\<close> to the destination sees them; \<open>None\<close> is the result
  \<^verbatim>\<open>false\<close>, with the destination untouched.\<close>

definition copy_out :: "'b list \<Rightarrow> int \<Rightarrow> int \<Rightarrow> 'b list" where
  "copy_out buf i n = take (nat n) (drop (nat i) buf)"

definition muggle_bytes_buffer_fetch :: "'b bytes_buffer \<Rightarrow> int \<Rightarrow> 'b list option" where
  "muggle_bytes_buffer_fetch b num_bytes =
    (let cr = muggle_bytes_buffer_contiguous_readable b in
     if cr \<ge> num_bytes then Some (copy_out (bb_mem b) (bb_r b) num_bytes)
     else
       let jr = muggle_bytes_buffer_jump_readable b in
       if cr + jr < num_bytes then None
       else
         let first = (if cr > 0 then copy_out (bb_mem b) (bb_r b) cr else []);
             remain = num_bytes - cr
         in Some (first @ copy_out (bb_mem b) 0 remain))"

definition muggle_bytes_buffer_read :: "'b bytes_buffer \<Rightarrow> int \<Rightarrow> 'b list option \<times> 'b bytes_buffer" where
  "muggle_bytes_buffer_read b num_bytes =
    (let cr = muggle_bytes_buffer_contiguous_readable b in
     if cr \<ge> num_bytes then
       let dst = copy_out (bb_mem b) (bb_r b) num_bytes;
           b = b\<lparr>bb_r := bb_r b + num_bytes\<rparr>;
           b = (if bb_r b = bb_t b then b\<lparr>bb_r := 0\<rparr> else b)
       in (Some dst, muggle_bytes_buffer_refresh b)
     else
       let jr = muggle_bytes_buffer_jump_readable b in
       if cr + jr < num_bytes then (None, b)
       else
         let first = (if cr > 0 then copy_out (bb_mem b) (bb_r b) cr else []);
             remain = num_bytes - cr;
             dst = first @ copy_out (bb_mem b) 0 remain;
             b = b\<lparr>bb_r := remain\<rparr>
         in (Some dst, muggle_bytes_buffer_refresh b))"

definition muggle_bytes_buffer_write :: "'b bytes_buffer \<Rightarrow> int \<Rightarrow> 'b list \<Rightarrow> bool \<times> 'b bytes_buffer" where
  "muggle_bytes_buffer_write b num_bytes src =
    (let cw = muggle_bytes_buffer_contiguous_writable b in
     if cw \<ge> num_bytes then
       let b = b\<lparr>bb_buffer := Some (blit src 0 (bb_mem b) (nat (bb_w b)) (nat num_bytes))\<rparr>;
           b = b\<lparr>bb_w := bb_w b + num_bytes\<rparr>;
           b = (if bb_t b < bb_w b then b\<lparr>bb_t := bb_c b\<rparr> else b);
           b = (if bb_w b = bb_c b then b\<lparr>bb_w := 0\<rparr> else b)
       in (True, b)
     else
       let jw = muggle_bytes_buffer_jump_writable b in
       if cw + jw < num_bytes then (False, b)
       else if jw \<ge> num_bytes then
         let b = b\<lparr>bb_t := bb_w b\<rparr>;
             b = b\<lparr>bb_buffer := Some (blit src 0 (bb_mem b) 0 (nat num_bytes))\<rparr>
         in (True, b\<lparr>bb_w := num_bytes\<rparr>)
       else
         let b = b\<lparr>bb_t := bb_c b\<rparr>;
             b = (if cw > 0 then b\<lparr>bb_buffer := Some (blit src 0 (bb_mem b) (nat (bb_w b)) (nat cw))\<rparr> else b);
             remain = num_bytes - cw;
             b = b\<lparr>bb_buffer := Some (blit src (nat cw) (bb_mem b) 0 (nat remain))\<rparr>
         in (True, b\<lparr>bb_w := remain\<rparr>))"

text \<open>The pointers into the buffer are offsets.\<close>

definition muggle_bytes_buffer_writer_fc :: "'b bytes_buffer \<Rightarrow> int \<Rightarrow> int ptr" where
  "muggle_bytes_buffer_writer_fc b num_bytes =
    (let cw = muggle_bytes_buffer_contiguous_writable b in
     if cw \<ge> num_bytes then Some (bb_w b)
     else
       let jw = muggle_bytes_buffer_jump_writable b in
       if jw \<ge> num_bytes then Some 0 else None)"

definition muggle_bytes_buffer_writer_move :: "'b bytes_buffer \<Rightarrow> int \<Rightarrow> bool \<times> 'b bytes_buffer" where
  "muggle_bytes_buffer_writer_move b num_bytes =
    (let cw = muggle_bytes_buffer_contiguous_writable b in
     if cw \<ge> num_bytes then
       let b = b\<lparr>bb_w := bb_w b + num_bytes\<rparr>;
           b = (if bb_t b < bb_w b then b\<lparr>bb_t := bb_c b\<rparr> else b);
           b = (if bb_w b = bb_c b then b\<lparr>bb_w := 0\<rparr> else b)
       in (True, b)
     else
       let jw = muggle_bytes_buffer_jump_writable b in
       if jw \<ge> num_bytes then (True, b\<lparr>bb_t := bb_w b, bb_w := num_bytes\<rparr>)
       else (False, b))"

definition muggle_bytes_buffer_reader_fc :: "'b bytes_buffer \<Rightarrow> int \<Rightarrow> int ptr" where
  "muggle_bytes_buffer_reader_fc b num_bytes =
    (let cr = muggle_bytes_buffer_contiguous_readable b in
     if cr \<ge> num_bytes then Some (bb_r b) else None)"

definition muggle_bytes_buffer_reader_move :: "'b bytes_buffer \<Rightarrow> int \<Rightarrow> bool \<times> 'b bytes_buffer" where
  "muggle_bytes_buffer_reader_move b num_bytes =
    (let cr = muggle_bytes_buffer_contiguous_readable b in
     if cr \<ge> num_bytes then (True, muggle_bytes_buffer_refresh (b\<lparr>bb_r := bb_r b + num_bytes\<rparr>))
     else (False, b))"

section \<open>The queue of bytes\<close>

lemma seg_blit_away:
  assumes "di + n \<le> length dst" "si + n \<le> length src" "j \<le> di \<or> di + n \<le> i" "j \<le> length dst"
  shows "seg (blit src si dst di n) i j = seg dst i j"
  using assms by (intro nth_equalityI) (auto simp: seg_def nth_blit)

lemma seg_blit_new:
  assumes "di + n \<le> length dst" "si + n \<le> length src"
  shows "seg (blit src si dst di n) di (di + n) = take n (drop si src)"
  using assms by (intro nth_equalityI) (auto simp: seg_def nth_blit)

text \<open>The positions of a buffer in use, and the bytes it holds, oldest first.\<close>

definition bb_inv :: "'b bytes_buffer \<Rightarrow> bool" where
  "bb_inv b \<longleftrightarrow> bb_buffer b \<noteq> None \<and> int (length (bb_mem b)) = bb_c b \<and> 0 \<le> bb_w b \<and> bb_w b < bb_c b \<and>
     0 \<le> bb_r b \<and> bb_t b \<le> bb_c b \<and> (if bb_r b \<le> bb_w b then bb_w b \<le> bb_t b else bb_r b \<le> bb_t b)"

definition bb_bytes :: "'b bytes_buffer \<Rightarrow> 'b list" where
  "bb_bytes b =
    (if bb_r b \<le> bb_w b then copy_out (bb_mem b) (bb_r b) (bb_w b - bb_r b)
     else copy_out (bb_mem b) (bb_r b) (bb_t b - bb_r b) @ copy_out (bb_mem b) 0 (bb_w b))"

text \<open>The same over natural numbers: the record as a tuple of positions and cells.\<close>

definition bb_of :: "nat \<Rightarrow> nat \<Rightarrow> nat \<Rightarrow> nat \<Rightarrow> 'b list \<Rightarrow> 'b bytes_buffer" where
  "bb_of c w r t xs = \<lparr>bb_c = int c, bb_w = int w, bb_r = int r, bb_t = int t, bb_buffer = Some xs\<rparr>"

lemma bb_of_fields [simp]:
  "bb_c (bb_of c w r t xs) = int c" "bb_w (bb_of c w r t xs) = int w" "bb_r (bb_of c w r t xs) = int r"
  "bb_t (bb_of c w r t xs) = int t" "bb_buffer (bb_of c w r t xs) = Some xs"
  "(bb_of c w r t xs)\<lparr>bb_w := int w'\<rparr> = bb_of c w' r t xs" "(bb_of c w r t xs)\<lparr>bb_r := int r'\<rparr> = bb_of c w r' t xs"
  "(bb_of c w r t xs)\<lparr>bb_t := int t'\<rparr> = bb_of c w r t' xs" "(bb_of c w r t xs)\<lparr>bb_buffer := Some xs'\<rparr> = bb_of c w r t xs'"
  "(bb_of c w r t xs)\<lparr>bb_w := 0\<rparr> = bb_of c 0 r t xs" "(bb_of c w r t xs)\<lparr>bb_r := 0\<rparr> = bb_of c w 0 t xs"
  by (simp_all add: bb_of_def)

lemma bb_inv_of:
  "bb_inv (bb_of c w r t xs) \<longleftrightarrow> length xs = c \<and> w < c \<and> t \<le> c \<and> (if r \<le> w then w \<le> t else r \<le> t)"
  by (auto simp: bb_inv_def)

lemma bb_bytes_of: "bb_bytes (bb_of c w r t xs) = (if r \<le> w then seg xs r w else seg xs r t @ seg xs 0 w)"
  by (auto simp: bb_bytes_def copy_out_def seg_def nat_minus_as_int)

lemma bb_inv_obtain:
  assumes "bb_inv b"
  obtains c w r t xs where "b = bb_of c w r t xs" "length xs = c" "w < c" "t \<le> c" "if r \<le> w then w \<le> t else r \<le> t"
proof -
  obtain xs where xs: "bb_buffer b = Some xs" using assms by (auto simp: bb_inv_def)
  have "0 \<le> bb_t b" "0 \<le> bb_c b" using assms by (auto simp: bb_inv_def split: if_splits)
  then have "b = bb_of (nat (bb_c b)) (nat (bb_w b)) (nat (bb_r b)) (nat (bb_t b)) xs"
    using assms xs by (simp add: bb_of_def bb_inv_def)
  then show ?thesis using that assms bb_inv_of by metis
qed

lemma writable_of:
  assumes "w < c" "r \<le> c"
  shows "muggle_bytes_buffer_contiguous_writable (bb_of c w r t xs) =
      int (if r \<le> w then if r \<noteq> 0 then c - w else c - w - 1 else r - w - 1)"
    "muggle_bytes_buffer_jump_writable (bb_of c w r t xs) = int (if r \<le> w then r - 1 else 0)"
  using assms by (auto simp: muggle_bytes_buffer_contiguous_writable_def muggle_bytes_buffer_jump_writable_def of_nat_diff)

lemma readable_of:
  assumes "r \<le> w \<or> r \<le> t"
  shows "muggle_bytes_buffer_contiguous_readable (bb_of c w r t xs) = int (if r \<le> w then w - r else t - r)"
    "muggle_bytes_buffer_jump_readable (bb_of c w r t xs) = int (if r \<le> w then 0 else w)"
  using assms by (auto simp: muggle_bytes_buffer_contiguous_readable_def muggle_bytes_buffer_jump_readable_def of_nat_diff)

text \<open>Writing, branch by branch.\<close>

lemma write_contiguous:
  assumes inv: "length xs = c" "w < c" "t \<le> c" "if r \<le> w then w \<le> t else r \<le> t"
    and n: "length src = n" "n \<le> (if r \<le> w then if r \<noteq> 0 then c - w else c - w - 1 else r - w - 1)"
  defines "w' \<equiv> (if w + n = c then 0 else w + n)" and "t' \<equiv> (if t < w + n then c else t)" and "xs' \<equiv> blit src 0 xs w n"
  shows "muggle_bytes_buffer_write (bb_of c w r t xs) (int n) src = (True, bb_of c w' r t' xs')"
    "bb_inv (bb_of c w' r t' xs')" "bb_bytes (bb_of c w' r t' xs') = bb_bytes (bb_of c w r t xs) @ src"
proof -
  have rc: "r \<le> c" using inv by (auto split: if_splits)
  have wn: "w + n \<le> c" using n inv by (auto split: if_splits)
  show "muggle_bytes_buffer_write (bb_of c w r t xs) (int n) src = (True, bb_of c w' r t' xs')"
    using n(2) rc inv(2) unfolding muggle_bytes_buffer_write_def writable_of[OF inv(2) rc]
    by (auto simp: Let_def w'_def t'_def xs'_def simp flip: of_nat_add)
  show "bb_inv (bb_of c w' r t' xs')"
    using inv n wn rc by (auto simp: bb_inv_of w'_def t'_def xs'_def split: if_splits)
  have new: "seg xs' w (w + n) = src" using seg_blit_new[of w n xs 0 src] inv(1) n(1) wn by (simp add: xs'_def)
  have away: "j \<le> w \<or> w + n \<le> i \<Longrightarrow> j \<le> c \<Longrightarrow> seg xs' i j = seg xs i j" for i j
    using seg_blit_away[of w n xs 0 src j i] inv(1) n(1) wn by (simp add: xs'_def)
  show "bb_bytes (bb_of c w' r t' xs') = bb_bytes (bb_of c w r t xs) @ src"
  proof (cases "r \<le> w")
    case True
    have full: "seg xs' r (w + n) = seg xs r w @ src"
      using seg_append[of r w "w + n" xs'] True new away[of w r] inv by simp
    show ?thesis
    proof (cases "w + n = c")
      case False
      then show ?thesis using True full by (simp add: bb_bytes_of w'_def)
    next
      case wc: True
      then have "0 < r" "t' = c" using n(2) True inv by (auto simp: t'_def split: if_splits)
      then show ?thesis using True wc full by (simp add: bb_bytes_of w'_def)
    qed
  next
    case False
    then have "w + n < r" "r \<le> t" "t' = t" using n inv by (auto simp: t'_def)
    moreover have "seg xs' 0 (w + n) = seg xs 0 w @ src"
      using seg_append[of 0 w "w + n" xs'] new away[of w 0] inv by simp
    moreover have "seg xs' r t = seg xs r t" using away[of t r] \<open>w + n < r\<close> inv by simp
    ultimately show ?thesis using False rc by (simp add: bb_bytes_of w'_def)
  qed
qed

lemma write_jump:
  assumes inv: "length xs = c" "w < c" "t \<le> c" "r \<le> w" "w \<le> t" and r: "0 < r"
    and n: "length src = n" "c - w < n" "n \<le> r - 1"
  defines "xs' \<equiv> blit src 0 xs 0 n"
  shows "muggle_bytes_buffer_write (bb_of c w r t xs) (int n) src = (True, bb_of c n r w xs')"
    "bb_inv (bb_of c n r w xs')" "bb_bytes (bb_of c n r w xs') = bb_bytes (bb_of c w r t xs) @ src"
proof -
  have rc: "r \<le> c" "n \<le> r" "n \<le> c" using inv n(3) r by simp_all
  show "muggle_bytes_buffer_write (bb_of c w r t xs) (int n) src = (True, bb_of c n r w xs')"
    using inv r n unfolding muggle_bytes_buffer_write_def writable_of[OF inv(2) rc(1)] by (auto simp: Let_def xs'_def)
  show "bb_inv (bb_of c n r w xs')" using inv r n by (auto simp: bb_inv_of xs'_def)
  have "seg xs' 0 n = src" using seg_blit_new[of 0 n xs 0 src] inv n rc by (simp add: xs'_def)
  moreover have "seg xs' r w = seg xs r w" using seg_blit_away[of 0 n xs 0 src w r] inv n(1) rc by (simp add: xs'_def)
  ultimately show "bb_bytes (bb_of c n r w xs') = bb_bytes (bb_of c w r t xs) @ src"
    using inv r n(3) by (auto simp: bb_bytes_of)
qed

lemma write_split:
  assumes inv: "length xs = c" "w < c" "t \<le> c" "r \<le> w" "w \<le> t" and r: "0 < r"
    and n: "length src = n" "c - w < n" "r - 1 < n" "n \<le> c - w + (r - 1)"
  defines "xs' \<equiv> blit src (c - w) (blit src 0 xs w (c - w)) 0 (n - (c - w))"
  shows "muggle_bytes_buffer_write (bb_of c w r t xs) (int n) src = (True, bb_of c (n - (c - w)) r c xs')"
    "bb_inv (bb_of c (n - (c - w)) r c xs')" "bb_bytes (bb_of c (n - (c - w)) r c xs') = bb_bytes (bb_of c w r t xs) @ src"
proof -
  define m where "m = n - (c - w)"
  have rc: "r \<le> c" using inv by simp
  have m: "m < r" "int n - int (c - w) = int m" "n = (c - w) + m" using inv r n by (auto simp: m_def of_nat_diff)
  have xs': "xs' = blit src (c - w) (blit src 0 xs w (c - w)) 0 m" by (simp add: xs'_def m_def)
  show "muggle_bytes_buffer_write (bb_of c w r t xs) (int n) src = (True, bb_of c (n - (c - w)) r c xs')"
    using inv r n m unfolding muggle_bytes_buffer_write_def writable_of[OF inv(2) rc]
    by (auto simp: Let_def xs' m_def[symmetric] simp del: of_nat_diff)
  show "bb_inv (bb_of c (n - (c - w)) r c xs')" using inv n m by (auto simp: bb_inv_of xs' m_def[symmetric])
  have l1: "length (blit src 0 xs w (c - w)) = c" using inv n by simp
  have head: "seg xs' 0 m = drop (c - w) src" using seg_blit_new[of 0 m "blit src 0 xs w (c - w)" "c - w" src] l1 inv n m by (simp add: xs')
  have "seg xs' r c = seg (blit src 0 xs w (c - w)) r c"
    using seg_blit_away[of 0 m "blit src 0 xs w (c - w)" "c - w" src c r] l1 inv n m by (simp add: xs')
  also have "\<dots> = seg (blit src 0 xs w (c - w)) r w @ seg (blit src 0 xs w (c - w)) w c"
    using seg_append[of r w c "blit src 0 xs w (c - w)"] inv by simp
  also have "seg (blit src 0 xs w (c - w)) r w = seg xs r w" using seg_blit_away[of w "c - w" xs 0 src w r] inv n by simp
  also have "seg (blit src 0 xs w (c - w)) w c = take (c - w) src" using seg_blit_new[of w "c - w" xs 0 src] inv n by simp
  finally show "bb_bytes (bb_of c (n - (c - w)) r c xs') = bb_bytes (bb_of c w r t xs) @ src"
    using inv m head by (simp add: bb_bytes_of m_def[symmetric])
qed

text \<open>Reading. The truncate position is in front of the writer, unless the writer has just reached it.\<close>

definition bb_clean :: "'b bytes_buffer \<Rightarrow> bool" where
  "bb_clean b \<longleftrightarrow> (bb_r b \<le> bb_w b \<longrightarrow> bb_w b < bb_t b)"

lemma refresh_of:
  assumes "length xs = c" "w < c" "t \<le> c" "if r \<le> w then w < t else r \<le> t"
  defines "b \<equiv> muggle_bytes_buffer_refresh (bb_of c w r t xs)"
  shows "bb_inv b" "bb_clean b" "bb_bytes b = bb_bytes (bb_of c w r t xs)"
proof -
  have "b = (if w = r then bb_of c 0 0 c xs else bb_of c w r t xs)"
    by (auto simp: b_def muggle_bytes_buffer_refresh_def muggle_bytes_buffer_clear_def bb_of_def)
  then show "bb_inv b" "bb_clean b" "bb_bytes b = bb_bytes (bb_of c w r t xs)"
    using assms(1-4) by (auto simp: bb_inv_of bb_clean_def bb_bytes_of split: if_splits)
qed

lemma bb_length:
  assumes "length xs = c" "w < c" "t \<le> c" "if r \<le> w then w \<le> t else r \<le> t"
  shows "length (bb_bytes (bb_of c w r t xs)) = (if r \<le> w then w - r else t - r + w)"
  using assms by (simp add: bb_bytes_of)

lemma take_drop_seg:
  assumes "i + n \<le> j" "j \<le> length xs"
  shows "take n (seg xs i j) = seg xs i (i + n)" "drop n (seg xs i j) = seg xs (i + n) j"
  using assms by (simp_all add: seg_def take_take drop_take add.commute)

lemma copy_out_seg: "copy_out xs (int i) (int n) = seg xs i (i + n)"
  by (simp add: copy_out_def seg_def)

lemma fetch_of:
  assumes inv: "length xs = c" "w < c" "t \<le> c" "if r \<le> w then w \<le> t else r \<le> t"
  shows "muggle_bytes_buffer_fetch (bb_of c w r t xs) (int n) =
    (if n \<le> length (bb_bytes (bb_of c w r t xs)) then Some (take n (bb_bytes (bb_of c w r t xs))) else None)"
proof -
  have rw: "r \<le> w \<or> r \<le> t" using inv by (auto split: if_splits)
  show ?thesis
  proof (cases "r \<le> w")
    case True
    then show ?thesis
      using inv take_drop_seg(1)[of r n w xs]
      by (auto simp: muggle_bytes_buffer_fetch_def readable_of[OF rw] Let_def bb_bytes_of copy_out_seg)
  next
    case False
    then have t: "r \<le> t" using inv by simp
    show ?thesis
    proof (cases "n \<le> t - r")
      case True
      then show ?thesis using False inv t take_drop_seg(1)[of r n t xs]
        by (auto simp: muggle_bytes_buffer_fetch_def readable_of[OF rw] Let_def bb_bytes_of copy_out_seg)
    next
      case n: False
      define m where "m = n - (t - r)"
      have m: "int n - int (t - r) = int m" "n = (t - r) + m" using n by (simp_all add: m_def of_nat_diff)
      have first: "(if 0 < int (t - r) then copy_out xs (int r) (int (t - r)) else []) = seg xs r t"
        using t unfolding copy_out_seg by simp
      show ?thesis
      proof (cases "m \<le> w")
        case True
        have "muggle_bytes_buffer_fetch (bb_of c w r t xs) (int n) = Some (seg xs r t @ seg xs 0 m)"
          using False n m t True unfolding muggle_bytes_buffer_fetch_def readable_of[OF rw] Let_def bb_of_fields option.sel
          by (simp only: first if_False if_True simp_thms m(1)) (use copy_out_seg[of xs 0 m] in auto)
        moreover have "take n (bb_bytes (bb_of c w r t xs)) = seg xs r t @ seg xs 0 m"
          using False n m t inv True take_drop_seg(1)[of 0 m w xs] by (simp add: bb_bytes_of)
        ultimately show ?thesis using False m t inv True bb_length[OF inv] by simp
      next
        case False
        then show ?thesis using \<open>\<not> r \<le> w\<close> n m inv bb_length[OF inv]
          by (simp add: muggle_bytes_buffer_fetch_def readable_of[OF rw] Let_def)
      qed
    qed
  qed
qed

lemma read_fetch: "fst (muggle_bytes_buffer_read b n) = muggle_bytes_buffer_fetch b n"
  by (simp add: muggle_bytes_buffer_read_def muggle_bytes_buffer_fetch_def Let_def)

lemma read_state:
  assumes inv: "length xs = c" "w < c" "t \<le> c" "if r \<le> w then w < t else r \<le> t"
    and n: "n \<le> length (bb_bytes (bb_of c w r t xs))"
  shows "\<exists>r'. snd (muggle_bytes_buffer_read (bb_of c w r t xs) (int n)) = muggle_bytes_buffer_refresh (bb_of c w r' t xs) \<and>
    (if r' \<le> w then w < t else r' \<le> t) \<and> bb_bytes (bb_of c w r' t xs) = drop n (bb_bytes (bb_of c w r t xs))"
proof -
  have rw: "r \<le> w \<or> r \<le> t" and inv': "if r \<le> w then w \<le> t else r \<le> t" using inv by (auto split: if_splits)
  note len = bb_length[OF inv(1-3) inv']
  show ?thesis
  proof (cases "r \<le> w")
    case True
    then have "r + n \<le> w" "w < t" using n len inv by auto
    then show ?thesis using True inv take_drop_seg(2)[of r n w xs]
      by (intro exI[of _ "r + n"])
        (auto simp: muggle_bytes_buffer_read_def readable_of[OF rw] Let_def bb_bytes_of simp flip: of_nat_add)
  next
    case False
    then have t: "r \<le> t" "w < r" using inv by simp_all
    show ?thesis
    proof (cases "n \<le> t - r")
      case True
      have "seg xs (r + n) t @ seg xs 0 w = drop n (bb_bytes (bb_of c w r t xs))"
        using False True t inv take_drop_seg(2)[of r n t xs] by (simp add: bb_bytes_of)
      moreover have "snd (muggle_bytes_buffer_read (bb_of c w r t xs) (int n)) =
          muggle_bytes_buffer_refresh (bb_of c w (if r + n = t then 0 else r + n) t xs)"
        using False True t by (auto simp: muggle_bytes_buffer_read_def readable_of[OF rw] Let_def simp flip: of_nat_add)
      ultimately show ?thesis using t True
        by (intro exI[of _ "if r + n = t then 0 else r + n"]) (auto simp: bb_bytes_of)
    next
      case big: False
      define m where "m = n - (t - r)"
      have m: "int n - int (t - r) = int m" "n = (t - r) + m" "m \<le> w" using big False n len by (simp_all add: m_def of_nat_diff)
      have "snd (muggle_bytes_buffer_read (bb_of c w r t xs) (int n)) = muggle_bytes_buffer_refresh (bb_of c w m t xs)"
      proof -
        have "\<not> int n \<le> int (t - r)" "\<not> int (t - r) + int w < int n" using big m by simp_all
        then show ?thesis
          unfolding muggle_bytes_buffer_read_def readable_of[OF rw] Let_def using False
          by (simp only: if_False m(1) bb_of_fields snd_conv)
      qed
      moreover have "seg xs m w = drop n (bb_bytes (bb_of c w r t xs))"
        using False m t inv take_drop_seg(2)[of 0 m w xs] by (simp add: bb_bytes_of)
      ultimately show ?thesis using m(3) t by (intro exI[of _ m]) (simp add: bb_bytes_of)
    qed
  qed
qed

lemma read_fails: "fst (muggle_bytes_buffer_read b n) = None \<Longrightarrow> snd (muggle_bytes_buffer_read b n) = b"
  by (auto simp: muggle_bytes_buffer_read_def Let_def split: if_splits)

text \<open>A read of a buffer whose writer has stopped exactly at the truncate position: a read of all bytes
  sets the reader to the start, and the buffer holds everything in front of the writer.\<close>

lemma read_stale:
  assumes inv: "length xs = c" "w < c" "r \<le> w" and n: "r + n \<le> w"
  defines "b' \<equiv> snd (muggle_bytes_buffer_read (bb_of c w r w xs) (int n))"
  shows "bb_inv b'" "bb_bytes b' = (if r + n = w then take w xs else seg xs (r + n) w)"
proof -
  have b': "b' = muggle_bytes_buffer_refresh (bb_of c w (if r + n = w then 0 else r + n) w xs)"
    using n inv(3) readable_of[of r w w c xs] unfolding b'_def
    by (auto simp: muggle_bytes_buffer_read_def Let_def simp flip: of_nat_add)
  show "bb_inv b'" "bb_bytes b' = (if r + n = w then take w xs else seg xs (r + n) w)"
    using inv n unfolding b' muggle_bytes_buffer_refresh_def muggle_bytes_buffer_clear_def
    by (auto simp: bb_inv_of bb_bytes_of seg_def simp flip: bb_of_def)
qed

text \<open>The zero-copy interface.\<close>

lemma zero_copy_writer:
  assumes inv: "bb_inv b" and off: "muggle_bytes_buffer_writer_fc b (int n) = Some off"
  shows "muggle_bytes_buffer_writer_move (b\<lparr>bb_buffer := Some (blit src 0 (bb_mem b) (nat off) n)\<rparr>) (int n) =
    muggle_bytes_buffer_write b (int n) src"
proof -
  let ?b = "b\<lparr>bb_buffer := Some (blit src 0 (bb_mem b) (nat off) n)\<rparr>"
  have same: "muggle_bytes_buffer_contiguous_writable ?b = muggle_bytes_buffer_contiguous_writable b"
    "muggle_bytes_buffer_jump_writable ?b = muggle_bytes_buffer_jump_writable b"
    by (simp_all add: muggle_bytes_buffer_contiguous_writable_def muggle_bytes_buffer_jump_writable_def)
  have pos: "0 \<le> muggle_bytes_buffer_contiguous_writable b"
    using inv by (auto simp: muggle_bytes_buffer_contiguous_writable_def bb_inv_def)
  show ?thesis
  proof (cases "int n \<le> muggle_bytes_buffer_contiguous_writable b")
    case True
    then have "off = bb_w b" using off by (simp add: muggle_bytes_buffer_writer_fc_def Let_def)
    then show ?thesis unfolding muggle_bytes_buffer_writer_move_def muggle_bytes_buffer_write_def same using True
      by (simp add: Let_def)
  next
    case False
    then have "off = 0" "int n \<le> muggle_bytes_buffer_jump_writable b"
      using off by (simp_all add: muggle_bytes_buffer_writer_fc_def Let_def split: if_splits)
    then show ?thesis unfolding muggle_bytes_buffer_writer_move_def muggle_bytes_buffer_write_def same using False pos
      by (simp add: Let_def)
  qed
qed

lemma zero_copy_reader:
  assumes inv: "bb_inv b" and off: "muggle_bytes_buffer_reader_fc b (int n) = Some off"
  shows "copy_out (bb_mem b) off (int n) = take n (bb_bytes b) \<and>
    fst (muggle_bytes_buffer_read b (int n)) = Some (copy_out (bb_mem b) off (int n)) \<and>
    (\<exists>b'. muggle_bytes_buffer_reader_move b (int n) = (True, b') \<and> bb_inv b' \<and> bb_bytes b' = drop n (bb_bytes b) \<and>
      (off + int n \<noteq> bb_t b \<longrightarrow> b' = snd (muggle_bytes_buffer_read b (int n))) \<and>
      (off + int n = bb_t b \<and> bb_w b < off \<longrightarrow> bb_bytes (snd (muggle_bytes_buffer_read b (int n))) = bb_bytes b' \<and>
        (\<forall>m > 0. muggle_bytes_buffer_reader_fc b' m = None)))"
proof -
  obtain c w r t xs where b: "b = bb_of c w r t xs" and iv: "length xs = c" "w < c" "t \<le> c" "if r \<le> w then w \<le> t else r \<le> t"
    using inv by (rule bb_inv_obtain)
  have rw: "r \<le> w \<or> r \<le> t" using iv by (auto split: if_splits)
  have n: "off = int r" "r + n \<le> (if r \<le> w then w else t)"
    using off iv(4) by (auto simp: muggle_bytes_buffer_reader_fc_def Let_def b readable_of[OF rw] split: if_splits)
  have bytes: "copy_out (bb_mem b) off (int n) = take n (bb_bytes b)"
    using n iv take_drop_seg(1)[of r n "if r \<le> w then w else t" xs] by (auto simp: b copy_out_seg bb_bytes_of split: if_splits)
  have held: "n \<le> length (bb_bytes b)" using n(2) bb_length[OF iv] by (auto simp: b split: if_splits)
  have copied: "fst (muggle_bytes_buffer_read b (int n)) = Some (copy_out (bb_mem b) off (int n))"
    using read_fetch[of b "int n"] fetch_of[OF iv, of n] held bytes by (simp add: b)
  define b' where "b' = muggle_bytes_buffer_refresh (bb_of c w (r + n) t xs)"
  have run: "muggle_bytes_buffer_reader_move b (int n) = (True, b')"
    using n iv(4) by (auto simp: b'_def muggle_bytes_buffer_reader_move_def Let_def b readable_of[OF rw] simp flip: of_nat_add)
  have same: "bb_bytes (bb_of c w (r + n) t xs) = drop n (bb_bytes b)"
    using n iv take_drop_seg(2)[of r n "if r \<le> w then w else t" xs] by (auto simp: b bb_bytes_of split: if_splits)
  have "bb_inv (bb_of c w (r + n) t xs)" using n iv by (auto simp: bb_inv_of split: if_splits)
  then have ok: "bb_inv b'" "bb_bytes b' = drop n (bb_bytes b)"
    unfolding b'_def same[symmetric]
    by (auto simp: muggle_bytes_buffer_refresh_def muggle_bytes_buffer_clear_def bb_inv_def bb_bytes_def copy_out_def)
  have read: "snd (muggle_bytes_buffer_read b (int n)) =
      muggle_bytes_buffer_refresh (bb_of c w (if r + n = t then 0 else r + n) t xs)"
    using n iv(4) by (auto simp: muggle_bytes_buffer_read_def Let_def b readable_of[OF rw] simp flip: of_nat_add)
  have "bb_bytes (snd (muggle_bytes_buffer_read b (int n))) = bb_bytes b' \<and> (\<forall>m > 0. muggle_bytes_buffer_reader_fc b' m = None)"
    if "r + n = t" "w < r"
  proof
    have cl: "if r \<le> w then w < t else r \<le> t" using that iv(4) by simp
    show "bb_bytes (snd (muggle_bytes_buffer_read b (int n))) = bb_bytes b'"
      using read_state[OF iv(1-3) cl, of n] refresh_of(3)[OF iv(1-3)] held ok(2) by (auto simp: b)
    have "b' = bb_of c w t t xs" using that by (simp add: b'_def muggle_bytes_buffer_refresh_def)
    then show "\<forall>m > 0. muggle_bytes_buffer_reader_fc b' m = None"
      using that by (simp add: muggle_bytes_buffer_reader_fc_def muggle_bytes_buffer_contiguous_readable_def)
  qed
  then show ?thesis
    using bytes copied run ok read n(1) by (intro conjI exI[of _ b']) (auto simp: b b'_def simp flip: of_nat_add)
qed

lemma zero_copy_refused:
  "muggle_bytes_buffer_writer_fc b n = None \<Longrightarrow> muggle_bytes_buffer_writer_move b n = (False, b)"
  "muggle_bytes_buffer_reader_fc b n = None \<Longrightarrow> muggle_bytes_buffer_reader_move b n = (False, b)"
  by (auto simp: muggle_bytes_buffer_writer_fc_def muggle_bytes_buffer_writer_move_def muggle_bytes_buffer_reader_fc_def
      muggle_bytes_buffer_reader_move_def Let_def split: if_splits)

section \<open>Properties\<close>

definition bb_demo :: "nat bytes_buffer" where
  "bb_demo = bb_of 8 6 4 8 [10, 11, 12, 13, 14, 15, 16, 17]"

lemma bb_demo_ok: "bb_inv bb_demo" "bb_clean bb_demo" "bb_bytes bb_demo = [14, 15]"
  by (simp_all add: bb_demo_def bb_inv_of bb_clean_def bb_bytes_of seg_def)

text \<open>C24. Writing refines appending to a queue of bytes. In a buffer with valid positions, \<open>write\<close> of
  \<open>n\<close> bytes succeeds exactly when \<open>n\<close> is at most what \<open>writable\<close> reports; then the bytes held are those
  from before followed by the new ones, in one piece, jumped to the front, or split at the end, and the
  positions stay valid; when it fails, nothing changes.\<close>

theorem bb_write_appends:
  assumes inv: "bb_inv b" and src: "length src = n"
  shows "\<exists>b'. muggle_bytes_buffer_write b (int n) src = (int n \<le> muggle_bytes_buffer_writable b, b') \<and>
    (if int n \<le> muggle_bytes_buffer_writable b then bb_inv b' \<and> bb_bytes b' = bb_bytes b @ src else b' = b)"
proof -
  obtain c w r t xs where b: "b = bb_of c w r t xs" and iv: "length xs = c" "w < c" "t \<le> c" "if r \<le> w then w \<le> t else r \<le> t"
    using inv by (rule bb_inv_obtain)
  have rc: "r \<le> c" using iv by (auto split: if_splits)
  note wr = writable_of[OF iv(2) rc, of t xs]
  show ?thesis
  proof (cases "n \<le> (if r \<le> w then if r \<noteq> 0 then c - w else c - w - 1 else r - w - 1)")
    case True
    then have "int n \<le> muggle_bytes_buffer_writable b" by (simp add: muggle_bytes_buffer_writable_def b wr Let_def)
    then show ?thesis using write_contiguous[OF iv src True] b by simp
  next
    case False
    show ?thesis
    proof (cases "int n \<le> muggle_bytes_buffer_writable b")
      case fits: True
      then have r: "r \<le> w" "0 < r" "c - w < n" "n \<le> c - w + (r - 1)"
        using False by (auto simp: muggle_bytes_buffer_writable_def b wr Let_def split: if_splits)
      then have wt: "w \<le> t" using iv by simp
      show ?thesis
      proof (cases "n \<le> r - 1")
        case True
        then show ?thesis using write_jump[OF iv(1-3) r(1) wt r(2) src r(3)] b fits by simp
      next
        case small: False
        then show ?thesis using write_split[OF iv(1-3) r(1) wt r(2) src r(3) _ r(4)] b fits by simp
      qed
    next
      case full: False
      then have "\<not> muggle_bytes_buffer_contiguous_writable b \<ge> int n"
        "muggle_bytes_buffer_contiguous_writable b + muggle_bytes_buffer_jump_writable b < int n"
        using False by (auto simp: muggle_bytes_buffer_writable_def b wr Let_def)
      then have "muggle_bytes_buffer_write b (int n) src = (False, b)" by (simp add: muggle_bytes_buffer_write_def Let_def)
      then show ?thesis using full by simp
    qed
  qed
qed

theorem bb_write_appends_witness:
  "\<exists>b'. muggle_bytes_buffer_write bb_demo 3 [1, 2, 3] = (True, b') \<and> bb_inv b' \<and> bb_bytes b' = [14, 15, 1, 2, 3]"
proof -
  have "muggle_bytes_buffer_writable bb_demo = 5"
    by (simp add: bb_demo_def muggle_bytes_buffer_writable_def muggle_bytes_buffer_contiguous_writable_def muggle_bytes_buffer_jump_writable_def)
  then show ?thesis using bb_write_appends[OF bb_demo_ok(1), of "[1, 2, 3]" 3] bb_demo_ok(3) by simp
qed

text \<open>C25. Reading refines taking from the front of the queue, with one exception. \<open>readable\<close> is the
  number of bytes held; \<open>read\<close> and \<open>fetch\<close> of \<open>n\<close> bytes succeed exactly when at least \<open>n\<close> bytes are held,
  and deliver the \<open>n\<close> oldest in order, across the jump as well; \<open>fetch\<close>, and a \<open>read\<close> that fails, remove
  nothing. A successful \<open>read\<close> removes exactly the bytes it delivers, except when the writer has stopped
  exactly at the truncate position (\<open>bb_clean\<close> does not hold) and all bytes are read: then the buffer
  holds, and reports as readable, all bytes in front of the writer again. A read of a buffer for which
  \<open>bb_clean\<close> holds leaves one for which it holds.\<close>

theorem bb_read_takes:
  assumes inv: "bb_inv b"
  shows "muggle_bytes_buffer_readable b = int (length (bb_bytes b)) \<and>
    muggle_bytes_buffer_fetch b (int n) = (if n \<le> length (bb_bytes b) then Some (take n (bb_bytes b)) else None) \<and>
    (\<exists>b'. muggle_bytes_buffer_read b (int n) = (muggle_bytes_buffer_fetch b (int n), b') \<and>
      (if n \<le> length (bb_bytes b)
       then bb_inv b' \<and> (bb_clean b \<longrightarrow> bb_clean b') \<and>
         bb_bytes b' = (if \<not> bb_clean b \<and> n = length (bb_bytes b) then take (nat (bb_w b)) (bb_mem b) else drop n (bb_bytes b))
       else b' = b))"
proof -
  obtain c w r t xs where b: "b = bb_of c w r t xs" and iv: "length xs = c" "w < c" "t \<le> c" "if r \<le> w then w \<le> t else r \<le> t"
    using inv by (rule bb_inv_obtain)
  have rw: "r \<le> w \<or> r \<le> t" using iv by (auto split: if_splits)
  have fetch: "muggle_bytes_buffer_fetch b (int n) = (if n \<le> length (bb_bytes b) then Some (take n (bb_bytes b)) else None)"
    using fetch_of[OF iv] b by simp
  define b' where "b' = snd (muggle_bytes_buffer_read b (int n))"
  have run: "muggle_bytes_buffer_read b (int n) = (muggle_bytes_buffer_fetch b (int n), b')"
    using read_fetch[of b "int n"] by (simp add: b'_def prod_eq_iff)
  have clean: "bb_inv b' \<and> bb_clean b' \<and> bb_bytes b' = drop n (bb_bytes b)" if c: "bb_clean b" and n: "n \<le> length (bb_bytes b)"
  proof -
    have cl: "if r \<le> w then w < t else r \<le> t" using c iv by (auto simp: bb_clean_def b)
    obtain r' where r': "b' = muggle_bytes_buffer_refresh (bb_of c w r' t xs)" "if r' \<le> w then w < t else r' \<le> t"
      "bb_bytes (bb_of c w r' t xs) = drop n (bb_bytes b)"
      using read_state[OF iv(1-3) cl, of n] b n by (auto simp: b'_def)
    then show ?thesis using refresh_of[OF iv(1-3) r'(2)] by simp
  qed
  have stale: "bb_inv b' \<and> bb_bytes b' = (if n = length (bb_bytes b) then take (nat (bb_w b)) (bb_mem b) else drop n (bb_bytes b))"
    if "\<not> bb_clean b" "n \<le> length (bb_bytes b)"
  proof -
    have w: "r \<le> w" "t = w" using that(1) iv by (auto simp: bb_clean_def b split: if_splits)
    have n: "r + n \<le> w" "r + n = w \<longleftrightarrow> n = length (bb_bytes b)" using that(2) w bb_length[OF iv] by (auto simp: b)
    have "drop n (bb_bytes b) = seg xs (r + n) w" using take_drop_seg(2)[OF n(1), of xs] w iv by (simp add: b bb_bytes_of)
    then show ?thesis using read_stale[OF iv(1,2) w(1) n(1)] n(2) by (simp add: b'_def b w(2))
  qed
  have "if n \<le> length (bb_bytes b)
       then bb_inv b' \<and> (bb_clean b \<longrightarrow> bb_clean b') \<and>
         bb_bytes b' = (if \<not> bb_clean b \<and> n = length (bb_bytes b) then take (nat (bb_w b)) (bb_mem b) else drop n (bb_bytes b))
       else b' = b"
  proof (cases "n \<le> length (bb_bytes b)")
    case True
    then show ?thesis using clean stale by (cases "bb_clean b") simp_all
  next
    case False
    then show ?thesis using fetch read_fails[of b "int n"] read_fetch[of b "int n"] by (simp add: b'_def)
  qed
  moreover have "muggle_bytes_buffer_readable b = int (length (bb_bytes b))"
    using bb_length[OF iv] by (simp add: muggle_bytes_buffer_readable_def b readable_of[OF rw] Let_def)
  ultimately show ?thesis using fetch run by blast
qed

theorem bb_read_takes_witness:
  "\<exists>b'. muggle_bytes_buffer_read bb_demo 2 = (Some [14, 15], b') \<and> bb_bytes b' = []"
proof -
  have two: "int 2 = 2" "2 \<le> length [14, 15 :: nat]" by simp_all
  from bb_read_takes[OF bb_demo_ok(1), of 2] obtain b' where
    "muggle_bytes_buffer_fetch bb_demo 2 = Some (take 2 [14, 15])"
    "muggle_bytes_buffer_read bb_demo 2 = (muggle_bytes_buffer_fetch bb_demo 2, b')" "bb_bytes b' = drop 2 [14, 15]"
    unfolding bb_demo_ok(3) two(1) if_P[OF two(2)] using bb_demo_ok(2) by auto
  then show ?thesis by simp
qed

text \<open>C26. The zero-copy interface against the copying one. If \<open>writer_fc\<close> hands out a pointer for
  \<open>n\<close> bytes, then storing \<open>n\<close> bytes there and calling \<open>writer_move\<close> is the same as \<open>write\<close> of these bytes.
  If \<open>reader_fc\<close> hands out a pointer, the \<open>n\<close> bytes there are the oldest ones, those that \<open>read\<close> would
  copy, and \<open>reader_move\<close> removes exactly these; it leaves the state that \<open>read\<close> leaves, unless it reaches
  the truncate position. There, \<open>read\<close> sets the reader to the start and \<open>reader_move\<close> does not: after a
  jump of the writer, both leave the same bytes, but \<open>reader_fc\<close> hands out nothing any more after
  \<open>reader_move\<close>, however many bytes there are; where the writer itself stands there, \<open>reader_move\<close> leaves
  an empty buffer, and \<open>read\<close> one that shows all bytes in front of the writer again. Where no pointer is handed out, the moves are refused and
  change nothing.\<close>

theorem bb_zero_copy:
  assumes inv: "bb_inv b" and src: "length src = n"
  shows "(\<forall>off. muggle_bytes_buffer_writer_fc b (int n) = Some off \<longrightarrow>
      muggle_bytes_buffer_writer_move (b\<lparr>bb_buffer := Some (blit src 0 (bb_mem b) (nat off) n)\<rparr>) (int n) =
      muggle_bytes_buffer_write b (int n) src) \<and>
    (muggle_bytes_buffer_writer_fc b (int n) = None \<longrightarrow> muggle_bytes_buffer_writer_move b (int n) = (False, b)) \<and>
    (\<forall>off. muggle_bytes_buffer_reader_fc b (int n) = Some off \<longrightarrow>
      copy_out (bb_mem b) off (int n) = take n (bb_bytes b) \<and>
      fst (muggle_bytes_buffer_read b (int n)) = Some (copy_out (bb_mem b) off (int n)) \<and>
      (\<exists>b'. muggle_bytes_buffer_reader_move b (int n) = (True, b') \<and> bb_inv b' \<and> bb_bytes b' = drop n (bb_bytes b) \<and>
        (off + int n \<noteq> bb_t b \<longrightarrow> b' = snd (muggle_bytes_buffer_read b (int n))) \<and>
        (off + int n = bb_t b \<and> bb_w b < off \<longrightarrow> bb_bytes (snd (muggle_bytes_buffer_read b (int n))) = bb_bytes b' \<and>
          (\<forall>m > 0. muggle_bytes_buffer_reader_fc b' m = None)))) \<and>
    (muggle_bytes_buffer_reader_fc b (int n) = None \<longrightarrow> muggle_bytes_buffer_reader_move b (int n) = (False, b))"
  using zero_copy_writer[OF inv, of n _ src] zero_copy_reader[OF inv, of n] zero_copy_refused[of b "int n"] by blast

theorem bb_zero_copy_witness:
  "muggle_bytes_buffer_writer_fc bb_demo 3 = Some 0 \<and>
   muggle_bytes_buffer_writer_move (bb_demo\<lparr>bb_buffer := Some [1, 2, 3, 13, 14, 15, 16, 17]\<rparr>) 3 =
     muggle_bytes_buffer_write bb_demo 3 [1, 2, 3]"
proof -
  have "muggle_bytes_buffer_writer_fc bb_demo 3 = Some 0"
    by (simp add: bb_demo_def muggle_bytes_buffer_writer_fc_def muggle_bytes_buffer_contiguous_writable_def muggle_bytes_buffer_jump_writable_def)
  then show ?thesis using bb_zero_copy[OF bb_demo_ok(1), of "[1, 2, 3]" 3]
    by (simp add: blit_def) (simp add: bb_demo_def blit_def)
qed

text \<open>A truncate position from an earlier round is still set when the writer stops exactly there. Then
  reading everything makes the buffer report all of it again.\<close>

lemma bb_phantom:
  defines "b0 \<equiv> bb_of 8 0 0 8 (replicate 8 0)"
  defines "b1 \<equiv> snd (muggle_bytes_buffer_write b0 6 [1, 2, 3, 4, 5, 6])"
  defines "b2 \<equiv> snd (muggle_bytes_buffer_read b1 4)"
  defines "b3 \<equiv> snd (muggle_bytes_buffer_write b2 3 [7, 8, 9])"
  defines "b4 \<equiv> snd (muggle_bytes_buffer_read b3 2)"
  defines "b5 \<equiv> snd (muggle_bytes_buffer_write b4 3 [10, 11, 12])"
  shows "muggle_bytes_buffer_read b5 6 = (Some [7, 8, 9, 10, 11, 12 :: nat], b5)"
  unfolding b5_def b4_def b3_def b2_def b1_def b0_def by code_simp

text \<open>After \<open>reader_move\<close> up to the truncate position, \<open>reader_fc\<close> hands out nothing more, although
  there are bytes to read.\<close>

lemma bb_reader_stuck:
  defines "b \<equiv> snd (muggle_bytes_buffer_reader_move (bb_of 8 3 4 6 [7, 8, 9, 0, 5, 6, 0, 0 :: nat]) 2)"
  shows "muggle_bytes_buffer_readable b = 3 \<and> muggle_bytes_buffer_reader_fc b 1 = None"
  unfolding b_def by code_simp

end
