(* ===== verification/Block_Modes.thy ===== *)
theory Block_Modes
  imports Muggle_Prelude "HOL-Library.Word"
begin

text \<open>
  What the block ciphers of \<^verbatim>\<open>muggle/c/crypt\<close> share: bytes and machine words, the operation and mode
  constants of \<^verbatim>\<open>crypt_utils.h\<close>, and the loops of the five modes (ECB, CBC, CFB, OFB, CTR), which
  \<^verbatim>\<open>aes.c\<close>, \<^verbatim>\<open>des.c\<close> and \<^verbatim>\<open>tdes.c\<close> run over their block functions. The locale is what a mode needs of its
  cipher; its lemmas are the round trips.
\<close>

unbundle bit_operations_syntax

section \<open>Bytes and words\<close>

type_synonym byte = "8 word"

definition xor_bytes :: "byte list \<Rightarrow> byte list \<Rightarrow> byte list" where
  "xor_bytes xs ys = map2 (XOR) xs ys"

text \<open>The bytes of a machine word in memory, on a little-endian machine, and back.\<close>

definition bytes_of_u64 :: "64 word \<Rightarrow> byte list" where
  "bytes_of_u64 w = map (\<lambda>i. ucast (drop_bit (8 * i) w)) [0..<8]"

definition u64_of_bytes :: "byte list \<Rightarrow> 64 word" where
  "u64_of_bytes bs = fold (OR) (map (\<lambda>i. push_bit (8 * i) (ucast (bs ! i))) [0..<8]) 0"

definition bytes_of_u32 :: "32 word \<Rightarrow> byte list" where
  "bytes_of_u32 w = map (\<lambda>i. ucast (drop_bit (8 * i) w)) [0..<4]"

definition u32_of_bytes :: "byte list \<Rightarrow> 32 word" where
  "u32_of_bytes bs = fold (OR) (map (\<lambda>i. push_bit (8 * i) (ucast (bs ! i))) [0..<4]) 0"

text \<open>The enumerations of \<^verbatim>\<open>crypt_utils.h\<close>; the contexts keep them as \<^verbatim>\<open>int\<close>.\<close>

definition MUGGLE_DECRYPT :: int where "MUGGLE_DECRYPT = 0"
definition MUGGLE_ENCRYPT :: int where "MUGGLE_ENCRYPT = 1"

definition MUGGLE_BLOCK_CIPHER_MODE_ECB :: int where "MUGGLE_BLOCK_CIPHER_MODE_ECB = 0"
definition MUGGLE_BLOCK_CIPHER_MODE_CBC :: int where "MUGGLE_BLOCK_CIPHER_MODE_CBC = 1"
definition MUGGLE_BLOCK_CIPHER_MODE_CFB :: int where "MUGGLE_BLOCK_CIPHER_MODE_CFB = 2"
definition MUGGLE_BLOCK_CIPHER_MODE_OFB :: int where "MUGGLE_BLOCK_CIPHER_MODE_OFB = 3"
definition MUGGLE_BLOCK_CIPHER_MODE_CTR :: int where "MUGGLE_BLOCK_CIPHER_MODE_CTR = 4"
definition MAX_MUGGLE_BLOCK_CIPHER_MODE :: int where "MAX_MUGGLE_BLOCK_CIPHER_MODE = 5"

lemmas crypt_op_defs = MUGGLE_DECRYPT_def MUGGLE_ENCRYPT_def
lemmas crypt_mode_defs = MUGGLE_BLOCK_CIPHER_MODE_ECB_def MUGGLE_BLOCK_CIPHER_MODE_CBC_def MUGGLE_BLOCK_CIPHER_MODE_CFB_def
  MUGGLE_BLOCK_CIPHER_MODE_OFB_def MUGGLE_BLOCK_CIPHER_MODE_CTR_def MAX_MUGGLE_BLOCK_CIPHER_MODE_def

text \<open>\<^verbatim>\<open>ROUND_UP_POW_OF_2_MUL(x, n)\<close> on \<^verbatim>\<open>unsigned int\<close>.\<close>

definition ROUND_UP_POW_OF_2_MUL :: "32 word \<Rightarrow> 32 word \<Rightarrow> 32 word" where
  "ROUND_UP_POW_OF_2_MUL x n = (x + n - 1) AND (NOT (n - 1))"

text \<open>The test of the block modes: a number of bytes is its own rounding up to a power of two exactly if that divides it.\<close>

lemma round_up_multiple:
  assumes "k < 32"
  shows "(ROUND_UP_POW_OF_2_MUL x (2 ^ k) = x) = (2 ^ k dvd unat x)"
proof -
  have m: "(2 ^ k - 1 :: 32 word) = mask k" by (simp add: mask_eq_exp_minus_1)
  have "ROUND_UP_POW_OF_2_MUL x (2 ^ k) = (x + mask k) AND NOT (mask k)"
    by (simp only: ROUND_UP_POW_OF_2_MUL_def m[symmetric]) (simp add: algebra_simps)
  also have "((x + mask k) AND NOT (mask k) = x) = (take_bit k x = 0)"
  proof
    assume e: "(x + mask k) AND NOT (mask k) = x"
    have "take_bit k x = x AND mask k" by (simp only: take_bit_eq_mask)
    also have "\<dots> = 0" by (subst e[symmetric]) (simp add: and.assoc)
    finally show "take_bit k x = 0" .
  next
    assume t: "take_bit k x = 0"
    have d: "\<not> bit x n \<or> \<not> bit (mask k :: 32 word) n" for n
    proof (cases "n < k")
      case True
      then have "\<not> bit x n" using t bit_take_bit_iff[of k x n] by simp
      then show ?thesis ..
    qed (simp add: bit_mask_iff)
    have "x + mask k = x OR mask k" using d by (rule disjunctive_add)
    moreover have "(x OR mask k) AND NOT (mask k) = x"
      using d by (intro bit_word_eqI) (auto simp: bit_and_iff bit_or_iff bit_not_iff)
    ultimately show "(x + mask k) AND NOT (mask k) = x" by simp
  qed
  also have "(take_bit k x = 0) = (unat (take_bit k x) = 0)" by (simp add: unat_eq_zero)
  also have "\<dots> = (take_bit k (unat x) = 0)" by (simp only: unsigned_take_bit_eq)
  also have "\<dots> = (2 ^ k dvd unat x)" by (simp only: take_bit_eq_mod dvd_eq_mod_eq_0)
  finally show ?thesis .
qed

section \<open>The loops of the modes\<close>

text \<open>\<open>f\<close> is the block function, with the block it reads and the block it overwrites; \<open>bs\<close> is the block size, \<open>n\<close> the number
  of blocks. The loops give back the whole output buffer.\<close>

fun ecb_blocks :: "(byte list \<Rightarrow> byte list \<Rightarrow> byte list) \<Rightarrow> nat \<Rightarrow> nat \<Rightarrow> byte list \<Rightarrow> byte list \<Rightarrow> byte list" where
  "ecb_blocks f bs 0 input output = output"
| "ecb_blocks f bs (Suc n) input output =
    (let input_block = take bs input;
         output_block = f input_block (take bs output)
     in output_block @ ecb_blocks f bs n (drop bs input) (drop bs output))"

fun cbc_blocks ::
    "(byte list \<Rightarrow> byte list \<Rightarrow> byte list) \<Rightarrow> nat \<Rightarrow> bool \<Rightarrow> nat \<Rightarrow> byte list \<Rightarrow> byte list \<Rightarrow> byte list \<Rightarrow> byte list \<times> byte list" where
  "cbc_blocks f bs encrypt 0 iv input output = (iv, output)"
| "cbc_blocks f bs encrypt (Suc n) iv input output =
    (let input_block = take bs input;
         (iv, output_block) =
           (if encrypt then
              let iv = xor_bytes iv input_block;
                  output_block = f iv (take bs output)
              in (output_block, output_block)
            else
              let output_block = xor_bytes (f input_block (take bs output)) iv
              in (input_block, output_block));
         (iv, rest) = cbc_blocks f bs encrypt n iv (drop bs input) (drop bs output)
     in (iv, output_block @ rest))"

text \<open>The byte-wise modes: \<open>msk\<close> is the block size less one.\<close>

fun cfb_bytes ::
    "(byte list \<Rightarrow> byte list) \<Rightarrow> nat \<Rightarrow> bool \<Rightarrow> byte list \<Rightarrow> nat \<Rightarrow> byte list \<Rightarrow> byte list \<times> nat \<times> byte list" where
  "cfb_bytes f msk encrypt iv offset [] = (iv, offset, [])"
| "cfb_bytes f msk encrypt iv offset (x # xs) =
    (let iv = (if offset = 0 then f iv else iv);
         output = x XOR iv ! offset;
         iv = (if encrypt then iv[offset := output] else iv[offset := x]);
         offset = (offset + 1) AND msk;
         (iv, offset, rest) = cfb_bytes f msk encrypt iv offset xs
     in (iv, offset, output # rest))"

fun ofb_bytes ::
    "(byte list \<Rightarrow> byte list) \<Rightarrow> nat \<Rightarrow> byte list \<Rightarrow> nat \<Rightarrow> byte list \<Rightarrow> byte list \<times> nat \<times> byte list" where
  "ofb_bytes f msk iv offset [] = (iv, offset, [])"
| "ofb_bytes f msk iv offset (x # xs) =
    (let iv = (if offset = 0 then f iv else iv);
         output = x XOR iv ! offset;
         offset = (offset + 1) AND msk;
         (iv, offset, rest) = ofb_bytes f msk iv offset xs
     in (iv, offset, output # rest))"

fun ctr_bytes ::
    "(byte list \<Rightarrow> byte list) \<Rightarrow> ('n \<Rightarrow> 'n) \<Rightarrow> ('n \<Rightarrow> byte list) \<Rightarrow> nat \<Rightarrow> 'n \<Rightarrow> nat \<Rightarrow> byte list \<Rightarrow> byte list \<Rightarrow>
      'n \<times> nat \<times> byte list \<times> byte list" where
  "ctr_bytes f inc bytes msk nonce offset stream_block [] = (nonce, offset, stream_block, [])"
| "ctr_bytes f inc bytes msk nonce offset stream_block (x # xs) =
    (let (nonce, stream_block) =
           (if offset = 0 then let nonce = inc nonce in (nonce, f (bytes nonce)) else (nonce, stream_block));
         output = x XOR stream_block ! offset;
         offset = (offset + 1) AND msk;
         (nonce, offset, stream_block, rest) = ctr_bytes f inc bytes msk nonce offset stream_block xs
     in (nonce, offset, stream_block, output # rest))"

section \<open>Round trips\<close>

lemma xor_cancel [simp]: "(x XOR y) XOR y = (x :: 'a::len word)" "y XOR (y XOR x) = x"
  by (simp add: xor.assoc) (simp flip: xor.assoc)

lemma length_xor_bytes [simp]: "length (xor_bytes xs ys) = min (length xs) (length ys)"
  by (simp add: xor_bytes_def)

lemma xor_bytes_cancel: "length xs = length ys \<Longrightarrow> xor_bytes (xor_bytes ys xs) ys = xs"
  by (induction xs ys rule: list_induct2)
    (auto simp: xor_bytes_def xor.commute xor.left_commute)

lemma xor_bytes_commute: "xor_bytes xs ys = xor_bytes ys xs"
proof (induction xs arbitrary: ys)
  case (Cons x xs)
  then show ?case by (cases ys) (auto simp: xor_bytes_def xor.commute)
qed (simp add: xor_bytes_def)

text \<open>Decrypting with the state encryption started from gives the input back, and ends in the same state.\<close>

lemma cfb_roundtrip:
  "cfb_bytes f msk True iv offset xs = (iv', offset', ys) \<Longrightarrow> cfb_bytes f msk False iv offset ys = (iv', offset', xs)"
proof (induction xs arbitrary: iv offset ys)
  case (Cons x xs)
  let ?iv = "if offset = 0 then f iv else iv"
  obtain zs where zs: "cfb_bytes f msk True (?iv[offset := x XOR ?iv ! offset]) ((offset + 1) AND msk) xs = (iv', offset', zs)"
    "ys = (x XOR ?iv ! offset) # zs" using Cons.prems by (auto simp: Let_def split: prod.splits)
  show ?case using Cons.IH[OF zs(1)] zs(2) by (simp add: Let_def)
qed simp

lemma ofb_roundtrip:
  "ofb_bytes f msk iv offset xs = (iv', offset', ys) \<Longrightarrow> ofb_bytes f msk iv offset ys = (iv', offset', xs)"
proof (induction xs arbitrary: iv offset ys)
  case (Cons x xs)
  let ?iv = "if offset = 0 then f iv else iv"
  obtain zs where zs: "ofb_bytes f msk ?iv ((offset + 1) AND msk) xs = (iv', offset', zs)" "ys = (x XOR ?iv ! offset) # zs"
    using Cons.prems by (auto simp: Let_def split: prod.splits)
  show ?case using Cons.IH[OF zs(1)] zs(2) by (simp add: Let_def)
qed simp

lemma ctr_roundtrip:
  "ctr_bytes f inc bytes msk nonce offset st xs = (nonce', offset', st', ys) \<Longrightarrow>
   ctr_bytes f inc bytes msk nonce offset st ys = (nonce', offset', st', xs)"
proof (induction xs arbitrary: nonce offset st ys)
  case (Cons x xs)
  obtain n1 s1 where s1: "(if offset = 0 then let nonce = inc nonce in (nonce, f (bytes nonce)) else (nonce, st)) = (n1, s1)" by fastforce
  obtain zs where zs: "ctr_bytes f inc bytes msk n1 ((offset + 1) AND msk) s1 xs = (nonce', offset', st', zs)" "ys = (x XOR s1 ! offset) # zs"
    using Cons.prems s1 by (auto simp: Let_def split: prod.splits)
  show ?case using Cons.IH[OF zs(1)] zs(2) s1 by (simp only: ctr_bytes.simps Let_def case_prod_conv) (simp add: Let_def)
qed simp

text \<open>The byte-wise modes work on a stream: a message in two pieces is the message in one.\<close>

lemma cfb_append:
  "cfb_bytes f msk e iv offset (xs @ ys) =
    (let (iv1, o1, as) = cfb_bytes f msk e iv offset xs; (iv2, o2, bs) = cfb_bytes f msk e iv1 o1 ys in (iv2, o2, as @ bs))"
  by (induction xs arbitrary: iv offset) (auto simp: Let_def split: prod.splits)

lemma ofb_append:
  "ofb_bytes f msk iv offset (xs @ ys) =
    (let (iv1, o1, as) = ofb_bytes f msk iv offset xs; (iv2, o2, bs) = ofb_bytes f msk iv1 o1 ys in (iv2, o2, as @ bs))"
  by (induction xs arbitrary: iv offset) (auto simp: Let_def split: prod.splits)

lemma ctr_append:
  "ctr_bytes f inc bytes msk nonce offset st (xs @ ys) =
    (let (n1, o1, st1, as) = ctr_bytes f inc bytes msk nonce offset st xs;
         (n2, o2, st2, bs) = ctr_bytes f inc bytes msk n1 o1 st1 ys in (n2, o2, st2, as @ bs))"
  by (induction xs arbitrary: nonce offset st) (auto simp: Let_def split: prod.splits)

lemma length_cfb: "length (snd (snd (cfb_bytes f msk e iv offset xs))) = length xs"
  by (induction xs arbitrary: iv offset) (simp_all add: Let_def case_prod_beta)

lemma length_ofb: "length (snd (snd (ofb_bytes f msk iv offset xs))) = length xs"
  by (induction xs arbitrary: iv offset) (simp_all add: Let_def case_prod_beta)

lemma length_ctr: "length (snd (snd (snd (ctr_bytes f inc bytes msk nonce offset st xs)))) = length xs"
  by (induction xs arbitrary: nonce offset st) (simp_all add: Let_def case_prod_beta)

text \<open>The offsets stay inside the block.\<close>

lemma and_mask_less: "n AND (2 ^ k - 1) < (2 :: nat) ^ k"
proof -
  have "n AND (2 ^ k - 1) = take_bit k n" by (simp only: take_bit_eq_mask mask_eq_exp_minus_1)
  then show ?thesis by simp
qed

lemma offsets_less:
  assumes "\<And>n. n AND msk < bs" "offset < bs"
  shows "fst (snd (cfb_bytes f msk e iv offset xs)) < bs"
    and "fst (snd (ofb_bytes f msk iv offset xs)) < bs"
    and "fst (snd (ctr_bytes f inc bytes msk nonce offset st xs)) < bs"
  using assms(2)
  by (induction xs arbitrary: iv nonce st offset) (simp_all add: Let_def case_prod_beta assms(1))

text \<open>The contract of a block cipher: \<open>ok k\<close> are the keys it is set up with.\<close>

locale block_cipher =
  fixes bs :: nat and ok :: "'k \<Rightarrow> bool" and enc dec :: "'k \<Rightarrow> byte list \<Rightarrow> byte list \<Rightarrow> byte list"
  assumes enc_length: "ok k \<Longrightarrow> length b = bs \<Longrightarrow> length (enc k b z) = bs"
    and dec_enc: "ok k \<Longrightarrow> length b = bs \<Longrightarrow> dec k (enc k b z) z' = b"
begin

lemma ecb_roundtrip:
  assumes "ok k"
  shows "length xs = n * bs \<Longrightarrow> n * bs \<le> length zs \<Longrightarrow> n * bs \<le> length zs' \<Longrightarrow>
    ecb_blocks (dec k) bs n (ecb_blocks (enc k) bs n xs zs) zs' = xs @ drop (n * bs) zs'"
proof (induction n arbitrary: xs zs zs')
  case (Suc n)
  have e: "length (enc k (take bs xs) (take bs zs)) = bs" using Suc.prems assms by (simp add: enc_length)
  have "ecb_blocks (dec k) bs n (ecb_blocks (enc k) bs n (drop bs xs) (drop bs zs)) (drop bs zs') = drop bs xs @ drop (n * bs) (drop bs zs')"
    using Suc.prems by (intro Suc.IH) simp_all
  then show ?case using Suc.prems e assms by (simp add: Let_def dec_enc add.commute)
qed simp

lemma cbc_roundtrip:
  assumes "ok k"
  shows "length iv = bs \<Longrightarrow> length xs = n * bs \<Longrightarrow> n * bs \<le> length zs \<Longrightarrow> n * bs \<le> length zs' \<Longrightarrow>
    cbc_blocks (enc k) bs True n iv xs zs = (iv', ys) \<Longrightarrow>
    cbc_blocks (dec k) bs False n iv ys zs' = (iv', xs @ drop (n * bs) zs')"
proof (induction n arbitrary: iv xs zs zs' ys)
  case (Suc n)
  let ?b = "take bs xs"
  define c where "c = enc k (xor_bytes iv ?b) (take bs zs)"
  have b: "length ?b = bs" using Suc.prems(2) by simp
  have c: "length c = bs" "dec k c z = xor_bytes iv ?b" for z
    unfolding c_def using b Suc.prems(1) assms by (simp_all add: enc_length dec_enc)
  obtain us where us: "cbc_blocks (enc k) bs True n c (drop bs xs) (drop bs zs) = (iv', us)" "ys = c @ us"
    using Suc.prems(5) by (auto simp: Let_def c_def[symmetric] split: prod.splits)
  have "cbc_blocks (dec k) bs False n c us (drop bs zs') = (iv', drop bs xs @ drop (n * bs) (drop bs zs'))"
    using Suc.prems c(1) by (intro Suc.IH[OF _ _ _ _ us(1)]) simp_all
  moreover have "xor_bytes (xor_bytes iv ?b) iv = ?b" using xor_bytes_cancel[of ?b iv] b Suc.prems(1) by simp
  ultimately show ?case using us(2) c by (simp add: Let_def add.commute flip: append_assoc)
qed simp

end

end
