(* ===== verification/Byte_Lanes.thy ===== *)
theory Byte_Lanes
  imports Block_Modes
begin

text \<open>
  Words as rows of bytes. \<open>pack b\<close> is the word whose \<open>i\<close>-th byte in memory (little-endian) is \<open>b i\<close>; the rules carry a
  computation on a whole word, with masks that repeat a byte and with shifts that do not cross a byte, to the same
  computation on each byte.
\<close>

definition pack :: "(nat \<Rightarrow> byte) \<Rightarrow> 'a::len word" where
  "pack b = fold (OR) (map (\<lambda>i. push_bit (8 * i) (ucast (b i))) [0..<LENGTH('a)]) 0"

lemma bit_fold_or: "bit (fold (OR) xs (a :: 'a::len word)) n = (bit a n \<or> (\<exists>x\<in>set xs. bit x n))"
  by (induction xs arbitrary: a) (auto simp: bit_or_iff)

lemma bit_byte_less: "bit (b :: byte) k \<Longrightarrow> k < 8"
  using bit_imp_le_length[of b k] by simp

lemma qr8: "r < 8 \<Longrightarrow> (8 * q + r) div 8 = q" "r < 8 \<Longrightarrow> (8 * q + r) mod 8 = r" for q r :: nat
  by simp_all

lemma byte_index:
  assumes "8 * i \<le> n" "n - 8 * i < 8"
  shows "i = n div 8" "n - 8 * i = n mod (8 :: nat)"
proof -
  have "n = 8 * i + (n - 8 * i)" using assms(1) by simp
  then show "i = n div 8" "n - 8 * i = n mod 8" using qr8[OF assms(2), of i] by simp_all
qed

lemma byte_index_rest: "8 * (n div 8) \<le> n" "n - 8 * (n div 8) = n mod (8 :: nat)"
  by (simp_all add: minus_mult_div_eq_mod)

lemma bit_pack: "bit (pack b :: 'a::len word) n = (n < LENGTH('a) \<and> bit (b (n div 8)) (n mod 8))"
proof
  assume "bit (pack b :: 'a word) n"
  then obtain i where i: "8 * i \<le> n" "n < LENGTH('a)" "bit (b i) (n - 8 * i)"
    by (auto simp: pack_def bit_fold_or bit_push_bit_iff bit_ucast_iff)
  then have "n - 8 * i < 8" by (auto dest: bit_byte_less)
  then have "i = n div 8" "n - 8 * i = n mod 8" using i(1) byte_index by simp_all
  then show "n < LENGTH('a) \<and> bit (b (n div 8)) (n mod 8)" using i by simp
next
  assume n: "n < LENGTH('a) \<and> bit (b (n div 8)) (n mod 8)"
  moreover have "n div 8 < LENGTH('a)" using n div_le_dividend[of n 8] by linarith
  ultimately show "bit (pack b :: 'a word) n" using n byte_index_rest[of n]
    by (auto simp: pack_def bit_fold_or bit_push_bit_iff bit_ucast_iff image_iff intro!: bexI[of _ "n div 8"])
qed

section \<open>Bytes in memory\<close>

lemma pack_cong: "(\<And>i. i < LENGTH('a) div 8 \<Longrightarrow> b i = c i) \<Longrightarrow> 8 dvd LENGTH('a) \<Longrightarrow> pack b = (pack c :: 'a::len word)"
  by (rule bit_word_eqI) (auto simp: bit_pack elim!: dvdE)

lemma pack_byte: "8 * i + 8 \<le> LENGTH('a) \<Longrightarrow> ucast (drop_bit (8 * i) (pack b :: 'a::len word)) = b i"
  by (rule bit_word_eqI) (auto simp: bit_ucast_iff bit_drop_bit_eq bit_pack)

lemma bytes_of_u64_pack: "bytes_of_u64 (pack b) = map b [0..<8]"
  by (simp add: bytes_of_u64_def pack_byte del: upt_Suc cong: map_cong)

lemma bytes_of_u32_pack: "bytes_of_u32 (pack b) = map b [0..<4]"
  by (simp add: bytes_of_u32_def pack_byte del: upt_Suc cong: map_cong)

lemma fold_bytes_pack:
  assumes "LENGTH('a) = 8 * n"
  shows "fold (OR) (map (\<lambda>i. push_bit (8 * i) (ucast (b i))) [0..<n]) 0 = (pack b :: 'a::len word)"
proof (rule bit_word_eqI)
  fix k assume k: "k < LENGTH('a)"
  have "bit (fold (OR) (map (\<lambda>i. push_bit (8 * i) (ucast (b i))) [0..<n]) 0 :: 'a word) k =
      (\<exists>i<n. 8 * i \<le> k \<and> bit (b i) (k - 8 * i))" using k
    by (auto simp: bit_fold_or bit_push_bit_iff bit_ucast_iff)
  also have "\<dots> = bit (b (k div 8)) (k mod 8)"
  proof
    assume "\<exists>i<n. 8 * i \<le> k \<and> bit (b i) (k - 8 * i)"
    then obtain i where i: "8 * i \<le> k" "bit (b i) (k - 8 * i)" by blast
    then have "k - 8 * i < 8" by (auto dest: bit_byte_less)
    then have "i = k div 8" "k - 8 * i = k mod 8" using i(1) byte_index by simp_all
    then show "bit (b (k div 8)) (k mod 8)" using i by simp
  next
    assume "bit (b (k div 8)) (k mod 8)"
    moreover note byte_index_rest[of k]
    moreover have "k div 8 < n" using k assms by auto
    ultimately show "\<exists>i<n. 8 * i \<le> k \<and> bit (b i) (k - 8 * i)" by metis
  qed
  also have "\<dots> = bit (pack b :: 'a word) k" using k by (simp add: bit_pack)
  finally show "bit (fold (OR) (map (\<lambda>i. push_bit (8 * i) (ucast (b i))) [0..<n]) 0 :: 'a word) k = bit (pack b :: 'a word) k" .
qed

lemma u64_of_bytes_pack: "u64_of_bytes bs = pack (\<lambda>i. bs ! i)"
  unfolding u64_of_bytes_def by (rule fold_bytes_pack) simp

lemma u32_of_bytes_pack: "u32_of_bytes bs = pack (\<lambda>i. bs ! i)"
  unfolding u32_of_bytes_def by (rule fold_bytes_pack) simp

lemma bytes_of_u64_of_bytes: "length bs = 8 \<Longrightarrow> bytes_of_u64 (u64_of_bytes bs) = bs"
  by (simp add: u64_of_bytes_pack bytes_of_u64_pack) (auto intro: nth_equalityI)

lemma bytes_of_u32_of_bytes: "length bs = 4 \<Longrightarrow> bytes_of_u32 (u32_of_bytes bs) = bs"
  by (simp add: u32_of_bytes_pack bytes_of_u32_pack) (auto intro: nth_equalityI)

text \<open>Every word is a row of bytes.\<close>

lemma pack_bytes:
  assumes "8 dvd LENGTH('a)"
  shows "pack (\<lambda>i. ucast (drop_bit (8 * i) w)) = (w :: 'a::len word)"
  by (rule bit_word_eqI) (simp add: bit_pack bit_ucast_iff bit_drop_bit_eq)

lemma pack_bytes_u64: "pack (\<lambda>i. bytes_of_u64 w ! i) = w"
  by (rule trans[OF pack_cong pack_bytes]) (simp_all add: bytes_of_u64_def)

lemma pack_bytes_u32: "pack (\<lambda>i. bytes_of_u32 w ! i) = w"
  by (rule trans[OF pack_cong pack_bytes]) (simp_all add: bytes_of_u32_def)

lemma length_bytes_of [simp]: "length (bytes_of_u64 w) = 8" "length (bytes_of_u32 v) = 4"
  by (simp_all add: bytes_of_u64_def bytes_of_u32_def)

section \<open>Operations on every byte\<close>

lemma bit_index:
  fixes k n :: nat
  shows "n \<le> k mod 8 \<Longrightarrow> n \<le> k" and "n \<le> k mod 8 \<Longrightarrow> (k - n) div 8 = k div 8" and "n \<le> k mod 8 \<Longrightarrow> (k - n) mod 8 = k mod 8 - n"
    and "k mod 8 + n < 8 \<Longrightarrow> (n + k) div 8 = k div 8" and "k mod 8 + n < 8 \<Longrightarrow> (n + k) mod 8 = n + k mod 8"
    and "\<not> k mod 8 + n < 8 \<Longrightarrow> n < 8 \<Longrightarrow> (n + k) mod 8 < n"
    and "n \<le> k \<Longrightarrow> \<not> n \<le> k mod 8 \<Longrightarrow> n < 8 \<Longrightarrow> 8 - n \<le> (k - n) mod 8"
proof -
  define q r where "q = k div 8" and "r = k mod 8"
  then have k: "k = 8 * q + r" and qr: "r < 8" "k div 8 = q" "k mod 8 = r" by simp_all
  { assume "n \<le> k mod 8"
    then have "n \<le> r" and e: "k - n = 8 * q + (r - n)" "r - n < 8" using k qr by simp_all
    then show "n \<le> k" using k by simp
    show "(k - n) div 8 = k div 8" "(k - n) mod 8 = k mod 8 - n" unfolding e(1) qr(2,3) using e(2) by (simp_all only: qr8) }
  { assume "k mod 8 + n < 8"
    then have e: "n + k = 8 * q + (n + r)" "n + r < 8" using k qr by simp_all
    show "(n + k) div 8 = k div 8" "(n + k) mod 8 = n + k mod 8" unfolding e(1) qr(2,3) using e(2) by (simp_all only: qr8) }
  { assume "\<not> k mod 8 + n < 8" "n < 8"
    then have e: "n + k = 8 * (q + 1) + (r + n - 8)" and l: "r + n - 8 < 8" "r + n - 8 < n" using k qr by simp_all
    show "(n + k) mod 8 < n" unfolding e using l by (simp only: qr8) }
  { assume "n \<le> k" "\<not> n \<le> k mod 8" "n < 8"
    then have "0 < q" using k qr by (cases q) simp_all
    then have e: "k - n = 8 * (q - 1) + (8 + r - n)" and l: "8 + r - n < 8" "8 - n \<le> 8 + r - n"
      using k qr \<open>\<not> n \<le> k mod 8\<close> \<open>n < 8\<close> by (simp_all add: algebra_simps)
    show "8 - n \<le> (k - n) mod 8" unfolding e using l by (simp only: qr8) }
qed

text \<open>\<open>rng m b\<close>: the bytes \<open>b\<close> have no bit outside the mask \<open>m\<close>.\<close>

definition rng :: "byte \<Rightarrow> (nat \<Rightarrow> byte) \<Rightarrow> bool" where
  "rng m b = (\<forall>i k. bit (b i) k \<longrightarrow> bit m k)"

lemma rng_and: "rng m (\<lambda>i. b i AND m)"
  by (simp add: rng_def bit_and_iff)

lemma rng_and_left: "rng m b \<Longrightarrow> rng m (\<lambda>i. b i AND c i)"
  by (auto simp: rng_def bit_and_iff)

lemma rng_or: "rng m b \<Longrightarrow> rng n c \<Longrightarrow> rng (m OR n) (\<lambda>i. b i OR c i)"
  by (auto simp: rng_def bit_or_iff)

lemma rng_xor: "rng m b \<Longrightarrow> rng n c \<Longrightarrow> rng (m OR n) (\<lambda>i. b i XOR c i)"
  by (auto simp: rng_def bit_or_iff bit_xor_iff)

lemma rng_drop: "rng m b \<Longrightarrow> rng (drop_bit n m) (\<lambda>i. drop_bit n (b i))"
  by (auto simp: rng_def bit_drop_bit_eq)

lemma rng_push: "rng m b \<Longrightarrow> rng (push_bit n m) (\<lambda>i. push_bit n (b i))"
  by (auto simp: rng_def bit_push_bit_iff)

lemma rng_var: "rng m b \<Longrightarrow> rng m (\<lambda>i. b i)"
  by simp

lemma rng_top: "rng (- 1) b"
  by (auto simp: rng_def dest: bit_byte_less)

lemma pack_and: "x = pack b \<Longrightarrow> y = pack c \<Longrightarrow> x AND y = pack (\<lambda>i. b i AND c i)"
  by (auto intro: bit_word_eqI simp: bit_pack bit_and_iff)

lemma pack_or: "x = pack b \<Longrightarrow> y = pack c \<Longrightarrow> x OR y = pack (\<lambda>i. b i OR c i)"
  by (auto intro: bit_word_eqI simp: bit_pack bit_or_iff)

lemma pack_xor: "x = pack b \<Longrightarrow> y = pack c \<Longrightarrow> x XOR y = pack (\<lambda>i. b i XOR c i)"
  by (auto intro: bit_word_eqI simp: bit_pack bit_xor_iff)

lemma pack_drop:
  assumes "x = pack b" "rng m b" "take_bit n m = 0" "n < 8" "8 dvd LENGTH('a)"
  shows "drop_bit n (x :: 'a::len word) = pack (\<lambda>i. drop_bit n (b i))"
proof (rule bit_word_eqI)
  fix k assume k: "k < LENGTH('a)"
  show "bit (drop_bit n x) k = bit (pack (\<lambda>i. drop_bit n (b i)) :: 'a word) k"
  proof (cases "k mod 8 + n < 8")
    case True
    note e = bit_index(4,5)[OF True]
    have "n + k < LENGTH('a)"
    proof -
      obtain l where l: "LENGTH('a) = 8 * l" using assms(5) by (auto elim!: dvdE)
      then have "k div 8 < l" using k by auto
      then have "(n + k) div 8 < l" using e(1) by simp
      then show ?thesis using l by auto
    qed
    then show ?thesis using k assms(1) e by (simp add: bit_drop_bit_eq bit_pack)
  next
    case False
    then have "\<not> bit (b (k div 8)) (n + k mod 8)" by (auto dest: bit_byte_less)
    moreover have "(n + k) mod 8 < n" using False assms(4) by (rule bit_index(6))
    then have "\<not> bit m ((n + k) mod 8)" using assms(3) bit_take_bit_iff[of n m "(n + k) mod 8"] by simp
    then have "\<not> bit (b ((n + k) div 8)) ((n + k) mod 8)" using assms(2) by (auto simp: rng_def)
    ultimately show ?thesis using assms(1) by (simp add: bit_drop_bit_eq bit_pack)
  qed
qed

text \<open>A shift to the left is only right in the bits a later mask keeps.\<close>

definition agree :: "byte \<Rightarrow> 'a::len word \<Rightarrow> (nat \<Rightarrow> byte) \<Rightarrow> bool" where
  "agree m x b = (\<forall>k<LENGTH('a). bit m (k mod 8) \<longrightarrow> bit x k = bit (b (k div 8)) (k mod 8))"

lemma agree_pack: "x = pack b \<Longrightarrow> agree m x b"
  by (simp add: agree_def bit_pack)

lemma agree_and: "agree m x b \<Longrightarrow> agree m y c \<Longrightarrow> agree m (x AND y) (\<lambda>i. b i AND c i)"
  by (simp add: agree_def bit_and_iff)

lemma agree_xor: "agree m x b \<Longrightarrow> agree m y c \<Longrightarrow> agree m (x XOR y) (\<lambda>i. b i XOR c i)"
  by (simp add: agree_def bit_xor_iff)

lemma agree_push:
  assumes "x = pack b" "take_bit n m = 0" "n < 8"
  shows "agree m (push_bit n (x :: 'a::len word)) (\<lambda>i. push_bit n (b i))"
  unfolding agree_def
proof (intro allI impI)
  fix k assume k: "k < LENGTH('a)" "bit m (k mod 8)"
  have "\<not> bit (take_bit n m) (k mod 8)" using assms(2) by simp
  then have n: "n \<le> k mod 8" using k(2) by (simp add: bit_take_bit_iff)
  note ks = bit_index(1-3)[OF n]
  show "bit (push_bit n x) k = bit (push_bit n (b (k div 8))) (k mod 8)"
    using k n ks assms(1) by (simp add: bit_push_bit_iff bit_pack less_imp_diff_less)
qed

lemma pack_agree: "agree m x b \<Longrightarrow> y = pack (\<lambda>i. m) \<Longrightarrow> x AND y = pack (\<lambda>i. b i AND m)"
  by (rule bit_word_eqI) (auto simp: agree_def bit_and_iff bit_pack)

lemma pack_push:
  assumes "x = pack b" "rng m b" "drop_bit (8 - n) m = 0" "n < 8"
  shows "push_bit n (x :: 'a::len word) = pack (\<lambda>i. push_bit n (b i))"
proof (rule bit_word_eqI)
  fix k assume k: "k < LENGTH('a)"
  show "bit (push_bit n x) k = bit (pack (\<lambda>i. push_bit n (b i)) :: 'a word) k"
  proof (cases "n \<le> k mod 8")
    case True
    note ks = bit_index(1-3)[OF True]
    show ?thesis using k True ks assms(1) by (simp add: bit_push_bit_iff bit_pack less_imp_diff_less)
  next
    case False
    have "\<not> bit (b ((k - n) div 8)) ((k - n) mod 8)" if "n \<le> k"
    proof -
      have "8 - n \<le> (k - n) mod 8" using that False assms(4) by (rule bit_index(7))
      then obtain j where j: "(k - n) mod 8 = 8 - n + j" by (auto simp: le_iff_add)
      have "\<not> bit (drop_bit (8 - n) m) j" using assms(3) by simp
      then have "\<not> bit m ((k - n) mod 8)" unfolding j by (simp add: bit_drop_bit_eq)
      then show ?thesis using assms(2) by (auto simp: rng_def)
    qed
    then show ?thesis using k False assms(1) by (auto simp: bit_push_bit_iff bit_pack)
  qed
qed

lemma pack_var: "pack b = pack (\<lambda>i. b i)"
  by simp

text \<open>An assignment, on the word and on each byte.\<close>

lemma pack_let:
  assumes "v = pack c" "rng m c" "\<And>b. rng m b \<Longrightarrow> f (pack b) = pack (\<lambda>i. g i (b i))"
  shows "(let x = v in f x) = pack (\<lambda>i. let y = c i in g i y)"
  using assms by (simp add: Let_def)

end
