(* ===== verification/Aes_Internal.thy ===== *)
theory Aes_Internal
  imports Block_Modes
begin

text \<open>
  The AES block transformation of \<^verbatim>\<open>internal/internal_aes.c\<close>, written after FIPS-197: the tables, the
  multiplication of GF(256), the four steps of a round and their inverses, and the block functions
  \<open>muggle_aes_encrypt\<close> and \<open>muggle_aes_decrypt\<close>, which rewrite a 16 byte \<open>state\<close> in place (a list that is
  returned). The lemmas show that decryption undoes encryption, step by step.
\<close>

section \<open>Tables\<close>

definition s_muggle_aes_sbox :: "byte list" where
  "s_muggle_aes_sbox =
   [0x63, 0x7c, 0x77, 0x7b, 0xf2, 0x6b, 0x6f, 0xc5, 0x30, 0x01, 0x67, 0x2b, 0xfe, 0xd7, 0xab, 0x76,
    0xca, 0x82, 0xc9, 0x7d, 0xfa, 0x59, 0x47, 0xf0, 0xad, 0xd4, 0xa2, 0xaf, 0x9c, 0xa4, 0x72, 0xc0,
    0xb7, 0xfd, 0x93, 0x26, 0x36, 0x3f, 0xf7, 0xcc, 0x34, 0xa5, 0xe5, 0xf1, 0x71, 0xd8, 0x31, 0x15,
    0x04, 0xc7, 0x23, 0xc3, 0x18, 0x96, 0x05, 0x9a, 0x07, 0x12, 0x80, 0xe2, 0xeb, 0x27, 0xb2, 0x75,
    0x09, 0x83, 0x2c, 0x1a, 0x1b, 0x6e, 0x5a, 0xa0, 0x52, 0x3b, 0xd6, 0xb3, 0x29, 0xe3, 0x2f, 0x84,
    0x53, 0xd1, 0x00, 0xed, 0x20, 0xfc, 0xb1, 0x5b, 0x6a, 0xcb, 0xbe, 0x39, 0x4a, 0x4c, 0x58, 0xcf,
    0xd0, 0xef, 0xaa, 0xfb, 0x43, 0x4d, 0x33, 0x85, 0x45, 0xf9, 0x02, 0x7f, 0x50, 0x3c, 0x9f, 0xa8,
    0x51, 0xa3, 0x40, 0x8f, 0x92, 0x9d, 0x38, 0xf5, 0xbc, 0xb6, 0xda, 0x21, 0x10, 0xff, 0xf3, 0xd2,
    0xcd, 0x0c, 0x13, 0xec, 0x5f, 0x97, 0x44, 0x17, 0xc4, 0xa7, 0x7e, 0x3d, 0x64, 0x5d, 0x19, 0x73,
    0x60, 0x81, 0x4f, 0xdc, 0x22, 0x2a, 0x90, 0x88, 0x46, 0xee, 0xb8, 0x14, 0xde, 0x5e, 0x0b, 0xdb,
    0xe0, 0x32, 0x3a, 0x0a, 0x49, 0x06, 0x24, 0x5c, 0xc2, 0xd3, 0xac, 0x62, 0x91, 0x95, 0xe4, 0x79,
    0xe7, 0xc8, 0x37, 0x6d, 0x8d, 0xd5, 0x4e, 0xa9, 0x6c, 0x56, 0xf4, 0xea, 0x65, 0x7a, 0xae, 0x08,
    0xba, 0x78, 0x25, 0x2e, 0x1c, 0xa6, 0xb4, 0xc6, 0xe8, 0xdd, 0x74, 0x1f, 0x4b, 0xbd, 0x8b, 0x8a,
    0x70, 0x3e, 0xb5, 0x66, 0x48, 0x03, 0xf6, 0x0e, 0x61, 0x35, 0x57, 0xb9, 0x86, 0xc1, 0x1d, 0x9e,
    0xe1, 0xf8, 0x98, 0x11, 0x69, 0xd9, 0x8e, 0x94, 0x9b, 0x1e, 0x87, 0xe9, 0xce, 0x55, 0x28, 0xdf,
    0x8c, 0xa1, 0x89, 0x0d, 0xbf, 0xe6, 0x42, 0x68, 0x41, 0x99, 0x2d, 0x0f, 0xb0, 0x54, 0xbb, 0x16]"

definition s_muggle_aes_inv_sbox :: "byte list" where
  "s_muggle_aes_inv_sbox =
   [0x52, 0x09, 0x6a, 0xd5, 0x30, 0x36, 0xa5, 0x38, 0xbf, 0x40, 0xa3, 0x9e, 0x81, 0xf3, 0xd7, 0xfb,
    0x7c, 0xe3, 0x39, 0x82, 0x9b, 0x2f, 0xff, 0x87, 0x34, 0x8e, 0x43, 0x44, 0xc4, 0xde, 0xe9, 0xcb,
    0x54, 0x7b, 0x94, 0x32, 0xa6, 0xc2, 0x23, 0x3d, 0xee, 0x4c, 0x95, 0x0b, 0x42, 0xfa, 0xc3, 0x4e,
    0x08, 0x2e, 0xa1, 0x66, 0x28, 0xd9, 0x24, 0xb2, 0x76, 0x5b, 0xa2, 0x49, 0x6d, 0x8b, 0xd1, 0x25,
    0x72, 0xf8, 0xf6, 0x64, 0x86, 0x68, 0x98, 0x16, 0xd4, 0xa4, 0x5c, 0xcc, 0x5d, 0x65, 0xb6, 0x92,
    0x6c, 0x70, 0x48, 0x50, 0xfd, 0xed, 0xb9, 0xda, 0x5e, 0x15, 0x46, 0x57, 0xa7, 0x8d, 0x9d, 0x84,
    0x90, 0xd8, 0xab, 0x00, 0x8c, 0xbc, 0xd3, 0x0a, 0xf7, 0xe4, 0x58, 0x05, 0xb8, 0xb3, 0x45, 0x06,
    0xd0, 0x2c, 0x1e, 0x8f, 0xca, 0x3f, 0x0f, 0x02, 0xc1, 0xaf, 0xbd, 0x03, 0x01, 0x13, 0x8a, 0x6b,
    0x3a, 0x91, 0x11, 0x41, 0x4f, 0x67, 0xdc, 0xea, 0x97, 0xf2, 0xcf, 0xce, 0xf0, 0xb4, 0xe6, 0x73,
    0x96, 0xac, 0x74, 0x22, 0xe7, 0xad, 0x35, 0x85, 0xe2, 0xf9, 0x37, 0xe8, 0x1c, 0x75, 0xdf, 0x6e,
    0x47, 0xf1, 0x1a, 0x71, 0x1d, 0x29, 0xc5, 0x89, 0x6f, 0xb7, 0x62, 0x0e, 0xaa, 0x18, 0xbe, 0x1b,
    0xfc, 0x56, 0x3e, 0x4b, 0xc6, 0xd2, 0x79, 0x20, 0x9a, 0xdb, 0xc0, 0xfe, 0x78, 0xcd, 0x5a, 0xf4,
    0x1f, 0xdd, 0xa8, 0x33, 0x88, 0x07, 0xc7, 0x31, 0xb1, 0x12, 0x10, 0x59, 0x27, 0x80, 0xec, 0x5f,
    0x60, 0x51, 0x7f, 0xa9, 0x19, 0xb5, 0x4a, 0x0d, 0x2d, 0xe5, 0x7a, 0x9f, 0x93, 0xc9, 0x9c, 0xef,
    0xa0, 0xe0, 0x3b, 0x4d, 0xae, 0x2a, 0xf5, 0xb0, 0xc8, 0xeb, 0xbb, 0x3c, 0x83, 0x53, 0x99, 0x61,
    0x17, 0x2b, 0x04, 0x7e, 0xba, 0x77, 0xd6, 0x26, 0xe1, 0x69, 0x14, 0x63, 0x55, 0x21, 0x0c, 0x7d]"

definition s_muggle_aes_mix_column :: "byte list" where
  "s_muggle_aes_mix_column =
   [0x02, 0x03, 0x01, 0x01,
    0x01, 0x02, 0x03, 0x01,
    0x01, 0x01, 0x02, 0x03,
    0x03, 0x01, 0x01, 0x02]"

definition s_muggle_aes_inv_mix_column :: "byte list" where
  "s_muggle_aes_inv_mix_column =
   [0x0e, 0x0b, 0x0d, 0x09,
    0x09, 0x0e, 0x0b, 0x0d,
    0x0d, 0x09, 0x0e, 0x0b,
    0x0b, 0x0d, 0x09, 0x0e]"

definition s_aes_rcon :: "32 word list" where
  "s_aes_rcon =
   [0x01000000, 0x02000000, 0x04000000, 0x08000000,
    0x10000000, 0x20000000, 0x40000000, 0x80000000,
    0x1b000000, 0x36000000, 0x6c000000, 0xd8000000,
    0xab000000, 0x4d000000, 0x9a000000]"

section \<open>Operations\<close>

lemma word_shift_decreases: "unat (drop_bit 1 a) < unat a" if "a \<noteq> 0" for a :: byte
proof -
  have "unat (drop_bit 1 a) = drop_bit 1 (unat a)" by (rule unat_drop_bit_eq)
  also have "\<dots> = unat a div 2" by (simp only: drop_bit_eq_div power_one_right)
  finally have "unat (drop_bit 1 a) = unat a div 2" .
  moreover have "0 < unat a" using that by (simp add: unat_gt_0)
  ultimately show ?thesis by simp
qed

text \<open>The loop of \<open>galois_mul\<close>: one pass for each bit of \<open>a\<close>.\<close>

function galois_mul_loop :: "byte \<Rightarrow> byte \<Rightarrow> byte \<Rightarrow> byte" where
  "galois_mul_loop a b r =
    (if a \<noteq> 0 then
       let r = (if a AND 0x01 \<noteq> 0 then r XOR b else r);
           t = b AND 0x80;
           b = push_bit 1 b;
           b = (if t \<noteq> 0 then b XOR 0x1b else b);
           a = drop_bit 1 a
       in galois_mul_loop a b r
     else r)"
  by pat_completeness auto
termination
  by (relation "measure (\<lambda>(a, b, r). unat a)")
    (simp_all only: wf_measure in_measure case_prod_conv word_shift_decreases not_False_eq_True)

definition galois_mul :: "byte \<Rightarrow> byte \<Rightarrow> byte" where
  "galois_mul a b = galois_mul_loop a b 0"

definition muggle_aes_add_round_key :: "byte list \<Rightarrow> 32 word list \<Rightarrow> byte list" where
  "muggle_aes_add_round_key state rd_key =
    (let state = state[0 := state ! 0 XOR ucast (drop_bit 24 (rd_key ! 0) AND 0xff)];
         state = state[4 := state ! 4 XOR ucast (drop_bit 16 (rd_key ! 0) AND 0xff)];
         state = state[8 := state ! 8 XOR ucast (drop_bit 8 (rd_key ! 0) AND 0xff)];
         state = state[12 := state ! 12 XOR ucast (rd_key ! 0 AND 0xff)];
         state = state[1 := state ! 1 XOR ucast (drop_bit 24 (rd_key ! 1) AND 0xff)];
         state = state[5 := state ! 5 XOR ucast (drop_bit 16 (rd_key ! 1) AND 0xff)];
         state = state[9 := state ! 9 XOR ucast (drop_bit 8 (rd_key ! 1) AND 0xff)];
         state = state[13 := state ! 13 XOR ucast (rd_key ! 1 AND 0xff)];
         state = state[2 := state ! 2 XOR ucast (drop_bit 24 (rd_key ! 2) AND 0xff)];
         state = state[6 := state ! 6 XOR ucast (drop_bit 16 (rd_key ! 2) AND 0xff)];
         state = state[10 := state ! 10 XOR ucast (drop_bit 8 (rd_key ! 2) AND 0xff)];
         state = state[14 := state ! 14 XOR ucast (rd_key ! 2 AND 0xff)];
         state = state[3 := state ! 3 XOR ucast (drop_bit 24 (rd_key ! 3) AND 0xff)];
         state = state[7 := state ! 7 XOR ucast (drop_bit 16 (rd_key ! 3) AND 0xff)];
         state = state[11 := state ! 11 XOR ucast (drop_bit 8 (rd_key ! 3) AND 0xff)];
         state = state[15 := state ! 15 XOR ucast (rd_key ! 3 AND 0xff)]
     in state)"

definition muggle_aes_sub_bytes :: "byte list \<Rightarrow> byte list" where
  "muggle_aes_sub_bytes state =
    fold (\<lambda>i state. state[i := s_muggle_aes_sbox ! unat (state ! i)]) [0..<16] state"

definition muggle_aes_inv_sub_bytes :: "byte list \<Rightarrow> byte list" where
  "muggle_aes_inv_sub_bytes state =
    fold (\<lambda>i state. state[i := s_muggle_aes_inv_sbox ! unat (state ! i)]) [0..<16] state"

definition muggle_aes_shift_rows :: "byte list \<Rightarrow> byte list" where
  "muggle_aes_shift_rows state =
    (let t = state ! 4;
         state = state[4 := state ! 5];
         state = state[5 := state ! 6];
         state = state[6 := state ! 7];
         state = state[7 := t];
         t = state ! 8;
         state = state[8 := state ! 10];
         state = state[10 := t];
         t = state ! 9;
         state = state[9 := state ! 11];
         state = state[11 := t];
         t = state ! 15;
         state = state[15 := state ! 14];
         state = state[14 := state ! 13];
         state = state[13 := state ! 12];
         state = state[12 := t]
     in state)"

definition muggle_aes_inv_shift_rows :: "byte list \<Rightarrow> byte list" where
  "muggle_aes_inv_shift_rows state =
    (let t = state ! 7;
         state = state[7 := state ! 6];
         state = state[6 := state ! 5];
         state = state[5 := state ! 4];
         state = state[4 := t];
         t = state ! 8;
         state = state[8 := state ! 10];
         state = state[10 := t];
         t = state ! 9;
         state = state[9 := state ! 11];
         state = state[11 := t];
         t = state ! 12;
         state = state[12 := state ! 13];
         state = state[13 := state ! 14];
         state = state[14 := state ! 15];
         state = state[15 := t]
     in state)"

text \<open>The two nested loops; \<open>arr\<close> is the copy of the state, \<open>idx\<close> is \<open>(i << 2) | j\<close>.\<close>

definition muggle_aes_mix_column :: "byte list \<Rightarrow> byte list" where
  "muggle_aes_mix_column state =
    (let arr = state
     in fold (\<lambda>i. fold (\<lambda>j state.
          state[push_bit 2 i OR j :=
            galois_mul (s_muggle_aes_mix_column ! (i * 4 + 0)) (arr ! (0 * 4 + j)) XOR
            galois_mul (s_muggle_aes_mix_column ! (i * 4 + 1)) (arr ! (1 * 4 + j)) XOR
            galois_mul (s_muggle_aes_mix_column ! (i * 4 + 2)) (arr ! (2 * 4 + j)) XOR
            galois_mul (s_muggle_aes_mix_column ! (i * 4 + 3)) (arr ! (3 * 4 + j))]) [0..<4]) [0..<4] state)"

definition muggle_aes_inv_mix_column :: "byte list \<Rightarrow> byte list" where
  "muggle_aes_inv_mix_column state =
    (let arr = state
     in fold (\<lambda>i. fold (\<lambda>j state.
          state[push_bit 2 i OR j :=
            galois_mul (s_muggle_aes_inv_mix_column ! (i * 4 + 0)) (arr ! (0 * 4 + j)) XOR
            galois_mul (s_muggle_aes_inv_mix_column ! (i * 4 + 1)) (arr ! (1 * 4 + j)) XOR
            galois_mul (s_muggle_aes_inv_mix_column ! (i * 4 + 2)) (arr ! (2 * 4 + j)) XOR
            galois_mul (s_muggle_aes_inv_mix_column ! (i * 4 + 3)) (arr ! (3 * 4 + j))]) [0..<4]) [0..<4] state)"

text \<open>The two word functions of the key schedule work on the bytes of a word in memory.\<close>

definition muggle_aes_rot_word :: "32 word \<Rightarrow> 32 word" where
  "muggle_aes_rot_word w =
    (let p_word = bytes_of_u32 w;
         p_ret = bytes_of_u32 0;
         p_ret = p_ret[0 := p_word ! 3];
         p_ret = p_ret[1 := p_word ! 0];
         p_ret = p_ret[2 := p_word ! 1];
         p_ret = p_ret[3 := p_word ! 2]
     in u32_of_bytes p_ret)"

definition muggle_aes_sub_word :: "32 word \<Rightarrow> 32 word" where
  "muggle_aes_sub_word w =
    (let p_word = bytes_of_u32 w
     in u32_of_bytes
          [s_muggle_aes_sbox ! unat (p_word ! 0), s_muggle_aes_sbox ! unat (p_word ! 1),
           s_muggle_aes_sbox ! unat (p_word ! 2), s_muggle_aes_sbox ! unat (p_word ! 3)])"

text \<open>\<^verbatim>\<open>muggle_aes_subkeys_t\<close>: room for fifteen round keys of four words.\<close>

record aes_subkeys =
  rd_key :: "32 word list"
  rounds :: int

text \<open>The four calls of an inner round, and of an inner inverse round.\<close>

definition aes_round :: "byte list \<Rightarrow> 32 word list \<Rightarrow> byte list" where
  "aes_round state k =
    (let state = muggle_aes_sub_bytes state;
         state = muggle_aes_shift_rows state;
         state = muggle_aes_mix_column state
     in muggle_aes_add_round_key state k)"

definition aes_inv_round :: "byte list \<Rightarrow> 32 word list \<Rightarrow> byte list" where
  "aes_inv_round state k =
    (let state = muggle_aes_add_round_key state k;
         state = muggle_aes_inv_mix_column state;
         state = muggle_aes_inv_shift_rows state
     in muggle_aes_inv_sub_bytes state)"

definition muggle_aes_encrypt :: "byte list \<Rightarrow> aes_subkeys \<Rightarrow> muggle_err \<times> byte list" where
  "muggle_aes_encrypt state sk =
    (if rounds sk \<noteq> 10 \<and> rounds sk \<noteq> 12 \<and> rounds sk \<noteq> 14 then (MUGGLE_ERR_INVALID_PARAM, state)
     else
       let state = muggle_aes_add_round_key state (drop 0 (rd_key sk));
           state = aes_round state (drop 4 (rd_key sk));
           state = aes_round state (drop 8 (rd_key sk));
           state = aes_round state (drop 12 (rd_key sk));
           state = aes_round state (drop 16 (rd_key sk));
           state = aes_round state (drop 20 (rd_key sk));
           state = aes_round state (drop 24 (rd_key sk));
           state = aes_round state (drop 28 (rd_key sk));
           state = aes_round state (drop 32 (rd_key sk));
           state = aes_round state (drop 36 (rd_key sk))
       in if rounds sk = 10 then
            let
                state = muggle_aes_sub_bytes state;
                state = muggle_aes_shift_rows state;
                state = muggle_aes_add_round_key state (drop 40 (rd_key sk))
            in (MUGGLE_OK, state)
          else
            let
                state = aes_round state (drop 40 (rd_key sk));
                state = aes_round state (drop 44 (rd_key sk))
            in if rounds sk = 12 then
                 let
                     state = muggle_aes_sub_bytes state;
                     state = muggle_aes_shift_rows state;
                     state = muggle_aes_add_round_key state (drop 48 (rd_key sk))
                 in (MUGGLE_OK, state)
               else if rounds sk = 14 then
                 let
                     state = aes_round state (drop 48 (rd_key sk));
                     state = aes_round state (drop 52 (rd_key sk));
                     state = muggle_aes_sub_bytes state;
                     state = muggle_aes_shift_rows state;
                     state = muggle_aes_add_round_key state (drop 56 (rd_key sk))
                 in (MUGGLE_OK, state)
               else (MUGGLE_OK, state))"

definition muggle_aes_decrypt :: "byte list \<Rightarrow> aes_subkeys \<Rightarrow> muggle_err \<times> byte list" where
  "muggle_aes_decrypt state sk =
    (if rounds sk \<noteq> 10 \<and> rounds sk \<noteq> 12 \<and> rounds sk \<noteq> 14 then (MUGGLE_ERR_INVALID_PARAM, state)
     else
       let state =
             (if rounds sk > 10 then
                let state =
                      (if rounds sk = 14 then
                         let
                             state = muggle_aes_add_round_key state (drop 56 (rd_key sk));
                             state = muggle_aes_inv_shift_rows state;
                             state = muggle_aes_inv_sub_bytes state;
                             state = aes_inv_round state (drop 52 (rd_key sk));
                             state = aes_inv_round state (drop 48 (rd_key sk))
                         in state
                       else
                         let
                             state = muggle_aes_add_round_key state (drop 48 (rd_key sk));
                             state = muggle_aes_inv_shift_rows state;
                             state = muggle_aes_inv_sub_bytes state
                         in state);
                    state = aes_inv_round state (drop 44 (rd_key sk));
                    state = aes_inv_round state (drop 40 (rd_key sk))
                in state
              else
                let
                    state = muggle_aes_add_round_key state (drop 40 (rd_key sk));
                    state = muggle_aes_inv_shift_rows state;
                    state = muggle_aes_inv_sub_bytes state
                in state);
           state = aes_inv_round state (drop 36 (rd_key sk));
           state = aes_inv_round state (drop 32 (rd_key sk));
           state = aes_inv_round state (drop 28 (rd_key sk));
           state = aes_inv_round state (drop 24 (rd_key sk));
           state = aes_inv_round state (drop 20 (rd_key sk));
           state = aes_inv_round state (drop 16 (rd_key sk));
           state = aes_inv_round state (drop 12 (rd_key sk));
           state = aes_inv_round state (drop 8 (rd_key sk));
           state = aes_inv_round state (drop 4 (rd_key sk));
           state = muggle_aes_add_round_key state (drop 0 (rd_key sk))
       in (MUGGLE_OK, state))"

declare galois_mul_loop.simps [simp del]

section \<open>The state as sixteen bytes\<close>

lemma upto_16:
  "[0..<16] = [0, 1, 2, 3, 4, 5, 6, 7, 8, 9, 10, 11, 12, 13, 14, 15]" "[0..<8] = [0, 1, 2, 3, 4, 5, 6, 7]" "[0..<4] = [0, 1, 2, 3]"
  by (simp_all add: upt_conv_Cons eval_nat_numeral)

lemma length_16E:
  assumes "length s = 16"
  obtains x0 x1 x2 x3 x4 x5 x6 x7 x8 x9 x10 x11 x12 x13 x14 x15 where "s = [x0, x1, x2, x3, x4, x5, x6, x7, x8, x9, x10, x11, x12, x13, x14, x15]"
proof -
  have "s = map (\<lambda>i. s ! i) [0..<16]" using assms by (intro nth_equalityI) simp_all
  then have "s = [s ! 0, s ! 1, s ! 2, s ! 3, s ! 4, s ! 5, s ! 6, s ! 7, s ! 8, s ! 9, s ! 10, s ! 11, s ! 12, s ! 13, s ! 14, s ! 15]"
    by (simp only: upto_16 list.map)
  then show ?thesis by (rule that)
qed

lemma shift_rows_inverse: "length s = 16 \<Longrightarrow> muggle_aes_inv_shift_rows (muggle_aes_shift_rows s) = s"
  by (erule length_16E) (simp add: muggle_aes_shift_rows_def muggle_aes_inv_shift_rows_def Let_def)

lemma shift_rows_list:
  "muggle_aes_shift_rows [x0, x1, x2, x3, x4, x5, x6, x7, x8, x9, x10, x11, x12, x13, x14, x15] =
   [x0, x1, x2, x3, x5, x6, x7, x4, x10, x11, x8, x9, x15, x12, x13, x14]"
  by (simp add: muggle_aes_shift_rows_def Let_def)

lemma sub_bytes_map: "length s = 16 \<Longrightarrow> muggle_aes_sub_bytes s = map (\<lambda>b. s_muggle_aes_sbox ! unat b) s"
  by (erule length_16E) (simp add: muggle_aes_sub_bytes_def upto_16)

lemma inv_sub_bytes_map: "length s = 16 \<Longrightarrow> muggle_aes_inv_sub_bytes s = map (\<lambda>b. s_muggle_aes_inv_sbox ! unat b) s"
  by (erule length_16E) (simp add: muggle_aes_inv_sub_bytes_def upto_16)

section \<open>Multiplication in GF(256)\<close>

definition xt :: "byte \<Rightarrow> byte" where
  "xt b = push_bit 1 b XOR (if bit b 7 then 0x1b else 0)"

lemma bit7_iff: "(b AND 0x80 \<noteq> 0) = bit b 7" for b :: byte
  using and_exp_eq_0_iff_not_bit[of b 7] by simp

lemma xt_xor: "xt (x XOR y) = xt x XOR xt y"
  by (simp add: xt_def bit_xor_iff ac_simps del: push_bit_Suc)

lemma galois_mul_loop_0 [simp]: "galois_mul_loop 0 b r = r"
  by (simp add: galois_mul_loop.simps)

lemma galois_mul_step:
  "a \<noteq> 0 \<Longrightarrow> galois_mul_loop a b r = galois_mul_loop (drop_bit 1 a) (xt b) (if a AND 0x01 \<noteq> 0 then r XOR b else r)"
  by (subst galois_mul_loop.simps) (simp only: Let_def bit7_iff xt_def if_True if_False split: if_split, simp)

lemma galois_mul_constants:
  "galois_mul 0x01 b = b" "galois_mul 0x02 b = xt b" "galois_mul 0x03 b = b XOR xt b"
  "galois_mul 0x09 b = b XOR xt (xt (xt b))" "galois_mul 0x0b b = b XOR xt b XOR xt (xt (xt b))"
  "galois_mul 0x0d b = b XOR xt (xt b) XOR xt (xt (xt b))" "galois_mul 0x0e b = xt b XOR xt (xt b) XOR xt (xt (xt b))"
  by (simp_all add: galois_mul_def galois_mul_step xor.assoc)

definition mix4 :: "byte \<Rightarrow> byte \<Rightarrow> byte \<Rightarrow> byte \<Rightarrow> byte" where
  "mix4 a b c d = xt a XOR (b XOR xt b) XOR c XOR d"

definition inv_mix4 :: "byte \<Rightarrow> byte \<Rightarrow> byte \<Rightarrow> byte \<Rightarrow> byte" where
  "inv_mix4 a b c d =
    (xt a XOR xt (xt a) XOR xt (xt (xt a))) XOR (b XOR xt b XOR xt (xt (xt b))) XOR
    (c XOR xt (xt c) XOR xt (xt (xt c))) XOR (d XOR xt (xt (xt d)))"

lemma inv_mix4_mix4: "inv_mix4 (mix4 a b c d) (mix4 b c d a) (mix4 c d a b) (mix4 d a b c) = a"
  unfolding inv_mix4_def mix4_def xt_xor by (simp only: xor.assoc xor.commute xor.left_commute xor_self_eq xor_cancel(2) xor.right_neutral xor.left_neutral)

lemma mix_column_list:
  "muggle_aes_mix_column [x0, x1, x2, x3, x4, x5, x6, x7, x8, x9, x10, x11, x12, x13, x14, x15] =
   [mix4 x0 x4 x8 x12, mix4 x1 x5 x9 x13, mix4 x2 x6 x10 x14, mix4 x3 x7 x11 x15,
    mix4 x4 x8 x12 x0, mix4 x5 x9 x13 x1, mix4 x6 x10 x14 x2, mix4 x7 x11 x15 x3,
    mix4 x8 x12 x0 x4, mix4 x9 x13 x1 x5, mix4 x10 x14 x2 x6, mix4 x11 x15 x3 x7,
    mix4 x12 x0 x4 x8, mix4 x13 x1 x5 x9, mix4 x14 x2 x6 x10, mix4 x15 x3 x7 x11]"
  by (simp add: muggle_aes_mix_column_def upto_16 s_muggle_aes_mix_column_def galois_mul_constants mix4_def ac_simps)

lemma inv_mix_column_list:
  "muggle_aes_inv_mix_column [x0, x1, x2, x3, x4, x5, x6, x7, x8, x9, x10, x11, x12, x13, x14, x15] =
   [inv_mix4 x0 x4 x8 x12, inv_mix4 x1 x5 x9 x13, inv_mix4 x2 x6 x10 x14, inv_mix4 x3 x7 x11 x15,
    inv_mix4 x4 x8 x12 x0, inv_mix4 x5 x9 x13 x1, inv_mix4 x6 x10 x14 x2, inv_mix4 x7 x11 x15 x3,
    inv_mix4 x8 x12 x0 x4, inv_mix4 x9 x13 x1 x5, inv_mix4 x10 x14 x2 x6, inv_mix4 x11 x15 x3 x7,
    inv_mix4 x12 x0 x4 x8, inv_mix4 x13 x1 x5 x9, inv_mix4 x14 x2 x6 x10, inv_mix4 x15 x3 x7 x11]"
  by (simp add: muggle_aes_inv_mix_column_def upto_16 s_muggle_aes_inv_mix_column_def galois_mul_constants inv_mix4_def ac_simps)

lemma mix_column_inverse: "length s = 16 \<Longrightarrow> muggle_aes_inv_mix_column (muggle_aes_mix_column s) = s"
  by (erule length_16E) (simp add: mix_column_list inv_mix_column_list inv_mix4_mix4)

section \<open>The substitution tables\<close>

lemma sbox_inverse_table: "map (\<lambda>x. s_muggle_aes_inv_sbox ! unat x) s_muggle_aes_sbox = map of_nat [0..<256]"
  by (simp add: s_muggle_aes_sbox_def s_muggle_aes_inv_sbox_def upt_conv_Cons del: upt_Suc)

lemma length_sbox [simp]: "length s_muggle_aes_sbox = 256"
  by (simp add: s_muggle_aes_sbox_def)

lemma sbox_inverse: "s_muggle_aes_inv_sbox ! unat (s_muggle_aes_sbox ! unat b) = b"
proof -
  have "unat b < 2 ^ LENGTH(8)" by (rule unsigned_less)
  then have b: "unat b < 256" by simp
  have "s_muggle_aes_inv_sbox ! unat (s_muggle_aes_sbox ! unat b) =
      map (\<lambda>x. s_muggle_aes_inv_sbox ! unat x) s_muggle_aes_sbox ! unat b" using b by simp
  also have "\<dots> = b" unfolding sbox_inverse_table using b by simp
  finally show ?thesis .
qed

lemma sub_bytes_inverse: "length s = 16 \<Longrightarrow> muggle_aes_inv_sub_bytes (muggle_aes_sub_bytes s) = s"
  by (simp add: sub_bytes_map inv_sub_bytes_map sbox_inverse o_def)

section \<open>Decryption undoes encryption\<close>

lemma add_round_key_list:
  "muggle_aes_add_round_key [x0, x1, x2, x3, x4, x5, x6, x7, x8, x9, x10, x11, x12, x13, x14, x15] k =
   (let b = \<lambda>i n. ucast (drop_bit n (k ! i) AND 0xff)
    in [x0 XOR b 0 24, x1 XOR b 1 24, x2 XOR b 2 24, x3 XOR b 3 24, x4 XOR b 0 16, x5 XOR b 1 16, x6 XOR b 2 16, x7 XOR b 3 16,
        x8 XOR b 0 8, x9 XOR b 1 8, x10 XOR b 2 8, x11 XOR b 3 8, x12 XOR b 0 0, x13 XOR b 1 0, x14 XOR b 2 0, x15 XOR b 3 0])"
  by (simp add: muggle_aes_add_round_key_def Let_def)

lemma add_round_key_involutive:
  "length s = 16 \<Longrightarrow> muggle_aes_add_round_key (muggle_aes_add_round_key s k) k = s"
  by (erule length_16E) (simp only: add_round_key_list Let_def xor_cancel)

lemma length_steps [simp]:
  "length s = 16 \<Longrightarrow> length (muggle_aes_sub_bytes s) = 16"
  "length s = 16 \<Longrightarrow> length (muggle_aes_shift_rows s) = 16"
  "length s = 16 \<Longrightarrow> length (muggle_aes_mix_column s) = 16"
  "length s = 16 \<Longrightarrow> length (muggle_aes_add_round_key s k) = 16"
  "length s = 16 \<Longrightarrow> length (muggle_aes_inv_sub_bytes s) = 16"
  "length s = 16 \<Longrightarrow> length (muggle_aes_inv_shift_rows s) = 16"
  "length s = 16 \<Longrightarrow> length (muggle_aes_inv_mix_column s) = 16"
  by (simp add: sub_bytes_map, simp add: muggle_aes_shift_rows_def Let_def, erule length_16E, simp add: mix_column_list,
      simp add: muggle_aes_add_round_key_def Let_def, simp add: inv_sub_bytes_map,
      simp add: muggle_aes_inv_shift_rows_def Let_def, erule length_16E, simp add: inv_mix_column_list)

lemma length_round [simp]: "length s = 16 \<Longrightarrow> length (aes_round s k) = 16"
  "length s = 16 \<Longrightarrow> length (aes_inv_round s k) = 16"
  by (simp_all add: aes_round_def aes_inv_round_def)

lemma inv_round_round: "length s = 16 \<Longrightarrow> aes_inv_round (aes_round s k) k = s"
  by (simp add: aes_round_def aes_inv_round_def add_round_key_involutive mix_column_inverse shift_rows_inverse sub_bytes_inverse)

lemmas inverse_steps = inv_round_round add_round_key_involutive shift_rows_inverse sub_bytes_inverse

lemma decrypt_encrypt:
  assumes "length s = 16" "rounds sk \<in> {10, 12, 14}"
  shows "muggle_aes_decrypt (snd (muggle_aes_encrypt s sk)) sk = (MUGGLE_OK, s)"
  using assms by (auto simp: muggle_aes_encrypt_def muggle_aes_decrypt_def Let_def inverse_steps)

end
