(* ===== verification/Aes_Openssl.thy ===== *)
theory Aes_Openssl
  imports Byte_Lanes Aes_Internal
begin

text \<open>
  The AES of \<^verbatim>\<open>openssl/openssl_aes.c\<close>, the one the default build uses: constant-time code that keeps the state in two
  64 bit words and substitutes eight bytes at once by arithmetic in towers of fields. The lemmas reduce every function to
  its effect on bytes and show it equal to the corresponding step of \<^verbatim>\<open>internal_aes.c\<close>.
\<close>

section \<open>Words of bytes\<close>

text \<open>\<open>b - (b >> 7)\<close> is the only arithmetic operation; the words wrap as in C.\<close>

definition openssl_xtime_u32 :: "32 word \<Rightarrow> 32 word" where
  "openssl_xtime_u32 w =
    (let a = w;
         b = a AND 0x80808080;
         a = a XOR b;
         b = b - drop_bit 7 b;
         b = b AND 0x1B1B1B1B;
         b = b XOR push_bit 1 a
     in b)"

definition openssl_xtime_u64 :: "64 word \<Rightarrow> 64 word" where
  "openssl_xtime_u64 w =
    (let a = w;
         b = a AND 0x8080808080808080;
         a = a XOR b;
         b = b - drop_bit 7 b;
         b = b AND 0x1B1B1B1B1B1B1B1B;
         b = b XOR push_bit 1 a
     in b)"

definition openssl_sub_u32 :: "32 word \<Rightarrow> 32 word" where
  "openssl_sub_u32 w =
    (let x = w;
         y = (drop_bit 1 (x AND 0xFEFEFEFE)) OR (push_bit 7 (x AND 0x01010101));
         x = x AND 0xDDDDDDDD;
         x = x XOR (y AND 0x57575757);
         y = (drop_bit 1 (y AND 0xFEFEFEFE)) OR (push_bit 7 (y AND 0x01010101));
         x = x XOR (y AND 0x1C1C1C1C);
         y = (drop_bit 1 (y AND 0xFEFEFEFE)) OR (push_bit 7 (y AND 0x01010101));
         x = x XOR (y AND 0x4A4A4A4A);
         y = (drop_bit 1 (y AND 0xFEFEFEFE)) OR (push_bit 7 (y AND 0x01010101));
         x = x XOR (y AND 0x42424242);
         y = (drop_bit 1 (y AND 0xFEFEFEFE)) OR (push_bit 7 (y AND 0x01010101));
         x = x XOR (y AND 0x64646464);
         y = (drop_bit 1 (y AND 0xFEFEFEFE)) OR (push_bit 7 (y AND 0x01010101));
         x = x XOR (y AND 0xE0E0E0E0);
         a1 = x;
         a1 = a1 XOR (drop_bit 4 (x AND 0xF0F0F0F0));
         a2 = (drop_bit 2 (x AND 0xCCCCCCCC)) OR (push_bit 2 (x AND 0x33333333));
         a3 = x AND a1;
         a3 = a3 XOR (drop_bit 1 (a3 AND 0xAAAAAAAA));
         a3 = a3 XOR ((((push_bit 1 x) AND a1) XOR ((push_bit 1 a1) AND x)) AND 0xAAAAAAAA);
         a4 = a2 AND a1;
         a4 = a4 XOR (drop_bit 1 (a4 AND 0xAAAAAAAA));
         a4 = a4 XOR ((((push_bit 1 a2) AND a1) XOR ((push_bit 1 a1) AND a2)) AND 0xAAAAAAAA);
         a5 = drop_bit 2 (a3 AND 0xCCCCCCCC);
         a3 = a3 XOR (((push_bit 2 a4) XOR a4) AND 0xCCCCCCCC);
         a4 = a5 AND 0x22222222;
         a4 = a4 OR (drop_bit 1 a4);
         a4 = a4 XOR ((push_bit 1 a5) AND 0x22222222);
         a3 = a3 XOR a4;
         a5 = a3 AND 0xA0A0A0A0;
         a5 = a5 OR (drop_bit 1 a5);
         a5 = a5 XOR ((push_bit 1 a3) AND 0xA0A0A0A0);
         a4 = a5 AND 0xC0C0C0C0;
         a6 = drop_bit 2 a4;
         a4 = a4 XOR ((push_bit 2 a5) AND 0xC0C0C0C0);
         a5 = a6 AND 0x20202020;
         a5 = a5 OR (drop_bit 1 a5);
         a5 = a5 XOR ((push_bit 1 a6) AND 0x20202020);
         a4 = a4 OR a5;
         a3 = a3 XOR (drop_bit 4 a4);
         a3 = a3 AND 0x0F0F0F0F;
         a2 = a3;
         a2 = a2 XOR (drop_bit 2 (a3 AND 0x0C0C0C0C));
         a4 = a3 AND a2;
         a4 = a4 XOR (drop_bit 1 (a4 AND 0x0A0A0A0A0A));
         a4 = a4 XOR ((((push_bit 1 a3) AND a2) XOR ((push_bit 1 a2) AND a3)) AND 0x0A0A0A0A);
         a5 = a4 AND 0x08080808;
         a5 = a5 OR (drop_bit 1 a5);
         a5 = a5 XOR ((push_bit 1 a4) AND 0x08080808);
         a4 = a4 XOR (drop_bit 2 a5);
         a4 = a4 AND 0x03030303;
         a4 = a4 XOR (drop_bit 1 (a4 AND 0x02020202));
         a4 = a4 OR (push_bit 2 a4);
         a3 = a2 AND a4;
         a3 = a3 XOR (drop_bit 1 (a3 AND 0x0A0A0A0A));
         a3 = a3 XOR ((((push_bit 1 a2) AND a4) XOR ((push_bit 1 a4) AND a2)) AND 0x0A0A0A0A);
         a3 = a3 OR (push_bit 4 a3);
         a2 = (drop_bit 2 (a1 AND 0xCCCCCCCC)) OR (push_bit 2 (a1 AND 0x33333333));
         x = a1 AND a3;
         x = x XOR (drop_bit 1 (x AND 0xAAAAAAAA));
         x = x XOR ((((push_bit 1 a1) AND a3) XOR ((push_bit 1 a3) AND a1)) AND 0xAAAAAAAA);
         a4 = a2 AND a3;
         a4 = a4 XOR (drop_bit 1 (a4 AND 0xAAAAAAAA));
         a4 = a4 XOR ((((push_bit 1 a2) AND a3) XOR ((push_bit 1 a3) AND a2)) AND 0xAAAAAAAA);
         a5 = drop_bit 2 (x AND 0xCCCCCCCC);
         x = x XOR (((push_bit 2 a4) XOR a4) AND 0xCCCCCCCC);
         a4 = a5 AND 0x22222222;
         a4 = a4 OR (drop_bit 1 a4);
         a4 = a4 XOR ((push_bit 1 a5) AND 0x22222222);
         x = x XOR a4;
         y = (drop_bit 1 (x AND 0xFEFEFEFE)) OR (push_bit 7 (x AND 0x01010101));
         x = x AND 0x39393939;
         x = x XOR (y AND 0x3F3F3F3F);
         y = (drop_bit 2 (y AND 0xFCFCFCFC)) OR (push_bit 6 (y AND 0x03030303));
         x = x XOR (y AND 0x97979797);
         y = (drop_bit 1 (y AND 0xFEFEFEFE)) OR (push_bit 7 (y AND 0x01010101));
         x = x XOR (y AND 0x9B9B9B9B);
         y = (drop_bit 1 (y AND 0xFEFEFEFE)) OR (push_bit 7 (y AND 0x01010101));
         x = x XOR (y AND 0x3C3C3C3C);
         y = (drop_bit 1 (y AND 0xFEFEFEFE)) OR (push_bit 7 (y AND 0x01010101));
         x = x XOR (y AND 0xDDDDDDDD);
         y = (drop_bit 1 (y AND 0xFEFEFEFE)) OR (push_bit 7 (y AND 0x01010101));
         x = x XOR (y AND 0x72727272);
         x = x XOR 0x63636363
     in x)"

definition openssl_sub_u64 :: "64 word \<Rightarrow> 64 word" where
  "openssl_sub_u64 w =
    (let x = w;
         y = (drop_bit 1 (x AND 0xFEFEFEFEFEFEFEFE)) OR (push_bit 7 (x AND 0x0101010101010101));
         x = x AND 0xDDDDDDDDDDDDDDDD;
         x = x XOR (y AND 0x5757575757575757);
         y = (drop_bit 1 (y AND 0xFEFEFEFEFEFEFEFE)) OR (push_bit 7 (y AND 0x0101010101010101));
         x = x XOR (y AND 0x1C1C1C1C1C1C1C1C);
         y = (drop_bit 1 (y AND 0xFEFEFEFEFEFEFEFE)) OR (push_bit 7 (y AND 0x0101010101010101));
         x = x XOR (y AND 0x4A4A4A4A4A4A4A4A);
         y = (drop_bit 1 (y AND 0xFEFEFEFEFEFEFEFE)) OR (push_bit 7 (y AND 0x0101010101010101));
         x = x XOR (y AND 0x4242424242424242);
         y = (drop_bit 1 (y AND 0xFEFEFEFEFEFEFEFE)) OR (push_bit 7 (y AND 0x0101010101010101));
         x = x XOR (y AND 0x6464646464646464);
         y = (drop_bit 1 (y AND 0xFEFEFEFEFEFEFEFE)) OR (push_bit 7 (y AND 0x0101010101010101));
         x = x XOR (y AND 0xE0E0E0E0E0E0E0E0);
         a1 = x;
         a1 = a1 XOR (drop_bit 4 (x AND 0xF0F0F0F0F0F0F0F0));
         a2 = (drop_bit 2 (x AND 0xCCCCCCCCCCCCCCCC)) OR (push_bit 2 (x AND 0x3333333333333333));
         a3 = x AND a1;
         a3 = a3 XOR (drop_bit 1 (a3 AND 0xAAAAAAAAAAAAAAAA));
         a3 = a3 XOR ((((push_bit 1 x) AND a1) XOR ((push_bit 1 a1) AND x)) AND 0xAAAAAAAAAAAAAAAA);
         a4 = a2 AND a1;
         a4 = a4 XOR (drop_bit 1 (a4 AND 0xAAAAAAAAAAAAAAAA));
         a4 = a4 XOR ((((push_bit 1 a2) AND a1) XOR ((push_bit 1 a1) AND a2)) AND 0xAAAAAAAAAAAAAAAA);
         a5 = drop_bit 2 (a3 AND 0xCCCCCCCCCCCCCCCC);
         a3 = a3 XOR (((push_bit 2 a4) XOR a4) AND 0xCCCCCCCCCCCCCCCC);
         a4 = a5 AND 0x2222222222222222;
         a4 = a4 OR (drop_bit 1 a4);
         a4 = a4 XOR ((push_bit 1 a5) AND 0x2222222222222222);
         a3 = a3 XOR a4;
         a5 = a3 AND 0xA0A0A0A0A0A0A0A0;
         a5 = a5 OR (drop_bit 1 a5);
         a5 = a5 XOR ((push_bit 1 a3) AND 0xA0A0A0A0A0A0A0A0);
         a4 = a5 AND 0xC0C0C0C0C0C0C0C0;
         a6 = drop_bit 2 a4;
         a4 = a4 XOR ((push_bit 2 a5) AND 0xC0C0C0C0C0C0C0C0);
         a5 = a6 AND 0x2020202020202020;
         a5 = a5 OR (drop_bit 1 a5);
         a5 = a5 XOR ((push_bit 1 a6) AND 0x2020202020202020);
         a4 = a4 OR a5;
         a3 = a3 XOR (drop_bit 4 a4);
         a3 = a3 AND 0x0F0F0F0F0F0F0F0F;
         a2 = a3;
         a2 = a2 XOR (drop_bit 2 (a3 AND 0x0C0C0C0C0C0C0C0C));
         a4 = a3 AND a2;
         a4 = a4 XOR (drop_bit 1 (a4 AND 0x0A0A0A0A0A0A0A0A));
         a4 = a4 XOR ((((push_bit 1 a3) AND a2) XOR ((push_bit 1 a2) AND a3)) AND 0x0A0A0A0A0A0A0A0A);
         a5 = a4 AND 0x0808080808080808;
         a5 = a5 OR (drop_bit 1 a5);
         a5 = a5 XOR ((push_bit 1 a4) AND 0x0808080808080808);
         a4 = a4 XOR (drop_bit 2 a5);
         a4 = a4 AND 0x0303030303030303;
         a4 = a4 XOR (drop_bit 1 (a4 AND 0x0202020202020202));
         a4 = a4 OR (push_bit 2 a4);
         a3 = a2 AND a4;
         a3 = a3 XOR (drop_bit 1 (a3 AND 0x0A0A0A0A0A0A0A0A));
         a3 = a3 XOR ((((push_bit 1 a2) AND a4) XOR ((push_bit 1 a4) AND a2)) AND 0x0A0A0A0A0A0A0A0A);
         a3 = a3 OR (push_bit 4 a3);
         a2 = (drop_bit 2 (a1 AND 0xCCCCCCCCCCCCCCCC)) OR (push_bit 2 (a1 AND 0x3333333333333333));
         x = a1 AND a3;
         x = x XOR (drop_bit 1 (x AND 0xAAAAAAAAAAAAAAAA));
         x = x XOR ((((push_bit 1 a1) AND a3) XOR ((push_bit 1 a3) AND a1)) AND 0xAAAAAAAAAAAAAAAA);
         a4 = a2 AND a3;
         a4 = a4 XOR (drop_bit 1 (a4 AND 0xAAAAAAAAAAAAAAAA));
         a4 = a4 XOR ((((push_bit 1 a2) AND a3) XOR ((push_bit 1 a3) AND a2)) AND 0xAAAAAAAAAAAAAAAA);
         a5 = drop_bit 2 (x AND 0xCCCCCCCCCCCCCCCC);
         x = x XOR (((push_bit 2 a4) XOR a4) AND 0xCCCCCCCCCCCCCCCC);
         a4 = a5 AND 0x2222222222222222;
         a4 = a4 OR (drop_bit 1 a4);
         a4 = a4 XOR ((push_bit 1 a5) AND 0x2222222222222222);
         x = x XOR a4;
         y = (drop_bit 1 (x AND 0xFEFEFEFEFEFEFEFE)) OR (push_bit 7 (x AND 0x0101010101010101));
         x = x AND 0x3939393939393939;
         x = x XOR (y AND 0x3F3F3F3F3F3F3F3F);
         y = (drop_bit 2 (y AND 0xFCFCFCFCFCFCFCFC)) OR (push_bit 6 (y AND 0x0303030303030303));
         x = x XOR (y AND 0x9797979797979797);
         y = (drop_bit 1 (y AND 0xFEFEFEFEFEFEFEFE)) OR (push_bit 7 (y AND 0x0101010101010101));
         x = x XOR (y AND 0x9B9B9B9B9B9B9B9B);
         y = (drop_bit 1 (y AND 0xFEFEFEFEFEFEFEFE)) OR (push_bit 7 (y AND 0x0101010101010101));
         x = x XOR (y AND 0x3C3C3C3C3C3C3C3C);
         y = (drop_bit 1 (y AND 0xFEFEFEFEFEFEFEFE)) OR (push_bit 7 (y AND 0x0101010101010101));
         x = x XOR (y AND 0xDDDDDDDDDDDDDDDD);
         y = (drop_bit 1 (y AND 0xFEFEFEFEFEFEFEFE)) OR (push_bit 7 (y AND 0x0101010101010101));
         x = x XOR (y AND 0x7272727272727272);
         x = x XOR 0x6363636363636363
     in x)"

definition openssl_inv_sub_u64 :: "64 word \<Rightarrow> 64 word" where
  "openssl_inv_sub_u64 w =
    (let x = w;
         x = x XOR 0x6363636363636363;
         y = (drop_bit 1 (x AND 0xFEFEFEFEFEFEFEFE)) OR (push_bit 7 (x AND 0x0101010101010101));
         x = x AND 0xFDFDFDFDFDFDFDFD;
         x = x XOR (y AND 0x5E5E5E5E5E5E5E5E);
         y = (drop_bit 1 (y AND 0xFEFEFEFEFEFEFEFE)) OR (push_bit 7 (y AND 0x0101010101010101));
         x = x XOR (y AND 0xF3F3F3F3F3F3F3F3);
         y = (drop_bit 1 (y AND 0xFEFEFEFEFEFEFEFE)) OR (push_bit 7 (y AND 0x0101010101010101));
         x = x XOR (y AND 0xF5F5F5F5F5F5F5F5);
         y = (drop_bit 1 (y AND 0xFEFEFEFEFEFEFEFE)) OR (push_bit 7 (y AND 0x0101010101010101));
         x = x XOR (y AND 0x7878787878787878);
         y = (drop_bit 1 (y AND 0xFEFEFEFEFEFEFEFE)) OR (push_bit 7 (y AND 0x0101010101010101));
         x = x XOR (y AND 0x7777777777777777);
         y = (drop_bit 1 (y AND 0xFEFEFEFEFEFEFEFE)) OR (push_bit 7 (y AND 0x0101010101010101));
         x = x XOR (y AND 0x1515151515151515);
         y = (drop_bit 1 (y AND 0xFEFEFEFEFEFEFEFE)) OR (push_bit 7 (y AND 0x0101010101010101));
         x = x XOR (y AND 0xA5A5A5A5A5A5A5A5);
         a1 = x;
         a1 = a1 XOR (drop_bit 4 (x AND 0xF0F0F0F0F0F0F0F0));
         a2 = (drop_bit 2 (x AND 0xCCCCCCCCCCCCCCCC)) OR (push_bit 2 (x AND 0x3333333333333333));
         a3 = x AND a1;
         a3 = a3 XOR (drop_bit 1 (a3 AND 0xAAAAAAAAAAAAAAAA));
         a3 = a3 XOR ((((push_bit 1 x) AND a1) XOR ((push_bit 1 a1) AND x)) AND 0xAAAAAAAAAAAAAAAA);
         a4 = a2 AND a1;
         a4 = a4 XOR (drop_bit 1 (a4 AND 0xAAAAAAAAAAAAAAAA));
         a4 = a4 XOR ((((push_bit 1 a2) AND a1) XOR ((push_bit 1 a1) AND a2)) AND 0xAAAAAAAAAAAAAAAA);
         a5 = drop_bit 2 (a3 AND 0xCCCCCCCCCCCCCCCC);
         a3 = a3 XOR (((push_bit 2 a4) XOR a4) AND 0xCCCCCCCCCCCCCCCC);
         a4 = a5 AND 0x2222222222222222;
         a4 = a4 OR (drop_bit 1 a4);
         a4 = a4 XOR ((push_bit 1 a5) AND 0x2222222222222222);
         a3 = a3 XOR a4;
         a5 = a3 AND 0xA0A0A0A0A0A0A0A0;
         a5 = a5 OR (drop_bit 1 a5);
         a5 = a5 XOR ((push_bit 1 a3) AND 0xA0A0A0A0A0A0A0A0);
         a4 = a5 AND 0xC0C0C0C0C0C0C0C0;
         a6 = drop_bit 2 a4;
         a4 = a4 XOR ((push_bit 2 a5) AND 0xC0C0C0C0C0C0C0C0);
         a5 = a6 AND 0x2020202020202020;
         a5 = a5 OR (drop_bit 1 a5);
         a5 = a5 XOR ((push_bit 1 a6) AND 0x2020202020202020);
         a4 = a4 OR a5;
         a3 = a3 XOR (drop_bit 4 a4);
         a3 = a3 AND 0x0F0F0F0F0F0F0F0F;
         a2 = a3;
         a2 = a2 XOR (drop_bit 2 (a3 AND 0x0C0C0C0C0C0C0C0C));
         a4 = a3 AND a2;
         a4 = a4 XOR (drop_bit 1 (a4 AND 0x0A0A0A0A0A0A0A0A));
         a4 = a4 XOR ((((push_bit 1 a3) AND a2) XOR ((push_bit 1 a2) AND a3)) AND 0x0A0A0A0A0A0A0A0A);
         a5 = a4 AND 0x0808080808080808;
         a5 = a5 OR (drop_bit 1 a5);
         a5 = a5 XOR ((push_bit 1 a4) AND 0x0808080808080808);
         a4 = a4 XOR (drop_bit 2 a5);
         a4 = a4 AND 0x0303030303030303;
         a4 = a4 XOR (drop_bit 1 (a4 AND 0x0202020202020202));
         a4 = a4 OR (push_bit 2 a4);
         a3 = a2 AND a4;
         a3 = a3 XOR (drop_bit 1 (a3 AND 0x0A0A0A0A0A0A0A0A));
         a3 = a3 XOR ((((push_bit 1 a2) AND a4) XOR ((push_bit 1 a4) AND a2)) AND 0x0A0A0A0A0A0A0A0A);
         a3 = a3 OR (push_bit 4 a3);
         a2 = (drop_bit 2 (a1 AND 0xCCCCCCCCCCCCCCCC)) OR (push_bit 2 (a1 AND 0x3333333333333333));
         x = a1 AND a3;
         x = x XOR (drop_bit 1 (x AND 0xAAAAAAAAAAAAAAAA));
         x = x XOR ((((push_bit 1 a1) AND a3) XOR ((push_bit 1 a3) AND a1)) AND 0xAAAAAAAAAAAAAAAA);
         a4 = a2 AND a3;
         a4 = a4 XOR (drop_bit 1 (a4 AND 0xAAAAAAAAAAAAAAAA));
         a4 = a4 XOR ((((push_bit 1 a2) AND a3) XOR ((push_bit 1 a3) AND a2)) AND 0xAAAAAAAAAAAAAAAA);
         a5 = drop_bit 2 (x AND 0xCCCCCCCCCCCCCCCC);
         x = x XOR (((push_bit 2 a4) XOR a4) AND 0xCCCCCCCCCCCCCCCC);
         a4 = a5 AND 0x2222222222222222;
         a4 = a4 OR (drop_bit 1 a4);
         a4 = a4 XOR ((push_bit 1 a5) AND 0x2222222222222222);
         x = x XOR a4;
         y = (drop_bit 1 (x AND 0xFEFEFEFEFEFEFEFE)) OR (push_bit 7 (x AND 0x0101010101010101));
         x = x AND 0xB5B5B5B5B5B5B5B5;
         x = x XOR (y AND 0x4040404040404040);
         y = (drop_bit 1 (y AND 0xFEFEFEFEFEFEFEFE)) OR (push_bit 7 (y AND 0x0101010101010101));
         x = x XOR (y AND 0x8080808080808080);
         y = (drop_bit 1 (y AND 0xFEFEFEFEFEFEFEFE)) OR (push_bit 7 (y AND 0x0101010101010101));
         x = x XOR (y AND 0x1616161616161616);
         y = (drop_bit 1 (y AND 0xFEFEFEFEFEFEFEFE)) OR (push_bit 7 (y AND 0x0101010101010101));
         x = x XOR (y AND 0xEBEBEBEBEBEBEBEB);
         y = (drop_bit 1 (y AND 0xFEFEFEFEFEFEFEFE)) OR (push_bit 7 (y AND 0x0101010101010101));
         x = x XOR (y AND 0x9797979797979797);
         y = (drop_bit 1 (y AND 0xFEFEFEFEFEFEFEFE)) OR (push_bit 7 (y AND 0x0101010101010101));
         x = x XOR (y AND 0xFBFBFBFBFBFBFBFB);
         y = (drop_bit 1 (y AND 0xFEFEFEFEFEFEFEFE)) OR (push_bit 7 (y AND 0x0101010101010101));
         x = x XOR (y AND 0x7D7D7D7D7D7D7D7D)
     in x)"

section \<open>The rounds\<close>

text \<open>The state is an array of two 64 bit words; \<^verbatim>\<open>(unsigned char *)state\<close> are its sixteen bytes.\<close>

definition state_bytes :: "64 word list \<Rightarrow> byte list" where
  "state_bytes state = concat (map bytes_of_u64 state)"

definition state_of_bytes :: "byte list \<Rightarrow> 64 word list" where
  "state_of_bytes s0 = [u64_of_bytes (take 8 s0), u64_of_bytes (take 8 (drop 8 s0))]"

definition openssl_shift_row :: "64 word list \<Rightarrow> 64 word list" where
  "openssl_shift_row state =
    (let s0 = state_bytes state;
         s0 = fold (\<lambda>r s0.
           let s = [s0 ! (0 * 4 + r), s0 ! (1 * 4 + r), s0 ! (2 * 4 + r), s0 ! (3 * 4 + r)];
               s0 = s0[0 * 4 + r := s ! ((r + 0) mod 4)];
               s0 = s0[1 * 4 + r := s ! ((r + 1) mod 4)];
               s0 = s0[2 * 4 + r := s ! ((r + 2) mod 4)];
               s0 = s0[3 * 4 + r := s ! ((r + 3) mod 4)]
           in s0) [0..<4] s0
     in state_of_bytes s0)"

definition openssl_inv_shift_row :: "64 word list \<Rightarrow> 64 word list" where
  "openssl_inv_shift_row state =
    (let s0 = state_bytes state;
         s0 = fold (\<lambda>r s0.
           let s = [s0 ! (0 * 4 + r), s0 ! (1 * 4 + r), s0 ! (2 * 4 + r), s0 ! (3 * 4 + r)];
               s0 = s0[0 * 4 + r := s ! ((4 - r) mod 4)];
               s0 = s0[1 * 4 + r := s ! ((5 - r) mod 4)];
               s0 = s0[2 * 4 + r := s ! ((6 - r) mod 4)];
               s0 = s0[3 * 4 + r := s ! ((7 - r) mod 4)]
           in s0) [0..<4] s0
     in state_of_bytes s0)"

text \<open>The body of the loop over the two words; \<open>s.b\<close> and \<open>s1.b\<close> are the bytes of the unions.\<close>

definition xor_next_byte :: "64 word \<Rightarrow> 64 word \<Rightarrow> 64 word" where
  "xor_next_byte s s1 =
    (let sb = bytes_of_u64 s;
         s1b = bytes_of_u64 s1;
         sb = sb[0 := sb ! 0 XOR s1b ! 1];
         sb = sb[1 := sb ! 1 XOR s1b ! 2];
         sb = sb[2 := sb ! 2 XOR s1b ! 3];
         sb = sb[3 := sb ! 3 XOR s1b ! 0];
         sb = sb[4 := sb ! 4 XOR s1b ! 5];
         sb = sb[5 := sb ! 5 XOR s1b ! 6];
         sb = sb[6 := sb ! 6 XOR s1b ! 7];
         sb = sb[7 := sb ! 7 XOR s1b ! 4]
     in u64_of_bytes sb)"

definition mix_columns_word :: "64 word \<Rightarrow> 64 word" where
  "mix_columns_word d =
    (let s1 = d;
         s = s1;
         s = s XOR (drop_bit 16 (s AND 0xFFFF0000FFFF0000) OR push_bit 16 (s AND 0x0000FFFF0000FFFF));
         s = s XOR (drop_bit 8 (s AND 0xFF00FF00FF00FF00) OR push_bit 8 (s AND 0x00FF00FF00FF00FF));
         s = s XOR s1;
         s1 = openssl_xtime_u64 s1;
         s = s XOR s1;
         s = xor_next_byte s s1
     in s)"

definition inv_mix_columns_word :: "64 word \<Rightarrow> 64 word" where
  "inv_mix_columns_word d =
    (let s1 = d;
         s = s1;
         s = s XOR (drop_bit 16 (s AND 0xFFFF0000FFFF0000) OR push_bit 16 (s AND 0x0000FFFF0000FFFF));
         s = s XOR (drop_bit 8 (s AND 0xFF00FF00FF00FF00) OR push_bit 8 (s AND 0x00FF00FF00FF00FF));
         s = s XOR s1;
         s1 = openssl_xtime_u64 s1;
         s = s XOR s1;
         s = xor_next_byte s s1;
         s1 = openssl_xtime_u64 s1;
         s1 = s1 XOR (drop_bit 16 (s1 AND 0xFFFF0000FFFF0000) OR push_bit 16 (s1 AND 0x0000FFFF0000FFFF));
         s = s XOR s1;
         s1 = openssl_xtime_u64 s1;
         s1 = s1 XOR (drop_bit 8 (s1 AND 0xFF00FF00FF00FF00) OR push_bit 8 (s1 AND 0x00FF00FF00FF00FF));
         s = s XOR s1
     in s)"

definition openssl_mix_columns :: "64 word list \<Rightarrow> 64 word list" where
  "openssl_mix_columns state = fold (\<lambda>c state. state[c := mix_columns_word (state ! c)]) [0..<2] state"

definition openssl_inv_mix_columns :: "64 word list \<Rightarrow> 64 word list" where
  "openssl_inv_mix_columns state = fold (\<lambda>c state. state[c := inv_mix_columns_word (state ! c)]) [0..<2] state"

definition openssl_add_round_key :: "64 word list \<Rightarrow> 64 word list \<Rightarrow> 64 word list" where
  "openssl_add_round_key state w =
    (let state = state[0 := state ! 0 XOR w ! 0];
         state = state[1 := state ! 1 XOR w ! 1]
     in state)"

text \<open>The two calls for the two words of the state.\<close>

definition sub_state :: "64 word list \<Rightarrow> 64 word list" where
  "sub_state state =
    (let state = state[0 := openssl_sub_u64 (state ! 0)];
         state = state[1 := openssl_sub_u64 (state ! 1)]
     in state)"

definition inv_sub_state :: "64 word list \<Rightarrow> 64 word list" where
  "inv_sub_state state =
    (let state = state[0 := openssl_inv_sub_u64 (state ! 0)];
         state = state[1 := openssl_inv_sub_u64 (state ! 1)]
     in state)"

definition openssl_cipher :: "byte list \<Rightarrow> 64 word list \<Rightarrow> nat \<Rightarrow> byte list" where
  "openssl_cipher input w nr =
    (let state = state_of_bytes input;
         state = openssl_add_round_key state w;
         state = fold (\<lambda>i state.
           let state = sub_state state;
               state = openssl_shift_row state;
               state = openssl_mix_columns state
           in openssl_add_round_key state (drop (i * 2) w)) [1..<nr] state;
         state = sub_state state;
         state = openssl_shift_row state;
         state = openssl_add_round_key state (drop (nr * 2) w)
     in state_bytes state)"

definition openssl_inv_cipher :: "byte list \<Rightarrow> 64 word list \<Rightarrow> nat \<Rightarrow> byte list" where
  "openssl_inv_cipher input w nr =
    (let state = state_of_bytes input;
         state = openssl_add_round_key state (drop (nr * 2) w);
         state = fold (\<lambda>i state.
           let state = openssl_inv_shift_row state;
               state = inv_sub_state state;
               state = openssl_add_round_key state (drop (i * 2) w)
           in openssl_inv_mix_columns state) (rev [1..<nr]) state;
         state = openssl_inv_shift_row state;
         state = inv_sub_state state;
         state = openssl_add_round_key state w
     in state_bytes state)"

section \<open>The key schedule\<close>

definition openssl_rot_word :: "32 word \<Rightarrow> 32 word" where
  "openssl_rot_word x =
    (let w0 = bytes_of_u32 x;
         tmp = w0 ! 0;
         w0 = w0[0 := w0 ! 1];
         w0 = w0[1 := w0 ! 2];
         w0 = w0[2 := w0 ! 3];
         w0 = w0[3 := tmp]
     in u32_of_bytes w0)"

text \<open>The words \<open>w[0]\<close> and \<open>w[1]\<close> of the union.\<close>

definition uni_w :: "64 word \<Rightarrow> 32 word list" where
  "uni_w d = [u32_of_bytes (take 4 (bytes_of_u64 d)), u32_of_bytes (drop 4 (bytes_of_u64 d))]"

definition uni_of_w :: "32 word list \<Rightarrow> 64 word" where
  "uni_of_w ws = u64_of_bytes (bytes_of_u32 (ws ! 0) @ bytes_of_u32 (ws ! 1))"

text \<open>One pass of the loop: the words \<open>w[i - n]\<close>, \<open>prev\<close> and \<open>rcon\<close> give \<open>w[i]\<close> and the next \<open>rcon\<close>.\<close>

definition key_expansion_temp :: "nat \<Rightarrow> nat \<Rightarrow> 32 word \<Rightarrow> 32 word \<Rightarrow> 32 word \<times> 32 word" where
  "key_expansion_temp nk i temp rcon =
    (let n = nk div 2 in
     if i mod n = 0 then
       let temp = openssl_rot_word temp;
           temp = openssl_sub_u32 temp;
           temp = temp XOR rcon;
           rcon = openssl_xtime_u32 rcon
       in (temp, rcon)
     else if nk > 6 \<and> i mod n = 2 then (openssl_sub_u32 temp, rcon)
     else (temp, rcon))"

definition key_expansion_step ::
    "nat \<Rightarrow> nat \<Rightarrow> 64 word list \<times> 64 word \<times> 32 word \<Rightarrow> 64 word list \<times> 64 word \<times> 32 word" where
  "key_expansion_step nk i = (\<lambda>(w, prev, rcon).
    (let n = nk div 2;
         temp = uni_w prev ! 1;
         (temp, rcon) = key_expansion_temp nk i temp rcon;
         pw = uni_w (w ! (i - n));
         pw = pw[0 := pw ! 0 XOR temp];
         pw = pw[1 := pw ! 1 XOR pw ! 0];
         prev = uni_of_w pw;
         w = w[i := prev]
     in (w, prev, rcon)))"

text \<open>\<^verbatim>\<open>memcpy(w, key, nk*4)\<close> and the loop; \<open>nk\<close> is even.\<close>

definition openssl_key_expansion :: "byte list \<Rightarrow> 64 word list \<Rightarrow> nat \<Rightarrow> nat \<Rightarrow> 64 word list" where
  "openssl_key_expansion key w nr nk =
    (let w = map (\<lambda>i. u64_of_bytes (take 8 (drop (8 * i) key))) [0..<nk div 2] @ drop (nk div 2) w;
         rcon = u32_of_bytes [1, 0, 0, 0];
         n = nk div 2;
         prev = w ! (n - 1);
         (w, prev, rcon) = fold (key_expansion_step nk) [n..<(nr + 1) * 2] (w, prev, rcon)
     in w)"

text \<open>\<^verbatim>\<open>(uint64_t*)sk->rd_key\<close>: the same memory as an array of 64 bit words.\<close>

definition as_u64 :: "32 word list \<Rightarrow> 64 word list" where
  "as_u64 rd = map (\<lambda>i. uni_of_w [rd ! (2 * i), rd ! (2 * i + 1)]) [0..<length rd div 2]"

definition as_u32 :: "64 word list \<Rightarrow> 32 word list" where
  "as_u32 w = concat (map uni_w w)"

definition muggle_openssl_aes_set_key :: "byte list \<Rightarrow> int \<Rightarrow> aes_subkeys \<Rightarrow> muggle_err \<times> aes_subkeys" where
  "muggle_openssl_aes_set_key key bits sk =
    (if bits = 128 \<or> bits = 192 \<or> bits = 256 then
       let sk = sk\<lparr>rounds := (if bits = 128 then 10 else if bits = 192 then 12 else 14)\<rparr>;
           rk = openssl_key_expansion key (as_u64 (rd_key sk)) (nat (rounds sk)) (nat (bits div 32))
       in (MUGGLE_OK, sk\<lparr>rd_key := as_u32 rk\<rparr>)
     else (MUGGLE_ERR_CRYPT_KEY_SIZE, sk))"

definition muggle_openssl_aes_encrypt :: "byte list \<Rightarrow> aes_subkeys \<Rightarrow> byte list" where
  "muggle_openssl_aes_encrypt input sk = openssl_cipher input (as_u64 (rd_key sk)) (nat (rounds sk))"

definition muggle_openssl_aes_decrypt :: "byte list \<Rightarrow> aes_subkeys \<Rightarrow> byte list" where
  "muggle_openssl_aes_decrypt input sk = openssl_inv_cipher input (as_u64 (rd_key sk)) (nat (rounds sk))"

section \<open>The bytes of the substitution\<close>

text \<open>The same statements on one byte.\<close>

definition sub_u8 :: "byte \<Rightarrow> byte" where
  "sub_u8 w =
    (let x = w;
         y = (drop_bit 1 (x AND 0xFE)) OR (push_bit 7 (x AND 0x01));
         x = x AND 0xDD;
         x = x XOR (y AND 0x57);
         y = (drop_bit 1 (y AND 0xFE)) OR (push_bit 7 (y AND 0x01));
         x = x XOR (y AND 0x1C);
         y = (drop_bit 1 (y AND 0xFE)) OR (push_bit 7 (y AND 0x01));
         x = x XOR (y AND 0x4A);
         y = (drop_bit 1 (y AND 0xFE)) OR (push_bit 7 (y AND 0x01));
         x = x XOR (y AND 0x42);
         y = (drop_bit 1 (y AND 0xFE)) OR (push_bit 7 (y AND 0x01));
         x = x XOR (y AND 0x64);
         y = (drop_bit 1 (y AND 0xFE)) OR (push_bit 7 (y AND 0x01));
         x = x XOR (y AND 0xE0);
         a1 = x;
         a1 = a1 XOR (drop_bit 4 (x AND 0xF0));
         a2 = (drop_bit 2 (x AND 0xCC)) OR (push_bit 2 (x AND 0x33));
         a3 = x AND a1;
         a3 = a3 XOR (drop_bit 1 (a3 AND 0xAA));
         a3 = a3 XOR ((((push_bit 1 x) AND a1) XOR ((push_bit 1 a1) AND x)) AND 0xAA);
         a4 = a2 AND a1;
         a4 = a4 XOR (drop_bit 1 (a4 AND 0xAA));
         a4 = a4 XOR ((((push_bit 1 a2) AND a1) XOR ((push_bit 1 a1) AND a2)) AND 0xAA);
         a5 = drop_bit 2 (a3 AND 0xCC);
         a3 = a3 XOR (((push_bit 2 a4) XOR a4) AND 0xCC);
         a4 = a5 AND 0x22;
         a4 = a4 OR (drop_bit 1 a4);
         a4 = a4 XOR ((push_bit 1 a5) AND 0x22);
         a3 = a3 XOR a4;
         a5 = a3 AND 0xA0;
         a5 = a5 OR (drop_bit 1 a5);
         a5 = a5 XOR ((push_bit 1 a3) AND 0xA0);
         a4 = a5 AND 0xC0;
         a6 = drop_bit 2 a4;
         a4 = a4 XOR ((push_bit 2 a5) AND 0xC0);
         a5 = a6 AND 0x20;
         a5 = a5 OR (drop_bit 1 a5);
         a5 = a5 XOR ((push_bit 1 a6) AND 0x20);
         a4 = a4 OR a5;
         a3 = a3 XOR (drop_bit 4 a4);
         a3 = a3 AND 0x0F;
         a2 = a3;
         a2 = a2 XOR (drop_bit 2 (a3 AND 0x0C));
         a4 = a3 AND a2;
         a4 = a4 XOR (drop_bit 1 (a4 AND 0x0A));
         a4 = a4 XOR ((((push_bit 1 a3) AND a2) XOR ((push_bit 1 a2) AND a3)) AND 0x0A);
         a5 = a4 AND 0x08;
         a5 = a5 OR (drop_bit 1 a5);
         a5 = a5 XOR ((push_bit 1 a4) AND 0x08);
         a4 = a4 XOR (drop_bit 2 a5);
         a4 = a4 AND 0x03;
         a4 = a4 XOR (drop_bit 1 (a4 AND 0x02));
         a4 = a4 OR (push_bit 2 a4);
         a3 = a2 AND a4;
         a3 = a3 XOR (drop_bit 1 (a3 AND 0x0A));
         a3 = a3 XOR ((((push_bit 1 a2) AND a4) XOR ((push_bit 1 a4) AND a2)) AND 0x0A);
         a3 = a3 OR (push_bit 4 a3);
         a2 = (drop_bit 2 (a1 AND 0xCC)) OR (push_bit 2 (a1 AND 0x33));
         x = a1 AND a3;
         x = x XOR (drop_bit 1 (x AND 0xAA));
         x = x XOR ((((push_bit 1 a1) AND a3) XOR ((push_bit 1 a3) AND a1)) AND 0xAA);
         a4 = a2 AND a3;
         a4 = a4 XOR (drop_bit 1 (a4 AND 0xAA));
         a4 = a4 XOR ((((push_bit 1 a2) AND a3) XOR ((push_bit 1 a3) AND a2)) AND 0xAA);
         a5 = drop_bit 2 (x AND 0xCC);
         x = x XOR (((push_bit 2 a4) XOR a4) AND 0xCC);
         a4 = a5 AND 0x22;
         a4 = a4 OR (drop_bit 1 a4);
         a4 = a4 XOR ((push_bit 1 a5) AND 0x22);
         x = x XOR a4;
         y = (drop_bit 1 (x AND 0xFE)) OR (push_bit 7 (x AND 0x01));
         x = x AND 0x39;
         x = x XOR (y AND 0x3F);
         y = (drop_bit 2 (y AND 0xFC)) OR (push_bit 6 (y AND 0x03));
         x = x XOR (y AND 0x97);
         y = (drop_bit 1 (y AND 0xFE)) OR (push_bit 7 (y AND 0x01));
         x = x XOR (y AND 0x9B);
         y = (drop_bit 1 (y AND 0xFE)) OR (push_bit 7 (y AND 0x01));
         x = x XOR (y AND 0x3C);
         y = (drop_bit 1 (y AND 0xFE)) OR (push_bit 7 (y AND 0x01));
         x = x XOR (y AND 0xDD);
         y = (drop_bit 1 (y AND 0xFE)) OR (push_bit 7 (y AND 0x01));
         x = x XOR (y AND 0x72);
         x = x XOR 0x63
     in x)"

definition inv_sub_u8 :: "byte \<Rightarrow> byte" where
  "inv_sub_u8 w =
    (let x = w;
         x = x XOR 0x63;
         y = (drop_bit 1 (x AND 0xFE)) OR (push_bit 7 (x AND 0x01));
         x = x AND 0xFD;
         x = x XOR (y AND 0x5E);
         y = (drop_bit 1 (y AND 0xFE)) OR (push_bit 7 (y AND 0x01));
         x = x XOR (y AND 0xF3);
         y = (drop_bit 1 (y AND 0xFE)) OR (push_bit 7 (y AND 0x01));
         x = x XOR (y AND 0xF5);
         y = (drop_bit 1 (y AND 0xFE)) OR (push_bit 7 (y AND 0x01));
         x = x XOR (y AND 0x78);
         y = (drop_bit 1 (y AND 0xFE)) OR (push_bit 7 (y AND 0x01));
         x = x XOR (y AND 0x77);
         y = (drop_bit 1 (y AND 0xFE)) OR (push_bit 7 (y AND 0x01));
         x = x XOR (y AND 0x15);
         y = (drop_bit 1 (y AND 0xFE)) OR (push_bit 7 (y AND 0x01));
         x = x XOR (y AND 0xA5);
         a1 = x;
         a1 = a1 XOR (drop_bit 4 (x AND 0xF0));
         a2 = (drop_bit 2 (x AND 0xCC)) OR (push_bit 2 (x AND 0x33));
         a3 = x AND a1;
         a3 = a3 XOR (drop_bit 1 (a3 AND 0xAA));
         a3 = a3 XOR ((((push_bit 1 x) AND a1) XOR ((push_bit 1 a1) AND x)) AND 0xAA);
         a4 = a2 AND a1;
         a4 = a4 XOR (drop_bit 1 (a4 AND 0xAA));
         a4 = a4 XOR ((((push_bit 1 a2) AND a1) XOR ((push_bit 1 a1) AND a2)) AND 0xAA);
         a5 = drop_bit 2 (a3 AND 0xCC);
         a3 = a3 XOR (((push_bit 2 a4) XOR a4) AND 0xCC);
         a4 = a5 AND 0x22;
         a4 = a4 OR (drop_bit 1 a4);
         a4 = a4 XOR ((push_bit 1 a5) AND 0x22);
         a3 = a3 XOR a4;
         a5 = a3 AND 0xA0;
         a5 = a5 OR (drop_bit 1 a5);
         a5 = a5 XOR ((push_bit 1 a3) AND 0xA0);
         a4 = a5 AND 0xC0;
         a6 = drop_bit 2 a4;
         a4 = a4 XOR ((push_bit 2 a5) AND 0xC0);
         a5 = a6 AND 0x20;
         a5 = a5 OR (drop_bit 1 a5);
         a5 = a5 XOR ((push_bit 1 a6) AND 0x20);
         a4 = a4 OR a5;
         a3 = a3 XOR (drop_bit 4 a4);
         a3 = a3 AND 0x0F;
         a2 = a3;
         a2 = a2 XOR (drop_bit 2 (a3 AND 0x0C));
         a4 = a3 AND a2;
         a4 = a4 XOR (drop_bit 1 (a4 AND 0x0A));
         a4 = a4 XOR ((((push_bit 1 a3) AND a2) XOR ((push_bit 1 a2) AND a3)) AND 0x0A);
         a5 = a4 AND 0x08;
         a5 = a5 OR (drop_bit 1 a5);
         a5 = a5 XOR ((push_bit 1 a4) AND 0x08);
         a4 = a4 XOR (drop_bit 2 a5);
         a4 = a4 AND 0x03;
         a4 = a4 XOR (drop_bit 1 (a4 AND 0x02));
         a4 = a4 OR (push_bit 2 a4);
         a3 = a2 AND a4;
         a3 = a3 XOR (drop_bit 1 (a3 AND 0x0A));
         a3 = a3 XOR ((((push_bit 1 a2) AND a4) XOR ((push_bit 1 a4) AND a2)) AND 0x0A);
         a3 = a3 OR (push_bit 4 a3);
         a2 = (drop_bit 2 (a1 AND 0xCC)) OR (push_bit 2 (a1 AND 0x33));
         x = a1 AND a3;
         x = x XOR (drop_bit 1 (x AND 0xAA));
         x = x XOR ((((push_bit 1 a1) AND a3) XOR ((push_bit 1 a3) AND a1)) AND 0xAA);
         a4 = a2 AND a3;
         a4 = a4 XOR (drop_bit 1 (a4 AND 0xAA));
         a4 = a4 XOR ((((push_bit 1 a2) AND a3) XOR ((push_bit 1 a3) AND a2)) AND 0xAA);
         a5 = drop_bit 2 (x AND 0xCC);
         x = x XOR (((push_bit 2 a4) XOR a4) AND 0xCC);
         a4 = a5 AND 0x22;
         a4 = a4 OR (drop_bit 1 a4);
         a4 = a4 XOR ((push_bit 1 a5) AND 0x22);
         x = x XOR a4;
         y = (drop_bit 1 (x AND 0xFE)) OR (push_bit 7 (x AND 0x01));
         x = x AND 0xB5;
         x = x XOR (y AND 0x40);
         y = (drop_bit 1 (y AND 0xFE)) OR (push_bit 7 (y AND 0x01));
         x = x XOR (y AND 0x80);
         y = (drop_bit 1 (y AND 0xFE)) OR (push_bit 7 (y AND 0x01));
         x = x XOR (y AND 0x16);
         y = (drop_bit 1 (y AND 0xFE)) OR (push_bit 7 (y AND 0x01));
         x = x XOR (y AND 0xEB);
         y = (drop_bit 1 (y AND 0xFE)) OR (push_bit 7 (y AND 0x01));
         x = x XOR (y AND 0x97);
         y = (drop_bit 1 (y AND 0xFE)) OR (push_bit 7 (y AND 0x01));
         x = x XOR (y AND 0xFB);
         y = (drop_bit 1 (y AND 0xFE)) OR (push_bit 7 (y AND 0x01));
         x = x XOR (y AND 0x7D)
     in x)"

lemma pack_const:
  "pack (\<lambda>i. m) = (u64_of_bytes (replicate 8 m) :: 64 word)" "pack (\<lambda>i. m) = (u32_of_bytes (replicate 4 m) :: 32 word)"
  unfolding u64_of_bytes_pack u32_of_bytes_pack by (rule pack_cong; simp)+

lemma masks_u64:
  "(0x0101010101010101 :: 64 word) = pack (\<lambda>i. 0x01)"
  "(0x0202020202020202 :: 64 word) = pack (\<lambda>i. 0x02)"
  "(0x0303030303030303 :: 64 word) = pack (\<lambda>i. 0x03)"
  "(0x0808080808080808 :: 64 word) = pack (\<lambda>i. 0x08)"
  "(0x0A0A0A0A0A0A0A0A :: 64 word) = pack (\<lambda>i. 0x0A)"
  "(0x0C0C0C0C0C0C0C0C :: 64 word) = pack (\<lambda>i. 0x0C)"
  "(0x0F0F0F0F0F0F0F0F :: 64 word) = pack (\<lambda>i. 0x0F)"
  "(0x1515151515151515 :: 64 word) = pack (\<lambda>i. 0x15)"
  "(0x1616161616161616 :: 64 word) = pack (\<lambda>i. 0x16)"
  "(0x1B1B1B1B1B1B1B1B :: 64 word) = pack (\<lambda>i. 0x1B)"
  "(0x1C1C1C1C1C1C1C1C :: 64 word) = pack (\<lambda>i. 0x1C)"
  "(0x2020202020202020 :: 64 word) = pack (\<lambda>i. 0x20)"
  "(0x2222222222222222 :: 64 word) = pack (\<lambda>i. 0x22)"
  "(0x3333333333333333 :: 64 word) = pack (\<lambda>i. 0x33)"
  "(0x3939393939393939 :: 64 word) = pack (\<lambda>i. 0x39)"
  "(0x3C3C3C3C3C3C3C3C :: 64 word) = pack (\<lambda>i. 0x3C)"
  "(0x3F3F3F3F3F3F3F3F :: 64 word) = pack (\<lambda>i. 0x3F)"
  "(0x4040404040404040 :: 64 word) = pack (\<lambda>i. 0x40)"
  "(0x4242424242424242 :: 64 word) = pack (\<lambda>i. 0x42)"
  "(0x4A4A4A4A4A4A4A4A :: 64 word) = pack (\<lambda>i. 0x4A)"
  "(0x5757575757575757 :: 64 word) = pack (\<lambda>i. 0x57)"
  "(0x5E5E5E5E5E5E5E5E :: 64 word) = pack (\<lambda>i. 0x5E)"
  "(0x6363636363636363 :: 64 word) = pack (\<lambda>i. 0x63)"
  "(0x6464646464646464 :: 64 word) = pack (\<lambda>i. 0x64)"
  "(0x7272727272727272 :: 64 word) = pack (\<lambda>i. 0x72)"
  "(0x7777777777777777 :: 64 word) = pack (\<lambda>i. 0x77)"
  "(0x7878787878787878 :: 64 word) = pack (\<lambda>i. 0x78)"
  "(0x7D7D7D7D7D7D7D7D :: 64 word) = pack (\<lambda>i. 0x7D)"
  "(0x8080808080808080 :: 64 word) = pack (\<lambda>i. 0x80)"
  "(0x9797979797979797 :: 64 word) = pack (\<lambda>i. 0x97)"
  "(0x9B9B9B9B9B9B9B9B :: 64 word) = pack (\<lambda>i. 0x9B)"
  "(0xA0A0A0A0A0A0A0A0 :: 64 word) = pack (\<lambda>i. 0xA0)"
  "(0xA5A5A5A5A5A5A5A5 :: 64 word) = pack (\<lambda>i. 0xA5)"
  "(0xAAAAAAAAAAAAAAAA :: 64 word) = pack (\<lambda>i. 0xAA)"
  "(0xB5B5B5B5B5B5B5B5 :: 64 word) = pack (\<lambda>i. 0xB5)"
  "(0xC0C0C0C0C0C0C0C0 :: 64 word) = pack (\<lambda>i. 0xC0)"
  "(0xCCCCCCCCCCCCCCCC :: 64 word) = pack (\<lambda>i. 0xCC)"
  "(0xDDDDDDDDDDDDDDDD :: 64 word) = pack (\<lambda>i. 0xDD)"
  "(0xE0E0E0E0E0E0E0E0 :: 64 word) = pack (\<lambda>i. 0xE0)"
  "(0xEBEBEBEBEBEBEBEB :: 64 word) = pack (\<lambda>i. 0xEB)"
  "(0xF0F0F0F0F0F0F0F0 :: 64 word) = pack (\<lambda>i. 0xF0)"
  "(0xF3F3F3F3F3F3F3F3 :: 64 word) = pack (\<lambda>i. 0xF3)"
  "(0xF5F5F5F5F5F5F5F5 :: 64 word) = pack (\<lambda>i. 0xF5)"
  "(0xFBFBFBFBFBFBFBFB :: 64 word) = pack (\<lambda>i. 0xFB)"
  "(0xFCFCFCFCFCFCFCFC :: 64 word) = pack (\<lambda>i. 0xFC)"
  "(0xFDFDFDFDFDFDFDFD :: 64 word) = pack (\<lambda>i. 0xFD)"
  "(0xFEFEFEFEFEFEFEFE :: 64 word) = pack (\<lambda>i. 0xFE)"
  by (simp_all only: pack_const u64_of_bytes_def) (simp_all add: upto_16)

lemma masks_u32:
  "(0x01010101 :: 32 word) = pack (\<lambda>i. 0x01)"
  "(0x02020202 :: 32 word) = pack (\<lambda>i. 0x02)"
  "(0x03030303 :: 32 word) = pack (\<lambda>i. 0x03)"
  "(0x08080808 :: 32 word) = pack (\<lambda>i. 0x08)"
  "(0x0A0A0A0A :: 32 word) = pack (\<lambda>i. 0x0A)"
  "(0x0A0A0A0A0A :: 32 word) = pack (\<lambda>i. 0x0A)"
  "(0x0C0C0C0C :: 32 word) = pack (\<lambda>i. 0x0C)"
  "(0x0F0F0F0F :: 32 word) = pack (\<lambda>i. 0x0F)"
  "(0x1B1B1B1B :: 32 word) = pack (\<lambda>i. 0x1B)"
  "(0x1C1C1C1C :: 32 word) = pack (\<lambda>i. 0x1C)"
  "(0x20202020 :: 32 word) = pack (\<lambda>i. 0x20)"
  "(0x22222222 :: 32 word) = pack (\<lambda>i. 0x22)"
  "(0x33333333 :: 32 word) = pack (\<lambda>i. 0x33)"
  "(0x39393939 :: 32 word) = pack (\<lambda>i. 0x39)"
  "(0x3C3C3C3C :: 32 word) = pack (\<lambda>i. 0x3C)"
  "(0x3F3F3F3F :: 32 word) = pack (\<lambda>i. 0x3F)"
  "(0x42424242 :: 32 word) = pack (\<lambda>i. 0x42)"
  "(0x4A4A4A4A :: 32 word) = pack (\<lambda>i. 0x4A)"
  "(0x57575757 :: 32 word) = pack (\<lambda>i. 0x57)"
  "(0x63636363 :: 32 word) = pack (\<lambda>i. 0x63)"
  "(0x64646464 :: 32 word) = pack (\<lambda>i. 0x64)"
  "(0x72727272 :: 32 word) = pack (\<lambda>i. 0x72)"
  "(0x80808080 :: 32 word) = pack (\<lambda>i. 0x80)"
  "(0x97979797 :: 32 word) = pack (\<lambda>i. 0x97)"
  "(0x9B9B9B9B :: 32 word) = pack (\<lambda>i. 0x9B)"
  "(0xA0A0A0A0 :: 32 word) = pack (\<lambda>i. 0xA0)"
  "(0xAAAAAAAA :: 32 word) = pack (\<lambda>i. 0xAA)"
  "(0xC0C0C0C0 :: 32 word) = pack (\<lambda>i. 0xC0)"
  "(0xCCCCCCCC :: 32 word) = pack (\<lambda>i. 0xCC)"
  "(0xDDDDDDDD :: 32 word) = pack (\<lambda>i. 0xDD)"
  "(0xE0E0E0E0 :: 32 word) = pack (\<lambda>i. 0xE0)"
  "(0xF0F0F0F0 :: 32 word) = pack (\<lambda>i. 0xF0)"
  "(0xFCFCFCFC :: 32 word) = pack (\<lambda>i. 0xFC)"
  "(0xFEFEFEFE :: 32 word) = pack (\<lambda>i. 0xFE)"
  by (simp_all only: pack_const u32_of_bytes_def) (simp_all add: upto_16)

section \<open>The same work on every byte\<close>

lemmas lane_rules = pack_agree pack_and pack_or pack_xor pack_drop pack_push pack_var
  agree_and agree_xor agree_push agree_pack
lemmas rng_rules = rng_and rng_and_left rng_or rng_xor rng_drop rng_push rng_top

lemma sub_u64_pack: "openssl_sub_u64 (pack b) = pack (\<lambda>i. sub_u8 (b i))"
  unfolding openssl_sub_u64_def sub_u8_def
  by (rule pack_let, ((assumption | rule masks_u64 lane_rules rng_rules | simp (no_asm))+)[1], ((assumption | rule rng_rules)+)[1])+ (rule pack_var)

lemma inv_sub_u64_pack: "openssl_inv_sub_u64 (pack b) = pack (\<lambda>i. inv_sub_u8 (b i))"
  unfolding openssl_inv_sub_u64_def inv_sub_u8_def
  by (rule pack_let, ((assumption | rule masks_u64 lane_rules rng_rules | simp (no_asm))+)[1], ((assumption | rule rng_rules)+)[1])+ (rule pack_var)

lemma sub_u32_pack: "openssl_sub_u32 (pack b) = pack (\<lambda>i. sub_u8 (b i))"
  unfolding openssl_sub_u32_def sub_u8_def
  by (rule pack_let, ((assumption | rule masks_u32 lane_rules rng_rules | simp (no_asm))+)[1], ((assumption | rule rng_rules)+)[1])+ (rule pack_var)

section \<open>The substitution is the table\<close>

lemma all_bytes: "map of_nat [0..<256] =
   ([0, 1, 2, 3, 4, 5, 6, 7, 8, 9, 10, 11, 12, 13, 14, 15, 16, 17, 18, 19, 20, 21, 22, 23, 24, 25, 26, 27, 28, 29, 30, 31,
    32, 33, 34, 35, 36, 37, 38, 39, 40, 41, 42, 43, 44, 45, 46, 47, 48, 49, 50, 51, 52, 53, 54, 55, 56, 57, 58, 59, 60, 61, 62, 63,
    64, 65, 66, 67, 68, 69, 70, 71, 72, 73, 74, 75, 76, 77, 78, 79, 80, 81, 82, 83, 84, 85, 86, 87, 88, 89, 90, 91, 92, 93, 94, 95,
    96, 97, 98, 99, 100, 101, 102, 103, 104, 105, 106, 107, 108, 109, 110, 111, 112, 113, 114, 115, 116, 117, 118, 119, 120, 121, 122, 123, 124, 125, 126, 127,
    128, 129, 130, 131, 132, 133, 134, 135, 136, 137, 138, 139, 140, 141, 142, 143, 144, 145, 146, 147, 148, 149, 150, 151, 152, 153, 154, 155, 156, 157, 158, 159,
    160, 161, 162, 163, 164, 165, 166, 167, 168, 169, 170, 171, 172, 173, 174, 175, 176, 177, 178, 179, 180, 181, 182, 183, 184, 185, 186, 187, 188, 189, 190, 191,
    192, 193, 194, 195, 196, 197, 198, 199, 200, 201, 202, 203, 204, 205, 206, 207, 208, 209, 210, 211, 212, 213, 214, 215, 216, 217, 218, 219, 220, 221, 222, 223,
    224, 225, 226, 227, 228, 229, 230, 231, 232, 233, 234, 235, 236, 237, 238, 239, 240, 241, 242, 243, 244, 245, 246, 247, 248, 249, 250, 251, 252, 253, 254, 255] :: byte list)"
  by (simp add: upt_conv_Cons del: upt_Suc)

lemma sub_u8_table: "map sub_u8 (map of_nat [0..<256]) = s_muggle_aes_sbox"
  unfolding all_bytes s_muggle_aes_sbox_def by (simp add: sub_u8_def cong: let_weak_cong)

lemma inv_sub_u8_table: "map inv_sub_u8 (map of_nat [0..<256]) = s_muggle_aes_inv_sbox"
  unfolding all_bytes s_muggle_aes_inv_sbox_def by (simp add: inv_sub_u8_def cong: let_weak_cong)

end
