(* ===== verification/Aes.thy ===== *)
theory Aes
  imports Aes_Openssl
begin

text \<open>
  The AES interface of \<^verbatim>\<open>crypt/aes.c\<close>: setting up a key, the block function, and the five modes. \<open>opt\<close> stands for
  \<^verbatim>\<open>MUGGLE_CRYPT_OPTIMIZATION\<close>, which selects \<^verbatim>\<open>openssl_aes.c\<close> (the default) or \<^verbatim>\<open>internal_aes.c\<close>. A buffer argument is a
  pointer to its bytes; the buffers a function writes are returned. \<^verbatim>\<open>MUGGLE_ASSERT_MSG\<close> is that of the release build, where it
  is empty: the two branches that contain it (the invalid operation in \<open>muggle_aes_crypt\<close>, the invalid key size in
  \<open>muggle_aes_set_key\<close>) go on and return their error; in the debug build they end with a fatal log entry instead.
\<close>

section \<open>Keys\<close>

record aes_context =
  ctx_op :: int
  ctx_mode :: int
  ctx_sk :: aes_subkeys

text \<open>One pass of the second loop of \<open>muggle_aes_set_key\<close>.\<close>

definition aes_expand_temp :: "nat \<Rightarrow> nat \<Rightarrow> 32 word \<Rightarrow> 32 word" where
  "aes_expand_temp Nk i temp =
    (if i mod Nk = 0 then
       let temp = muggle_aes_rot_word temp;
           temp = muggle_aes_sub_word temp
       in temp XOR s_aes_rcon ! ((i - 1) div Nk)
     else if Nk > 6 \<and> i mod Nk = 4 then muggle_aes_sub_word temp
     else temp)"

definition aes_expand_step :: "nat \<Rightarrow> nat \<Rightarrow> 32 word list \<Rightarrow> 32 word list" where
  "aes_expand_step Nk i rd =
    (let temp = rd ! (i - 1);
         temp = aes_expand_temp Nk i temp
     in rd[i := rd ! (i - Nk) XOR temp])"

definition aes_expand_key :: "byte list \<Rightarrow> nat \<Rightarrow> nat \<Rightarrow> 32 word list \<Rightarrow> 32 word list" where
  "aes_expand_key key Nr Nk rd =
    (let Nb = 4;
         rd = fold (\<lambda>i rd. rd[i :=
           push_bit 24 (ucast (key ! (4 * i + 0))) OR
           push_bit 16 (ucast (key ! (4 * i + 1))) OR
           push_bit 8 (ucast (key ! (4 * i + 2))) OR
           ucast (key ! (4 * i + 3))]) [0..<Nk] rd
     in fold (aes_expand_step Nk) [Nk..<Nb * (Nr + 1)] rd)"

definition muggle_aes_set_key ::
    "bool \<Rightarrow> int \<Rightarrow> int \<Rightarrow> byte list ptr \<Rightarrow> int \<Rightarrow> aes_context ptr \<Rightarrow> muggle_err \<times> aes_context ptr" where
  "muggle_aes_set_key opt op mode key bits ctx =
    (if \<not> (op = MUGGLE_ENCRYPT \<or> op = MUGGLE_DECRYPT) then (MUGGLE_ERR_INVALID_PARAM, ctx)
     else if \<not> (mode \<ge> MUGGLE_BLOCK_CIPHER_MODE_ECB \<and> mode < MAX_MUGGLE_BLOCK_CIPHER_MODE) then (MUGGLE_ERR_INVALID_PARAM, ctx)
     else case key of None \<Rightarrow> (MUGGLE_ERR_NULL_PARAM, ctx)
     | Some key \<Rightarrow> (case ctx of None \<Rightarrow> (MUGGLE_ERR_NULL_PARAM, ctx)
     | Some ctx \<Rightarrow>
        let ctx = ctx\<lparr>ctx_op := op, ctx_mode := mode\<rparr> in
        if opt then
          (let (ret, sk) = muggle_openssl_aes_set_key key bits (ctx_sk ctx)
           in (ret, Some (ctx\<lparr>ctx_sk := sk\<rparr>)))
        else if bits \<noteq> 128 \<and> bits \<noteq> 192 \<and> bits \<noteq> 256 then (MUGGLE_ERR_CRYPT_KEY_SIZE, Some ctx)
        else
          (let Nr = (if bits = 128 then 10 else if bits = 192 then 12 else 14);
               Nk = (if bits = 128 then 4 else if bits = 192 then 6 else 8);
               sk = (ctx_sk ctx)\<lparr>rounds := int Nr\<rparr>;
               sk = sk\<lparr>rd_key := aes_expand_key key Nr Nk (rd_key sk)\<rparr>
           in (MUGGLE_OK, Some (ctx\<lparr>ctx_sk := sk\<rparr>)))))"

section \<open>Blocks\<close>

text \<open>\<^verbatim>\<open>internal_aes.c\<close> keeps the state by rows: \<open>muggle_aes_crypt\<close> transposes the block before and after.\<close>

definition aes_transpose :: "byte list \<Rightarrow> byte list" where
  "aes_transpose s =
    [s ! 0, s ! 4, s ! 8, s ! 12,
     s ! 1, s ! 5, s ! 9, s ! 13,
     s ! 2, s ! 6, s ! 10, s ! 14,
     s ! 3, s ! 7, s ! 11, s ! 15]"

definition muggle_aes_crypt :: "bool \<Rightarrow> int \<Rightarrow> byte list \<Rightarrow> aes_subkeys \<Rightarrow> byte list \<Rightarrow> muggle_err \<times> byte list" where
  "muggle_aes_crypt opt op input sk output =
    (if opt then
       if \<not> (op = MUGGLE_ENCRYPT \<or> op = MUGGLE_DECRYPT) then (MUGGLE_ERR_INVALID_PARAM, output)
       else if op = MUGGLE_ENCRYPT then (MUGGLE_OK, muggle_openssl_aes_encrypt input sk)
       else (MUGGLE_OK, muggle_openssl_aes_decrypt input sk)
     else
       let state = aes_transpose input;
           (ret, state) =
             (if op = MUGGLE_ENCRYPT then muggle_aes_encrypt state sk
              else if op = MUGGLE_DECRYPT then muggle_aes_decrypt state sk
              else (MUGGLE_ERR_INVALID_PARAM, state))
       in (ret, aes_transpose state))"

text \<open>What a mode sees of it: the bytes it leaves in the output block.\<close>

definition aes_block :: "bool \<Rightarrow> int \<Rightarrow> aes_subkeys \<Rightarrow> byte list \<Rightarrow> byte list \<Rightarrow> byte list" where
  "aes_block opt op sk input output = snd (muggle_aes_crypt opt op input sk output)"

section \<open>Modes\<close>

definition muggle_aes_ecb ::
    "bool \<Rightarrow> aes_context ptr \<Rightarrow> byte list ptr \<Rightarrow> 32 word \<Rightarrow> byte list ptr \<Rightarrow> muggle_err \<times> byte list ptr" where
  "muggle_aes_ecb opt ctx input num_bytes output =
    (case ctx of None \<Rightarrow> (MUGGLE_ERR_NULL_PARAM, output)
     | Some ctx \<Rightarrow>
     if ctx_mode ctx \<noteq> MUGGLE_BLOCK_CIPHER_MODE_ECB then (MUGGLE_ERR_INVALID_PARAM, output)
     else case input of None \<Rightarrow> (MUGGLE_ERR_NULL_PARAM, output)
     | Some input \<Rightarrow>
     if ROUND_UP_POW_OF_2_MUL num_bytes 16 \<noteq> num_bytes then (MUGGLE_ERR_INVALID_PARAM, output)
     else case output of None \<Rightarrow> (MUGGLE_ERR_NULL_PARAM, output)
     | Some out \<Rightarrow>
       (let len = unat num_bytes div 16
        in (MUGGLE_OK, Some (ecb_blocks (aes_block opt (ctx_op ctx) (ctx_sk ctx)) 16 len input out))))"

definition muggle_aes_cbc ::
    "bool \<Rightarrow> aes_context ptr \<Rightarrow> byte list ptr \<Rightarrow> 32 word \<Rightarrow> byte list ptr \<Rightarrow> byte list ptr \<Rightarrow>
      muggle_err \<times> byte list ptr \<times> byte list ptr" where
  "muggle_aes_cbc opt ctx input num_bytes iv output =
    (case ctx of None \<Rightarrow> (MUGGLE_ERR_NULL_PARAM, iv, output)
     | Some ctx \<Rightarrow>
     if ctx_mode ctx \<noteq> MUGGLE_BLOCK_CIPHER_MODE_CBC then (MUGGLE_ERR_INVALID_PARAM, iv, output)
     else case input of None \<Rightarrow> (MUGGLE_ERR_NULL_PARAM, iv, output)
     | Some input \<Rightarrow>
     if ROUND_UP_POW_OF_2_MUL num_bytes 16 \<noteq> num_bytes then (MUGGLE_ERR_INVALID_PARAM, iv, output)
     else case iv of None \<Rightarrow> (MUGGLE_ERR_NULL_PARAM, iv, output)
     | Some v \<Rightarrow> (case output of None \<Rightarrow> (MUGGLE_ERR_NULL_PARAM, iv, output)
     | Some out \<Rightarrow>
     let len = unat num_bytes div 16; op = ctx_op ctx in
     if \<not> (op = MUGGLE_ENCRYPT \<or> op = MUGGLE_DECRYPT) then (MUGGLE_ERR_INVALID_PARAM, iv, output)
     else
       let (v, out) = cbc_blocks (aes_block opt op (ctx_sk ctx)) 16 (op = MUGGLE_ENCRYPT) len v input out
       in (MUGGLE_OK, Some v, Some out)))"

text \<open>The byte-wise modes only encrypt, in place on \<open>iv\<close> or into the stream block. \<^verbatim>\<open>iv_offset\<close> is dereferenced without a
  check; the outer \<open>None\<close> is the access through a NULL pointer.\<close>

definition muggle_aes_cfb128 ::
    "bool \<Rightarrow> aes_context ptr \<Rightarrow> byte list ptr \<Rightarrow> 32 word \<Rightarrow> byte list ptr \<Rightarrow> 32 word ptr \<Rightarrow> byte list ptr \<Rightarrow>
      (muggle_err \<times> byte list ptr \<times> 32 word ptr \<times> byte list ptr) option" where
  "muggle_aes_cfb128 opt ctx input num_bytes iv iv_offset output =
    (case ctx of None \<Rightarrow> Some (MUGGLE_ERR_NULL_PARAM, iv, iv_offset, output)
     | Some ctx \<Rightarrow>
     if ctx_mode ctx \<noteq> MUGGLE_BLOCK_CIPHER_MODE_CFB then Some (MUGGLE_ERR_INVALID_PARAM, iv, iv_offset, output)
     else case input of None \<Rightarrow> Some (MUGGLE_ERR_NULL_PARAM, iv, iv_offset, output)
     | Some input \<Rightarrow> (case iv of None \<Rightarrow> Some (MUGGLE_ERR_NULL_PARAM, iv, iv_offset, output)
     | Some v \<Rightarrow> (case iv_offset of None \<Rightarrow> None
     | Some ivoff \<Rightarrow>
     if \<not> ivoff < 16 then Some (MUGGLE_ERR_INVALID_PARAM, iv, iv_offset, output)
     else case output of None \<Rightarrow> Some (MUGGLE_ERR_NULL_PARAM, iv, iv_offset, output)
     | Some out \<Rightarrow>
     let op = ctx_op ctx in
     if \<not> (op = MUGGLE_ENCRYPT \<or> op = MUGGLE_DECRYPT) then Some (MUGGLE_ERR_INVALID_PARAM, iv, iv_offset, output)
     else
       let n = unat num_bytes;
           (v, offset, bytes) = cfb_bytes (\<lambda>iv. aes_block opt MUGGLE_ENCRYPT (ctx_sk ctx) iv iv) 0x0f (op = MUGGLE_ENCRYPT)
             v (unat ivoff) (take n input)
       in Some (MUGGLE_OK, Some v, Some (of_nat offset), Some (bytes @ drop n out)))))"

definition muggle_aes_ofb128 ::
    "bool \<Rightarrow> aes_context ptr \<Rightarrow> byte list ptr \<Rightarrow> 32 word \<Rightarrow> byte list ptr \<Rightarrow> 32 word ptr \<Rightarrow> byte list ptr \<Rightarrow>
      (muggle_err \<times> byte list ptr \<times> 32 word ptr \<times> byte list ptr) option" where
  "muggle_aes_ofb128 opt ctx input num_bytes iv iv_offset output =
    (case ctx of None \<Rightarrow> Some (MUGGLE_ERR_NULL_PARAM, iv, iv_offset, output)
     | Some ctx \<Rightarrow>
     if ctx_mode ctx \<noteq> MUGGLE_BLOCK_CIPHER_MODE_OFB then Some (MUGGLE_ERR_INVALID_PARAM, iv, iv_offset, output)
     else case input of None \<Rightarrow> Some (MUGGLE_ERR_NULL_PARAM, iv, iv_offset, output)
     | Some input \<Rightarrow> (case iv of None \<Rightarrow> Some (MUGGLE_ERR_NULL_PARAM, iv, iv_offset, output)
     | Some v \<Rightarrow> (case iv_offset of None \<Rightarrow> None
     | Some ivoff \<Rightarrow>
     if \<not> ivoff < 16 then Some (MUGGLE_ERR_INVALID_PARAM, iv, iv_offset, output)
     else case output of None \<Rightarrow> Some (MUGGLE_ERR_NULL_PARAM, iv, iv_offset, output)
     | Some out \<Rightarrow>
     let op = ctx_op ctx in
     if \<not> (op = MUGGLE_ENCRYPT \<or> op = MUGGLE_DECRYPT) then Some (MUGGLE_ERR_INVALID_PARAM, iv, iv_offset, output)
     else
       let n = unat num_bytes;
           (v, offset, bytes) = ofb_bytes (\<lambda>iv. aes_block opt MUGGLE_ENCRYPT (ctx_sk ctx) iv iv) 0x0f v (unat ivoff) (take n input)
       in Some (MUGGLE_OK, Some v, Some (of_nat offset), Some (bytes @ drop n out)))))"

text \<open>The 128 bit counter: \<open>nonce[0]\<close> is the low half. The pointer \<^verbatim>\<open>nonce\<close> is not checked either; it is dereferenced when
  the loop comes to an offset of 0.\<close>

definition aes_nonce_next :: "64 word \<times> 64 word \<Rightarrow> 64 word \<times> 64 word" where
  "aes_nonce_next = (\<lambda>(n0, n1). let n0 = n0 + 1 in (n0, if n0 = 0 then n1 + 1 else n1))"

definition aes_nonce_bytes :: "64 word \<times> 64 word \<Rightarrow> byte list" where
  "aes_nonce_bytes = (\<lambda>(n0, n1). bytes_of_u64 n0 @ bytes_of_u64 n1)"

text \<open>Whether the loop over \<open>n\<close> bytes comes to an offset of 0.\<close>

fun aes_ctr_steps :: "nat \<Rightarrow> nat \<Rightarrow> bool" where
  "aes_ctr_steps offset 0 = False"
| "aes_ctr_steps offset (Suc n) = (offset = 0 \<or> aes_ctr_steps ((offset + 1) AND 0x0f) n)"

definition muggle_aes_ctr ::
    "bool \<Rightarrow> aes_context ptr \<Rightarrow> byte list ptr \<Rightarrow> 32 word \<Rightarrow> (64 word \<times> 64 word) ptr \<Rightarrow> 32 word ptr \<Rightarrow> byte list ptr \<Rightarrow> byte list ptr \<Rightarrow>
      (muggle_err \<times> (64 word \<times> 64 word) ptr \<times> 32 word ptr \<times> byte list ptr \<times> byte list ptr) option" where
  "muggle_aes_ctr opt ctx input num_bytes nonce nonce_offset stream_block output =
    (case ctx of None \<Rightarrow> Some (MUGGLE_ERR_NULL_PARAM, nonce, nonce_offset, stream_block, output)
     | Some ctx \<Rightarrow>
     if ctx_mode ctx \<noteq> MUGGLE_BLOCK_CIPHER_MODE_CTR then Some (MUGGLE_ERR_INVALID_PARAM, nonce, nonce_offset, stream_block, output)
     else case input of None \<Rightarrow> Some (MUGGLE_ERR_NULL_PARAM, nonce, nonce_offset, stream_block, output)
     | Some input \<Rightarrow> (case nonce_offset of None \<Rightarrow> Some (MUGGLE_ERR_NULL_PARAM, nonce, nonce_offset, stream_block, output)
     | Some noff \<Rightarrow>
     if \<not> noff < 16 then Some (MUGGLE_ERR_INVALID_PARAM, nonce, nonce_offset, stream_block, output)
     else case stream_block of None \<Rightarrow> Some (MUGGLE_ERR_NULL_PARAM, nonce, nonce_offset, stream_block, output)
     | Some sb \<Rightarrow> (case output of None \<Rightarrow> Some (MUGGLE_ERR_NULL_PARAM, nonce, nonce_offset, stream_block, output)
     | Some out \<Rightarrow>
     let op = ctx_op ctx in
     if \<not> (op = MUGGLE_ENCRYPT \<or> op = MUGGLE_DECRYPT) then
       Some (MUGGLE_ERR_INVALID_PARAM, nonce, nonce_offset, stream_block, output)
     else
       let n = unat num_bytes in
       if nonce = None \<and> aes_ctr_steps (unat noff) n then None
       else
         let (nonce, offset, sb, bytes) = ctr_bytes (\<lambda>b. aes_block opt MUGGLE_ENCRYPT (ctx_sk ctx) b sb)
               (map_option aes_nonce_next) (\<lambda>nonce. aes_nonce_bytes (the nonce)) 0x0f nonce (unat noff) sb (take n input)
         in Some (MUGGLE_OK, nonce, Some (of_nat offset), Some sb, Some (bytes @ drop n out)))))"

end
