(* ===== verification/Aes_Equiv.thy ===== *)
theory Aes_Equiv
  imports Aes
begin

text \<open>
  The AES of \<^verbatim>\<open>openssl_aes.c\<close> is the AES of \<^verbatim>\<open>internal_aes.c\<close>: the constant-time arithmetic on words of bytes computes the
  steps of FIPS-197 on a state kept by columns, and the key schedule on 64 bit words stores the bytes of the key schedule
  on 32 bit words.
\<close>

section \<open>Doubling every byte\<close>

lemma pack_add:
  assumes "x = pack b" "y = pack c" "rng m b" "rng n c" "m AND n = 0"
  shows "x + y = pack (\<lambda>i. b i OR c i)"
proof -
  have "\<not> bit x k \<or> \<not> bit y k" for k
  proof (rule ccontr)
    assume "\<not> (\<not> bit x k \<or> \<not> bit y k)"
    then have "bit m (k mod 8)" "bit n (k mod 8)" using assms by (auto simp: bit_pack rng_def)
    then have "bit (m AND n) (k mod 8)" by (simp add: bit_and_iff)
    then show False using assms(5) by simp
  qed
  then have "x + y = x OR y" by (rule disjunctive_add)
  then show ?thesis using assms(1,2) by (simp add: pack_or)
qed

definition top_bit :: "byte \<Rightarrow> byte" where
  "top_bit b = (if bit b 7 then 1 else 0)"

lemma rng_top_bit: "rng 1 (\<lambda>i. top_bit (b i))"
  by (auto simp: rng_def top_bit_def)

lemma bit_0x80: "bit (0x80 :: byte) n = (n = 7)"
proof -
  have "bit (0x80 :: byte) n = bit (2 ^ 7 :: byte) n" by simp
  then show ?thesis by (simp only: bit_exp_iff) auto
qed

lemma bit_0x7f: "bit (0x7f :: byte) n = (n < 7)"
proof -
  have "bit (0x7f :: byte) n = bit (mask 7 :: byte) n" by (simp add: mask_eq_exp_minus_1)
  then show ?thesis by (simp only: bit_mask_iff) auto
qed

lemma byte_top: "b AND 0x80 = push_bit 7 (top_bit b)"
  by (rule bit_word_eqI, rename_tac n, case_tac "n = 7") (auto simp: top_bit_def bit_and_iff bit_0x80 bit_push_bit_iff simp del: bit_numeral_word_iff)

lemma drop_top: "drop_bit 7 (push_bit 7 (top_bit b)) = top_bit b"
  by (simp add: top_bit_def)

lemma times_127:
  "push_bit 7 (pack (\<lambda>i. top_bit (b i))) - pack (\<lambda>i. top_bit (b i)) = (pack (\<lambda>i. if bit (b i) 7 then 0x7f else 0) :: 'a::len word)"
proof -
  let ?s = "pack (\<lambda>i. top_bit (b i)) :: 'a word"
  have "push_bit 7 ?s - ?s = push_bit 6 ?s + (push_bit 5 ?s + (push_bit 4 ?s + (push_bit 3 ?s + (push_bit 2 ?s + (push_bit 1 ?s + ?s)))))"
    by (simp add: push_bit_eq_mult algebra_simps)
  also have "\<dots> = pack (\<lambda>i. push_bit 6 (top_bit (b i)) OR (push_bit 5 (top_bit (b i)) OR (push_bit 4 (top_bit (b i)) OR
      (push_bit 3 (top_bit (b i)) OR (push_bit 2 (top_bit (b i)) OR (push_bit 1 (top_bit (b i)) OR top_bit (b i)))))))"
    by (assumption | rule pack_add pack_push pack_var rng_or rng_push rng_top_bit | simp (no_asm))+
  also have "\<dots> = pack (\<lambda>i. if bit (b i) 7 then 0x7f else 0)"
    by (rule arg_cong[of _ _ pack]) (auto simp: top_bit_def)
  finally show ?thesis .
qed

lemma xtime_byte: "((if bit b 7 then 0x7f else 0) AND 0x1B) XOR push_bit 1 (b XOR (b AND 0x80)) = xt b"
proof -
  have "push_bit 1 (b AND 0x80) = 0" unfolding byte_top by (auto simp: top_bit_def)
  then have "push_bit 1 (b XOR (b AND 0x80)) = push_bit 1 b" by (simp add: push_bit_xor)
  then show ?thesis by (simp add: xt_def xor.commute)
qed

lemma xtime_pack:
  assumes "m80 = pack (\<lambda>i. 0x80)" "m1b = pack (\<lambda>i. 0x1B)" "8 dvd LENGTH('a)"
  shows "((pack b AND m80) - drop_bit 7 (pack b AND m80) AND m1b) XOR push_bit 1 (pack b XOR (pack b AND m80)) =
    (pack (\<lambda>i. xt (b i)) :: 'a::len word)"
proof -
  have B: "pack b AND m80 = pack (\<lambda>i. push_bit 7 (top_bit (b i)))" unfolding assms(1) by (subst pack_and[OF refl refl]) (simp only: byte_top)
  have S: "push_bit 7 (pack (\<lambda>i. top_bit (b i))) = (pack (\<lambda>i. push_bit 7 (top_bit (b i))) :: 'a word)"
    by (rule pack_push[OF refl rng_top_bit]) simp_all
  have D: "drop_bit 7 (pack (\<lambda>i. push_bit 7 (top_bit (b i)))) = (pack (\<lambda>i. top_bit (b i)) :: 'a word)"
    using pack_drop[OF refl rng_push[OF rng_top_bit, of 7], of 7, where 'a = 'a, of b] assms(3) by (simp add: drop_top)
  have "rng 0x7f (\<lambda>i. b i XOR (b i AND 0x80))"
    unfolding rng_def by (auto simp: bit_xor_iff bit_and_iff bit_0x80 bit_0x7f dest: bit_byte_less simp del: bit_numeral_word_iff)
  then have P: "push_bit 1 (pack (\<lambda>i. b i XOR (b i AND 0x80))) = (pack (\<lambda>i. push_bit 1 (b i XOR (b i AND 0x80))) :: 'a word)"
    by (rule pack_push[OF refl]) simp_all
  show ?thesis
    unfolding B D unfolding S[symmetric] times_127
    unfolding assms(2) pack_and[OF refl refl] S unfolding byte_top[symmetric] pack_xor[OF refl refl] P
    by (simp only: pack_xor[OF refl refl] xtime_byte)
qed

lemma xtime_u64_pack: "openssl_xtime_u64 (pack b) = pack (\<lambda>i. xt (b i))"
  unfolding openssl_xtime_u64_def Let_def by (rule xtime_pack) (simp_all only: masks_u64, simp)

lemma xtime_u32_pack: "openssl_xtime_u32 (pack b) = pack (\<lambda>i. xt (b i))"
  unfolding openssl_xtime_u32_def Let_def by (rule xtime_pack) (simp_all only: masks_u32, simp)

section \<open>Moving bytes\<close>

lemma pack_drop_bytes:
  assumes "8 dvd LENGTH('a)"
  shows "drop_bit (8 * k) (pack b) = (pack (\<lambda>i. if 8 * (i + k) < LENGTH('a) then b (i + k) else 0) :: 'a::len word)"
proof (rule bit_word_eqI)
  fix n assume n: "n < LENGTH('a)"
  obtain l where l: "LENGTH('a) = 8 * l" using assms unfolding dvd_def by blast
  have e: "(8 * k + n) div 8 = n div 8 + k" "(8 * k + n) mod 8 = n mod 8" by simp_all
  have "8 * k + n < LENGTH('a) \<longleftrightarrow> (8 * k + n) div 8 < l" unfolding l by auto
  then have "8 * k + n < LENGTH('a) \<longleftrightarrow> 8 * (n div 8 + k) < LENGTH('a)" by (simp only: e(1) l nat_mult_less_cancel_disj) simp
  then show "bit (drop_bit (8 * k) (pack b) :: 'a word) n =
      bit (pack (\<lambda>i. if 8 * (i + k) < LENGTH('a) then b (i + k) else 0) :: 'a word) n"
    using n by (simp add: bit_drop_bit_eq bit_pack e)
qed

lemma pack_push_bytes: "push_bit (8 * k) (pack b) = (pack (\<lambda>i. if k \<le> i then b (i - k) else 0) :: 'a::len word)"
proof (rule bit_word_eqI)
  fix n assume n: "n < LENGTH('a)"
  show "bit (push_bit (8 * k) (pack b) :: 'a word) n = bit (pack (\<lambda>i. if k \<le> i then b (i - k) else 0) :: 'a word) n"
  proof (cases "8 * k \<le> n")
    case True
    then obtain m where m: "n = 8 * k + m" by (auto simp: le_iff_add)
    then show ?thesis using n by (simp add: bit_push_bit_iff bit_pack)
  next
    case False
    then have "n div 8 < k" by auto
    then show ?thesis using False by (simp add: bit_push_bit_iff bit_pack)
  qed
qed

lemma pack_eq_bytes: "(pack b :: 64 word) = pack c \<longleftrightarrow> (\<forall>i<8. b i = c i)"
proof
  assume "(pack b :: 64 word) = pack c"
  then have "bytes_of_u64 (pack b) = bytes_of_u64 (pack c)" by simp
  then show "\<forall>i<8. b i = c i" unfolding bytes_of_u64_pack by (simp del: upt_Suc)
qed (rule pack_cong; simp)

lemma all_less_8: "(\<forall>i<8. P i) = (P 0 \<and> P 1 \<and> P 2 \<and> P 3 \<and> P 4 \<and> P 5 \<and> P 6 \<and> P (7 :: nat))"
proof -
  have "(\<forall>i<8. P i) = list_all P [0..<8]" by (auto simp: list_all_iff)
  then show ?thesis by (simp only: upto_16) simp
qed

lemma pack_list_u64:
  "(pack b :: 64 word) = u64_of_bytes [b 0, b 1, b 2, b 3, b 4, b 5, b 6, b 7]"
  unfolding u64_of_bytes_pack pack_eq_bytes all_less_8 by simp

lemma masks_halves:
  "(0xFFFF0000FFFF0000 :: 64 word) = pack (\<lambda>i. if i mod 4 \<in> {2, 3} then 0xFF else 0)"
  "(0x0000FFFF0000FFFF :: 64 word) = pack (\<lambda>i. if i mod 4 \<in> {0, 1} then 0xFF else 0)"
  "(0xFF00FF00FF00FF00 :: 64 word) = pack (\<lambda>i. if i mod 2 = 1 then 0xFF else 0)"
  "(0x00FF00FF00FF00FF :: 64 word) = pack (\<lambda>i. if i mod 2 = 0 then 0xFF else 0)"
  by (simp_all add: pack_list_u64 u64_of_bytes_def upto_16)

lemma and_0xFF: "b AND 0xFF = (b :: byte)" "0xFF AND b = b"
proof -
  have "(0xFF :: byte) = - 1" by simp
  then show "b AND 0xFF = b" "0xFF AND b = b" by (simp_all only: and.left_neutral and.right_neutral)
qed

lemma shift_bytes_u64:
  "drop_bit 16 (pack b :: 64 word) = pack (\<lambda>i. if i < 6 then b (i + 2) else 0)"
  "push_bit 16 (pack b :: 64 word) = pack (\<lambda>i. if 2 \<le> i then b (i - 2) else 0)"
  "drop_bit 8 (pack b :: 64 word) = pack (\<lambda>i. if i < 7 then b (i + 1) else 0)"
  "push_bit 8 (pack b :: 64 word) = pack (\<lambda>i. if 1 \<le> i then b (i - 1) else 0)"
proof -
  have "drop_bit (8 * 2) (pack b :: 64 word) = pack (\<lambda>i. if i < 6 then b (i + 2) else 0)"
    "drop_bit (8 * 1) (pack b :: 64 word) = pack (\<lambda>i. if i < 7 then b (i + 1) else 0)"
    by (subst pack_drop_bytes; simp add: pack_eq_bytes)+
  moreover have "push_bit (8 * 2) (pack b :: 64 word) = pack (\<lambda>i. if 2 \<le> i then b (i - 2) else 0)"
    "push_bit (8 * 1) (pack b :: 64 word) = pack (\<lambda>i. if 1 \<le> i then b (i - 1) else 0)"
    by (rule pack_push_bytes)+
  ultimately show "drop_bit 16 (pack b :: 64 word) = pack (\<lambda>i. if i < 6 then b (i + 2) else 0)"
    "push_bit 16 (pack b :: 64 word) = pack (\<lambda>i. if 2 \<le> i then b (i - 2) else 0)"
    "drop_bit 8 (pack b :: 64 word) = pack (\<lambda>i. if i < 7 then b (i + 1) else 0)"
    "push_bit 8 (pack b :: 64 word) = pack (\<lambda>i. if 1 \<le> i then b (i - 1) else 0)" by simp_all
qed

lemmas pack_ops = pack_and[OF refl refl] pack_or[OF refl refl] pack_xor[OF refl refl]

lemma swap_halves:
  "drop_bit 16 (pack b AND 0xFFFF0000FFFF0000) OR push_bit 16 (pack b AND 0x0000FFFF0000FFFF) =
   u64_of_bytes [b 2, b 3, b 0, b 1, b 6, b 7, b 4, b 5]"
  by (simp only: masks_halves pack_ops shift_bytes_u64 u64_of_bytes_pack)
    (simp add: pack_eq_bytes all_less_8 and_0xFF, simp add: eval_nat_numeral)

lemma swap_bytes:
  "drop_bit 8 (pack b AND 0xFF00FF00FF00FF00) OR push_bit 8 (pack b AND 0x00FF00FF00FF00FF) =
   u64_of_bytes [b 1, b 0, b 3, b 2, b 5, b 4, b 7, b 6]"
  by (simp only: masks_halves pack_ops shift_bytes_u64 u64_of_bytes_pack) (simp add: pack_eq_bytes all_less_8 and_0xFF)

section \<open>Columns\<close>

lemma u64_lists:
  "u64_of_bytes [x0, x1, x2, x3, x4, x5, x6, x7] XOR u64_of_bytes [y0, y1, y2, y3, y4, y5, y6, y7] =
   u64_of_bytes [x0 XOR y0, x1 XOR y1, x2 XOR y2, x3 XOR y3, x4 XOR y4, x5 XOR y5, x6 XOR y6, x7 XOR y7]"
  "openssl_xtime_u64 (u64_of_bytes [x0, x1, x2, x3, x4, x5, x6, x7]) = u64_of_bytes [xt x0, xt x1, xt x2, xt x3, xt x4, xt x5, xt x6, xt x7]"
  "drop_bit 16 (u64_of_bytes [x0, x1, x2, x3, x4, x5, x6, x7] AND 0xFFFF0000FFFF0000) OR push_bit 16 (u64_of_bytes [x0, x1, x2, x3, x4, x5, x6, x7] AND 0x0000FFFF0000FFFF) =
   u64_of_bytes [x2, x3, x0, x1, x6, x7, x4, x5]"
  "drop_bit 8 (u64_of_bytes [x0, x1, x2, x3, x4, x5, x6, x7] AND 0xFF00FF00FF00FF00) OR push_bit 8 (u64_of_bytes [x0, x1, x2, x3, x4, x5, x6, x7] AND 0x00FF00FF00FF00FF) =
   u64_of_bytes [x1, x0, x3, x2, x5, x4, x7, x6]"
  unfolding u64_of_bytes_pack[of "[x0, x1, x2, x3, x4, x5, x6, x7]"] swap_halves swap_bytes unfolding u64_of_bytes_pack pack_xor[OF refl refl] xtime_u64_pack
  by (simp_all add: pack_eq_bytes all_less_8)

lemma xor_next_byte_list:
  "xor_next_byte (u64_of_bytes [x0, x1, x2, x3, x4, x5, x6, x7]) (u64_of_bytes [y0, y1, y2, y3, y4, y5, y6, y7]) =
   u64_of_bytes [x0 XOR y1, x1 XOR y2, x2 XOR y3, x3 XOR y0, x4 XOR y5, x5 XOR y6, x6 XOR y7, x7 XOR y4]"
  by (simp add: xor_next_byte_def bytes_of_u64_of_bytes)

lemma mix_columns_word_list:
  "mix_columns_word (u64_of_bytes [x0, x1, x2, x3, x4, x5, x6, x7]) =
   u64_of_bytes [mix4 x0 x1 x2 x3, mix4 x1 x2 x3 x0, mix4 x2 x3 x0 x1, mix4 x3 x0 x1 x2, mix4 x4 x5 x6 x7, mix4 x5 x6 x7 x4, mix4 x6 x7 x4 x5, mix4 x7 x4 x5 x6]"
  unfolding mix_columns_word_def Let_def u64_lists xor_next_byte_list mix4_def
  by (rule arg_cong[of _ _ u64_of_bytes]) (simp add: ac_simps)

lemma inv_mix_columns_word_list:
  "inv_mix_columns_word (u64_of_bytes [x0, x1, x2, x3, x4, x5, x6, x7]) =
   u64_of_bytes [inv_mix4 x0 x1 x2 x3, inv_mix4 x1 x2 x3 x0, inv_mix4 x2 x3 x0 x1, inv_mix4 x3 x0 x1 x2, inv_mix4 x4 x5 x6 x7, inv_mix4 x5 x6 x7 x4, inv_mix4 x6 x7 x4 x5, inv_mix4 x7 x4 x5 x6]"
  unfolding inv_mix_columns_word_def Let_def u64_lists xor_next_byte_list inv_mix4_def xt_xor
  by (rule arg_cong[of _ _ u64_of_bytes]) (simp add: ac_simps)

section \<open>The steps on sixteen bytes\<close>

lemma state_bytes_of: "length s = 16 \<Longrightarrow> state_bytes (state_of_bytes s) = s"
  by (simp add: state_bytes_def state_of_bytes_def bytes_of_u64_of_bytes)

lemma state_of_bytes_bytes: "length st = 2 \<Longrightarrow> state_of_bytes (state_bytes st) = st"
  by (auto simp: state_bytes_def state_of_bytes_def length_Suc_conv numeral_2_eq_2 u64_of_bytes_pack pack_bytes_u64)

lemma sub_u8_sbox: "sub_u8 b = s_muggle_aes_sbox ! unat b"
proof -
  have "unat b < 2 ^ LENGTH(8)" by (rule unsigned_less)
  then show ?thesis unfolding sub_u8_table[symmetric] by simp
qed

lemma inv_sub_u8_sbox: "inv_sub_u8 b = s_muggle_aes_inv_sbox ! unat b"
proof -
  have "unat b < 2 ^ LENGTH(8)" by (rule unsigned_less)
  then show ?thesis unfolding inv_sub_u8_table[symmetric] by simp
qed

lemma sub_u64_bytes:
  "length s = 8 \<Longrightarrow> openssl_sub_u64 (u64_of_bytes s) = u64_of_bytes (map (\<lambda>b. s_muggle_aes_sbox ! unat b) s)"
  "length s = 8 \<Longrightarrow> openssl_inv_sub_u64 (u64_of_bytes s) = u64_of_bytes (map (\<lambda>b. s_muggle_aes_inv_sbox ! unat b) s)"
  unfolding u64_of_bytes_pack sub_u64_pack inv_sub_u64_pack by (simp_all add: pack_eq_bytes sub_u8_sbox inv_sub_u8_sbox)

lemma sub_state_bytes:
  "length s = 16 \<Longrightarrow> sub_state (state_of_bytes s) = state_of_bytes (map (\<lambda>b. s_muggle_aes_sbox ! unat b) s)"
  "length s = 16 \<Longrightarrow> inv_sub_state (state_of_bytes s) = state_of_bytes (map (\<lambda>b. s_muggle_aes_inv_sbox ! unat b) s)"
  by (simp_all add: sub_state_def inv_sub_state_def state_of_bytes_def sub_u64_bytes take_map drop_map)

lemma shift_row_list:
  "openssl_shift_row (state_of_bytes [x0, x1, x2, x3, x4, x5, x6, x7, x8, x9, x10, x11, x12, x13, x14, x15]) =
   state_of_bytes [x0, x5, x10, x15, x4, x9, x14, x3, x8, x13, x2, x7, x12, x1, x6, x11]"
  "openssl_inv_shift_row (state_of_bytes [x0, x1, x2, x3, x4, x5, x6, x7, x8, x9, x10, x11, x12, x13, x14, x15]) =
   state_of_bytes [x0, x13, x10, x7, x4, x1, x14, x11, x8, x5, x2, x15, x12, x9, x6, x3]"
  by (simp_all add: openssl_shift_row_def openssl_inv_shift_row_def state_bytes_of upto_16)

lemma mix_columns_list:
  "openssl_mix_columns (state_of_bytes [x0, x1, x2, x3, x4, x5, x6, x7, x8, x9, x10, x11, x12, x13, x14, x15]) =
   state_of_bytes [mix4 x0 x1 x2 x3, mix4 x1 x2 x3 x0, mix4 x2 x3 x0 x1, mix4 x3 x0 x1 x2, mix4 x4 x5 x6 x7, mix4 x5 x6 x7 x4, mix4 x6 x7 x4 x5, mix4 x7 x4 x5 x6, mix4 x8 x9 x10 x11, mix4 x9 x10 x11 x8, mix4 x10 x11 x8 x9, mix4 x11 x8 x9 x10, mix4 x12 x13 x14 x15, mix4 x13 x14 x15 x12, mix4 x14 x15 x12 x13, mix4 x15 x12 x13 x14]"
  "openssl_inv_mix_columns (state_of_bytes [x0, x1, x2, x3, x4, x5, x6, x7, x8, x9, x10, x11, x12, x13, x14, x15]) =
   state_of_bytes [inv_mix4 x0 x1 x2 x3, inv_mix4 x1 x2 x3 x0, inv_mix4 x2 x3 x0 x1, inv_mix4 x3 x0 x1 x2, inv_mix4 x4 x5 x6 x7, inv_mix4 x5 x6 x7 x4, inv_mix4 x6 x7 x4 x5, inv_mix4 x7 x4 x5 x6, inv_mix4 x8 x9 x10 x11, inv_mix4 x9 x10 x11 x8, inv_mix4 x10 x11 x8 x9, inv_mix4 x11 x8 x9 x10, inv_mix4 x12 x13 x14 x15, inv_mix4 x13 x14 x15 x12, inv_mix4 x14 x15 x12 x13, inv_mix4 x15 x12 x13 x14]"
  by (simp_all add: openssl_mix_columns_def openssl_inv_mix_columns_def state_of_bytes_def mix_columns_word_list
      inv_mix_columns_word_list upt_conv_Cons)

lemma add_round_key_bytes:
  "length s = 16 \<Longrightarrow> openssl_add_round_key (state_of_bytes s) w = state_of_bytes (xor_bytes s (bytes_of_u64 (w ! 0) @ bytes_of_u64 (w ! 1)))"
proof -
  assume "length s = 16"
  moreover have "u64_of_bytes a XOR d = u64_of_bytes (xor_bytes a (bytes_of_u64 d))" if "length a = 8" for a d
    using that unfolding u64_of_bytes_pack
    by (subst (2) pack_bytes_u64[symmetric]) (simp add: pack_xor[OF refl refl] pack_eq_bytes xor_bytes_def)
  ultimately show ?thesis
    by (simp add: openssl_add_round_key_def state_of_bytes_def xor_bytes_def take_map drop_map take_zip drop_zip)
qed

section \<open>Rows and columns\<close>

definition rows :: "64 word list \<Rightarrow> byte list" where
  "rows st = aes_transpose (state_bytes st)"

text \<open>Four words of the one key schedule and two of the other hold the same sixteen bytes.\<close>

definition key_agree :: "32 word list \<Rightarrow> 64 word list \<Rightarrow> bool" where
  "key_agree k w \<longleftrightarrow> bytes_of_u64 (w ! 0) @ bytes_of_u64 (w ! 1) =
    rev (bytes_of_u32 (k ! 0)) @ rev (bytes_of_u32 (k ! 1)) @ rev (bytes_of_u32 (k ! 2)) @ rev (bytes_of_u32 (k ! 3))"

lemma state_cases:
  assumes "length st = 2"
  obtains x0 x1 x2 x3 x4 x5 x6 x7 x8 x9 x10 x11 x12 x13 x14 x15
  where "st = state_of_bytes [x0, x1, x2, x3, x4, x5, x6, x7, x8, x9, x10, x11, x12, x13, x14, x15]"
proof -
  have "length (state_bytes st) = 16" using assms by (auto simp: state_bytes_def length_Suc_conv numeral_2_eq_2)
  then obtain x0 x1 x2 x3 x4 x5 x6 x7 x8 x9 x10 x11 x12 x13 x14 x15
    where "state_bytes st = [x0, x1, x2, x3, x4, x5, x6, x7, x8, x9, x10, x11, x12, x13, x14, x15]" by (rule length_16E)
  then show ?thesis using that state_of_bytes_bytes[OF assms] by metis
qed

lemma inv_shift_rows_list:
  "muggle_aes_inv_shift_rows [x0, x1, x2, x3, x4, x5, x6, x7, x8, x9, x10, x11, x12, x13, x14, x15] =
   [x0, x1, x2, x3, x7, x4, x5, x6, x10, x11, x8, x9, x13, x14, x15, x12]"
  by (simp add: muggle_aes_inv_shift_rows_def Let_def)

lemma steps_rows:
  assumes "length st = 2"
  shows "muggle_aes_sub_bytes (rows st) = rows (sub_state st)"
    and "muggle_aes_shift_rows (rows st) = rows (openssl_shift_row st)"
    and "muggle_aes_mix_column (rows st) = rows (openssl_mix_columns st)"
    and "muggle_aes_inv_sub_bytes (rows st) = rows (inv_sub_state st)"
    and "muggle_aes_inv_shift_rows (rows st) = rows (openssl_inv_shift_row st)"
    and "muggle_aes_inv_mix_column (rows st) = rows (openssl_inv_mix_columns st)"
  using assms by (auto elim!: state_cases simp: rows_def aes_transpose_def state_bytes_of sub_state_bytes sub_bytes_map inv_sub_bytes_map
      shift_row_list shift_rows_list inv_shift_rows_list mix_columns_list mix_column_list inv_mix_column_list)

lemma key_byte: "ucast (drop_bit n (k :: 32 word) AND 0xff) = (ucast (drop_bit n k) :: byte)"
proof -
  have "(0xff :: 32 word) = mask 8" by (simp add: mask_eq_exp_minus_1)
  then show ?thesis by (auto intro!: bit_word_eqI simp only: bit_ucast_iff bit_and_iff bit_mask_iff) auto
qed

lemma add_round_key_rows:
  assumes "length st = 2" "key_agree k w"
  shows "muggle_aes_add_round_key (rows st) k = rows (openssl_add_round_key st w)"
proof -
  obtain x0 x1 x2 x3 x4 x5 x6 x7 x8 x9 x10 x11 x12 x13 x14 x15
    where st: "st = state_of_bytes [x0, x1, x2, x3, x4, x5, x6, x7, x8, x9, x10, x11, x12, x13, x14, x15]"
    using assms(1) by (rule state_cases)
  show ?thesis using assms(2) unfolding st key_agree_def
    by (simp add: add_round_key_bytes rows_def aes_transpose_def state_bytes_of add_round_key_list Let_def key_byte xor_bytes_def
        bytes_of_u32_def upto_16)
qed

lemma length_state [simp]:
  "length (sub_state st) = length st" "length (inv_sub_state st) = length st" "length (openssl_shift_row st) = 2"
  "length (openssl_inv_shift_row st) = 2" "length (openssl_mix_columns st) = length st"
  "length (openssl_inv_mix_columns st) = length st" "length (openssl_add_round_key st w) = length st" "length (state_of_bytes s) = 2"
  by (simp_all add: sub_state_def inv_sub_state_def openssl_shift_row_def openssl_inv_shift_row_def openssl_mix_columns_def
      openssl_inv_mix_columns_def openssl_add_round_key_def state_of_bytes_def Let_def upt_conv_Cons)

section \<open>The block functions\<close>

lemma rows_state_of: "length s = 16 \<Longrightarrow> rows (state_of_bytes s) = aes_transpose s"
  by (simp add: rows_def state_bytes_of)

lemma upto_rounds:
  "[1..<10] = [1, 2, 3, 4, 5, 6, 7, 8, 9]" "[1..<12] = [1, 2, 3, 4, 5, 6, 7, 8, 9, 10, 11]"
  "[1..<14] = [1, 2, 3, 4, 5, 6, 7, 8, 9, 10, 11, 12, 13]"
  by (simp_all add: upt_conv_Cons eval_nat_numeral)

lemmas rows_steps = steps_rows[symmetric]

lemma openssl_cipher_rows:
  assumes "length input = 16" "rounds sk = int nr" "nr = 10 \<or> nr = 12 \<or> nr = 14"
    and agree: "\<And>i. i \<le> nr \<Longrightarrow> key_agree (drop (4 * i) (rd_key sk)) (drop (i * 2) w)"
  shows "muggle_aes_encrypt (aes_transpose input) sk = (MUGGLE_OK, aes_transpose (openssl_cipher input w nr))"
proof -
  define add where "add i st = openssl_add_round_key st (drop (i * 2) w)" for i st
  define rnd where "rnd i st = add i (openssl_mix_columns (openssl_shift_row (sub_state st)))" for i st
  have k: "rows (add i st) = muggle_aes_add_round_key (rows st) (drop (4 * i) (rd_key sk))"
    if "length st = 2" "i \<le> nr" for st i using add_round_key_rows[OF that(1) agree[OF that(2)]] by (simp add: add_def)
  have r: "rows (rnd i st) = aes_round (rows st) (drop (4 * i) (rd_key sk))" if "length st = 2" "i \<le> nr" for st i
    using that by (simp add: rnd_def k rows_steps aes_round_def)
  have l: "length (rnd i st) = 2" "length (add i st) = length st" for i st by (simp_all add: rnd_def add_def)
  have "aes_transpose (openssl_cipher input w nr) = rows (add nr (openssl_shift_row (sub_state (fold rnd [1..<nr] (add 0 (state_of_bytes input))))))"
    by (simp add: openssl_cipher_def rows_def rnd_def[abs_def] add_def[abs_def] Let_def)
  also have "\<dots> = snd (muggle_aes_encrypt (aes_transpose input) sk)"
    using assms(3)
  proof (elim disjE)
    assume nr: "nr = 10"
    show ?thesis unfolding nr upto_rounds fold_simps using assms(1,2) nr
      by (simp add: k r l rows_steps rows_state_of muggle_aes_encrypt_def)
  next
    assume nr: "nr = 12"
    show ?thesis unfolding nr upto_rounds fold_simps using assms(1,2) nr
      by (simp add: k r l rows_steps rows_state_of muggle_aes_encrypt_def)
  next
    assume nr: "nr = 14"
    show ?thesis unfolding nr upto_rounds fold_simps using assms(1,2) nr
      by (simp add: k r l rows_steps rows_state_of muggle_aes_encrypt_def)
  qed
  finally show ?thesis using assms(2,3) by (auto simp: muggle_aes_encrypt_def Let_def)
qed

lemma openssl_inv_cipher_rows:
  assumes "length input = 16" "rounds sk = int nr" "nr = 10 \<or> nr = 12 \<or> nr = 14"
    and agree: "\<And>i. i \<le> nr \<Longrightarrow> key_agree (drop (4 * i) (rd_key sk)) (drop (i * 2) w)"
  shows "muggle_aes_decrypt (aes_transpose input) sk = (MUGGLE_OK, aes_transpose (openssl_inv_cipher input w nr))"
proof -
  define add where "add i st = openssl_add_round_key st (drop (i * 2) w)" for i st
  define rnd where "rnd i st = openssl_inv_mix_columns (add i (inv_sub_state (openssl_inv_shift_row st)))" for i st
  have k: "rows (add i st) = muggle_aes_add_round_key (rows st) (drop (4 * i) (rd_key sk))"
    if "length st = 2" "i \<le> nr" for st i using add_round_key_rows[OF that(1) agree[OF that(2)]] by (simp add: add_def)
  have l: "length (rnd i st) = 2" "length (add i st) = length st" for i st by (simp_all add: rnd_def add_def)
  have r: "rows (rnd i st) = muggle_aes_inv_mix_column (muggle_aes_add_round_key (muggle_aes_inv_sub_bytes
      (muggle_aes_inv_shift_rows (rows st))) (drop (4 * i) (rd_key sk)))" if "length st = 2" "i \<le> nr" for st i
    using that by (simp add: rnd_def k l rows_steps)
  have "aes_transpose (openssl_inv_cipher input w nr) = rows (add 0 (inv_sub_state (openssl_inv_shift_row
      (fold rnd (rev [1..<nr]) (add nr (state_of_bytes input))))))"
    by (simp add: openssl_inv_cipher_def rows_def rnd_def[abs_def] add_def[abs_def] Let_def)
  also have "\<dots> = snd (muggle_aes_decrypt (aes_transpose input) sk)"
    using assms(3)
  proof (elim disjE)
    assume nr: "nr = 10"
    show ?thesis unfolding nr upto_rounds rev.simps append.simps fold_simps using assms(1,2) nr
      by (simp add: k r l rows_steps rows_state_of muggle_aes_decrypt_def aes_inv_round_def)
  next
    assume nr: "nr = 12"
    show ?thesis unfolding nr upto_rounds rev.simps append.simps fold_simps using assms(1,2) nr
      by (simp add: k r l rows_steps rows_state_of muggle_aes_decrypt_def aes_inv_round_def)
  next
    assume nr: "nr = 14"
    show ?thesis unfolding nr upto_rounds rev.simps append.simps fold_simps using assms(1,2) nr
      by (simp add: k r l rows_steps rows_state_of muggle_aes_decrypt_def aes_inv_round_def)
  qed
  finally show ?thesis using assms(2,3) by (auto simp: muggle_aes_decrypt_def Let_def)
qed

section \<open>The key schedule\<close>

text \<open>The words of \<^verbatim>\<open>internal_aes.c\<close> are big-endian: the bytes of one are those of the other in reverse.\<close>

definition swap_word :: "32 word \<Rightarrow> 32 word" where
  "swap_word x = u32_of_bytes (rev (bytes_of_u32 x))"

lemma pack_eq_bytes_u32: "(pack b :: 32 word) = pack c \<longleftrightarrow> (\<forall>i<4. b i = c i)"
proof
  assume "(pack b :: 32 word) = pack c"
  then have "bytes_of_u32 (pack b) = bytes_of_u32 (pack c)" by simp
  then show "\<forall>i<4. b i = c i" unfolding bytes_of_u32_pack by (simp del: upt_Suc)
qed (rule pack_cong; simp)

lemma bytes_swap_word: "bytes_of_u32 (swap_word x) = rev (bytes_of_u32 x)"
  by (simp add: swap_word_def bytes_of_u32_of_bytes)

lemma u32_bytes_eqI: "bytes_of_u32 x = bytes_of_u32 y \<Longrightarrow> x = y"
  by (metis pack_bytes_u32)

lemma bytes_u32_list:
  obtains a b c d where "bytes_of_u32 x = [a, b, c, d]"
  by (simp add: bytes_of_u32_def upto_16)

lemma ucast_xor_byte: "(ucast (x XOR y :: 32 word) :: byte) = ucast x XOR ucast y"
  by (rule bit_word_eqI) (auto simp: bit_ucast_iff bit_xor_iff)

lemma bytes_xor_u32: "bytes_of_u32 (x XOR y) = xor_bytes (bytes_of_u32 x) (bytes_of_u32 y)"
  by (simp add: bytes_of_u32_def upto_16 xor_bytes_def ucast_xor_byte)

lemma swap_word_xor: "swap_word (x XOR y) = swap_word x XOR swap_word y"
  by (rule u32_bytes_eqI) (simp add: bytes_swap_word bytes_xor_u32 xor_bytes_def rev_map zip_rev)

lemma swap_word_rot: "openssl_rot_word (swap_word x) = swap_word (muggle_aes_rot_word x)"
proof -
  obtain a b c d where x: "bytes_of_u32 x = [a, b, c, d]" by (rule bytes_u32_list)
  have z: "bytes_of_u32 0 = [0, 0, 0, 0]" by (simp add: bytes_of_u32_def upto_16)
  show ?thesis by (simp add: openssl_rot_word_def muggle_aes_rot_word_def bytes_swap_word x z swap_word_def bytes_of_u32_of_bytes Let_def)
qed

lemma sub_u32_bytes: "length s = 4 \<Longrightarrow> openssl_sub_u32 (u32_of_bytes s) = u32_of_bytes (map (\<lambda>b. s_muggle_aes_sbox ! unat b) s)"
  unfolding u32_of_bytes_pack sub_u32_pack by (simp add: pack_eq_bytes_u32 sub_u8_sbox)

lemma swap_word_sub: "openssl_sub_u32 (swap_word x) = swap_word (muggle_aes_sub_word x)"
proof -
  obtain a b c d where x: "bytes_of_u32 x = [a, b, c, d]" by (rule bytes_u32_list)
  show ?thesis by (simp add: muggle_aes_sub_word_def x swap_word_def bytes_of_u32_of_bytes sub_u32_bytes Let_def)
qed

lemma less_14: "k < 14 \<longleftrightarrow> k \<in> set [0, 1, 2, 3, 4, 5, 6, 7, 8, 9, 10, 11, 12, 13 :: nat]"
  by (simp add: numeral_eq_Suc less_Suc_eq)

lemma xtime_rcon: "k < 14 \<Longrightarrow> openssl_xtime_u32 (swap_word (s_aes_rcon ! k)) = swap_word (s_aes_rcon ! Suc k)"
  unfolding less_14
  by (simp only: list.set insert_iff empty_iff simp_thms, elim disjE; hypsubst)
    (simp_all add: s_aes_rcon_def swap_word_def bytes_of_u32_def u32_of_bytes_def upto_16 openssl_xtime_u32_def)

text \<open>The two words of \<open>w[i]\<close>.\<close>

lemma u32_of_bytes_of: "u32_of_bytes (bytes_of_u32 x) = x"
  by (simp only: u32_of_bytes_pack pack_bytes_u32)

lemma uni_w_of: "uni_w (uni_of_w [x, y]) = [x, y]"
proof -
  have "bytes_of_u64 (uni_of_w [x, y]) = bytes_of_u32 x @ bytes_of_u32 y"
    unfolding uni_of_w_def by (subst bytes_of_u64_of_bytes) simp_all
  then show ?thesis by (simp only: uni_w_def) (simp add: u32_of_bytes_of)
qed


lemma uni_bytes: "bytes_of_u32 (uni_w d ! 0) @ bytes_of_u32 (uni_w d ! 1) = bytes_of_u64 d"
proof -
  have "bytes_of_u32 (u32_of_bytes (take 4 (bytes_of_u64 d))) = take 4 (bytes_of_u64 d)"
    "bytes_of_u32 (u32_of_bytes (drop 4 (bytes_of_u64 d))) = drop 4 (bytes_of_u64 d)"
    by (rule bytes_of_u32_of_bytes, simp)+
  then show ?thesis by (simp only: uni_w_def nth_Cons_0 One_nat_def nth_Cons_Suc append_take_drop_id)
qed

text \<open>After the pass \<open>i - 1\<close> of the loop on 64 bit words and the passes up to \<open>2 i - 1\<close> of the other, the words agree.\<close>

definition schedule_agree :: "nat \<Rightarrow> nat \<Rightarrow> 64 word list \<times> 64 word \<times> 32 word \<Rightarrow> 32 word list \<Rightarrow> bool" where
  "schedule_agree n i = (\<lambda>(w, prev, rcon) rd.
    length w = 30 \<and> length rd = 60 \<and> prev = w ! (i - 1) \<and> rcon = swap_word (s_aes_rcon ! ((i - 1) div n)) \<and>
    (\<forall>j<2 * i. uni_w (w ! (j div 2)) ! (j mod 2) = swap_word (rd ! j)))"

lemma schedule_temp:
  assumes "nk = 2 * n" "0 < n" "n \<le> i" "(i - 1) div n < 14"
  shows "key_expansion_temp nk i (swap_word t) (swap_word (s_aes_rcon ! ((i - 1) div n))) =
    (swap_word (aes_expand_temp nk (2 * i) t), swap_word (s_aes_rcon ! (i div n)))"
proof -
  have m: "2 * i mod nk = 2 * (i mod n)" unfolding assms(1) by (rule mod_mult_mult1)
  have d: "i mod n = 0 \<Longrightarrow> i div n = Suc ((i - 1) div n)" "i mod n \<noteq> 0 \<Longrightarrow> i div n = (i - 1) div n"
    using assms(2,3) div_Suc[of "i - 1" n] by (simp_all add: split: if_splits)
  have r: "(2 * i - 1) div nk = (i - 1) div n"
  proof -
    have "2 * i - 1 = 2 * (i - 1) + 1" using assms(2,3) by simp
    then have "(2 * i - 1) div 2 = i - 1" by simp
    then show ?thesis unfolding assms(1) by (simp add: div_mult2_eq)
  qed
  show ?thesis
  proof (cases "i mod n = 0")
    case True
    then show ?thesis using m d(1) r assms(1,4)
      by (simp add: key_expansion_temp_def aes_expand_temp_def Let_def swap_word_rot swap_word_sub swap_word_xor xtime_rcon)
  next
    case False
    then show ?thesis using m d(2) r assms(1)
      by (simp add: key_expansion_temp_def aes_expand_temp_def Let_def swap_word_sub)
  qed
qed

lemma expand_odd: "nk = 2 * n \<Longrightarrow> aes_expand_temp nk (2 * i + 1) t = t"
proof -
  assume nk: "nk = 2 * n"
  have "odd ((2 * i + 1) mod nk)" unfolding nk by (simp add: dvd_mod_iff)
  then have "(2 * i + 1) mod nk \<noteq> 0" "(2 * i + 1) mod nk \<noteq> 4" by (metis dvd_0_right, metis even_numeral)
  then show ?thesis by (simp add: aes_expand_temp_def)
qed

lemma length_uni_w [simp]: "length (uni_w d) = 2"
  by (simp add: uni_w_def)

lemma uni_w_list: "uni_w d = [uni_w d ! 0, uni_w d ! 1]"
  by (simp add: uni_w_def)

lemma schedule_step:
  assumes nk: "nk = 2 * n" "0 < n" and i: "n \<le> i" "i < 30" "(i - 1) div n < 14"
    and agree: "schedule_agree n i s rd"
  shows "schedule_agree n (Suc i) (key_expansion_step nk i s) (aes_expand_step nk (2 * i + 1) (aes_expand_step nk (2 * i) rd))"
proof -
  obtain w prev rcon where s: "s = (w, prev, rcon)" by (cases s)
  have a: "length w = 30" "length rd = 60" "prev = w ! (i - 1)" "rcon = swap_word (s_aes_rcon ! ((i - 1) div n))"
    and old: "\<And>j. j < 2 * i \<Longrightarrow> uni_w (w ! (j div 2)) ! (j mod 2) = swap_word (rd ! j)"
    using agree by (auto simp: schedule_agree_def s)
  let ?t = "aes_expand_temp nk (2 * i) (rd ! (2 * i - 1))" and ?k = "2 * (i - n)"
  have prev: "uni_w prev ! 1 = swap_word (rd ! (2 * i - 1))"
  proof -
    have "2 * i - 1 = 2 * (i - 1) + 1" using nk(2) i(1) by simp
    then have "(2 * i - 1) div 2 = i - 1" "(2 * i - 1) mod 2 = 1" by simp_all
    then show ?thesis using old[of "2 * i - 1"] nk(2) i(1) a(3) by simp
  qed
  have k: "uni_w (w ! (i - n)) ! 0 = swap_word (rd ! ?k)" "uni_w (w ! (i - n)) ! 1 = swap_word (rd ! (?k + 1))"
    using old[of ?k] old[of "?k + 1"] nk(2) i(1) by simp_all
  have u: "uni_w (w ! (i - n)) = [swap_word (rd ! ?k), swap_word (rd ! (?k + 1))]" by (subst uni_w_list) (simp only: k)
  define x y where "x = rd ! ?k XOR ?t" and "y = rd ! (?k + 1) XOR x"
  have "key_expansion_step nk i s = (w[i := uni_of_w [swap_word x, swap_word y]], uni_of_w [swap_word x, swap_word y],
      swap_word (s_aes_rcon ! (i div n)))"
    using schedule_temp[OF nk i(1,3), of "rd ! (2 * i - 1)"] prev u nk a(4)
    by (simp add: s key_expansion_step_def x_def y_def swap_word_xor Let_def)
  moreover have "aes_expand_step nk (2 * i + 1) (aes_expand_step nk (2 * i) rd) = rd[2 * i := x, 2 * i + 1 := y]"
  proof -
    have "2 * i - nk = ?k" "2 * i + 1 - nk = ?k + 1" "?k + 1 \<noteq> 2 * i" using nk i(1) by (simp_all add: diff_mult_distrib2)
    then show ?thesis using expand_odd[OF nk(1), of i] a(2) i(2)
      by (simp add: aes_expand_step_def x_def y_def Let_def)
  qed
  moreover have "uni_w (w[i := uni_of_w [swap_word x, swap_word y]] ! (j div 2)) ! (j mod 2) = swap_word (rd[2 * i := x, 2 * i + 1 := y] ! j)"
    if j: "j < 2 * Suc i" for j
  proof -
    have "j < 2 * i \<or> j = 2 * i \<or> j = 2 * i + 1" using j by auto
    then consider "j < 2 * i" | "j = 2 * i" | "j = 2 * i + 1" by blast
    then show ?thesis
    proof cases
      case 1
      then have "j div 2 < i" by auto
      then show ?thesis using old[OF 1] 1 by simp
    qed (use a(1,2) i(2) in \<open>simp_all add: uni_w_of\<close>)
  qed
  ultimately show ?thesis using a i(2) by (simp add: schedule_agree_def)
qed

lemma schedule_fold:
  assumes nk: "nk = 2 * n" "0 < n" and m: "n \<le> m" "m \<le> 30" "(m - 1) div n < 14"
    and agree: "schedule_agree n n s rd"
  shows "schedule_agree n m (fold (key_expansion_step nk) [n..<m] s) (fold (aes_expand_step nk) [nk..<2 * m] rd)"
  using m
proof (induction m rule: dec_induct)
  case base
  then show ?case using agree nk(1) by simp
next
  case (step m)
  have "(m - 1) div n \<le> m div n" by (simp add: div_le_mono)
  then have "(m - 1) div n < 14" using step by simp
  moreover have "schedule_agree n m (fold (key_expansion_step nk) [n..<m] s) (fold (aes_expand_step nk) [nk..<2 * m] rd)"
    using step calculation by (intro step.IH) simp_all
  ultimately have "schedule_agree n (Suc m) (key_expansion_step nk m (fold (key_expansion_step nk) [n..<m] s))
      (aes_expand_step nk (2 * m + 1) (aes_expand_step nk (2 * m) (fold (aes_expand_step nk) [nk..<2 * m] rd)))"
    using step by (intro schedule_step nk) simp_all
  then show ?case using step(1) nk by simp
qed

lemma fold_update:
  "length (fold (\<lambda>i xs. xs[i := g i]) [0..<k] xs) = length xs"
  "k \<le> length xs \<Longrightarrow> j < k \<Longrightarrow> fold (\<lambda>i xs. xs[i := g i]) [0..<k] xs ! j = g j"
  by (induction k) (auto simp: nth_list_update)

lemma swap_word_big_endian:
  "swap_word (push_bit 24 (ucast a) OR push_bit 16 (ucast b) OR push_bit 8 (ucast c) OR ucast d) = u32_of_bytes [a, b, c, d]"
proof -
  have "push_bit 24 (ucast a) OR push_bit 16 (ucast b) OR push_bit 8 (ucast c) OR ucast d = u32_of_bytes [d, c, b, a]"
    by (simp add: u32_of_bytes_def upto_16)
  then show ?thesis by (simp only: swap_word_def) (simp add: bytes_of_u32_of_bytes)
qed

lemma key_words:
  assumes "length b = 8"
  shows "uni_w (u64_of_bytes b) = [u32_of_bytes (take 4 b), u32_of_bytes (drop 4 b)]"
  using assms by (simp add: uni_w_def bytes_of_u64_of_bytes)

lemma take_4: "k + 4 \<le> length xs \<Longrightarrow> take 4 (drop k xs) = [xs ! k, xs ! (k + 1), xs ! (k + 2), xs ! (k + 3)]"
  by (intro nth_equalityI) (auto simp: nth_Cons' numeral_eq_Suc less_Suc_eq)

lemma schedule_start:
  assumes "0 < n" "8 * n \<le> length key" "n \<le> 30" "length w = 30" "length rd = 60"
  shows "schedule_agree n n
      (map (\<lambda>i. u64_of_bytes (take 8 (drop (8 * i) key))) [0..<n] @ drop n w,
       (map (\<lambda>i. u64_of_bytes (take 8 (drop (8 * i) key))) [0..<n] @ drop n w) ! (n - 1), u32_of_bytes [1, 0, 0, 0])
      (fold (\<lambda>i rd. rd[i := push_bit 24 (ucast (key ! (4 * i + 0))) OR push_bit 16 (ucast (key ! (4 * i + 1))) OR
         push_bit 8 (ucast (key ! (4 * i + 2))) OR ucast (key ! (4 * i + 3))]) [0..<2 * n] rd)"
proof -
  have rcon: "u32_of_bytes [1, 0, 0, 0] = swap_word (s_aes_rcon ! 0)"
    by (simp add: s_aes_rcon_def swap_word_def bytes_of_u32_def u32_of_bytes_def upto_16)
  have "uni_w (u64_of_bytes (take 8 (drop (8 * (j div 2)) key))) ! (j mod 2) =
      u32_of_bytes [key ! (4 * j + 0), key ! (4 * j + 1), key ! (4 * j + 2), key ! (4 * j + 3)]" if "j < 2 * n" for j
  proof -
    define q where "q = j div 2"
    have q: "q < n" using that by (auto simp: q_def)
    then have q8: "8 * q + 8 \<le> length key" using assms(2) by simp
    have "take 4 (take 8 (drop (8 * q) key)) = take 4 (drop (8 * q) key)"
      "drop 4 (take 8 (drop (8 * q) key)) = take 4 (drop (8 * q + 4) key)" by (simp_all add: take_drop add.commute)
    then have u: "uni_w (u64_of_bytes (take 8 (drop (8 * q) key))) =
        [u32_of_bytes (take 4 (drop (8 * q) key)), u32_of_bytes (take 4 (drop (8 * q + 4) key))]"
      using q8 key_words[of "take 8 (drop (8 * q) key)"] by simp
    show ?thesis
    proof (cases "even j")
      case True
      then have "j = 2 * q" by (simp add: q_def)
      then show ?thesis using u q8 take_4[of "8 * q" key] by simp
    next
      case False
      then have j: "j = 2 * q + 1" by (simp add: q_def)
      then have e: "j div 2 = q" "j mod 2 = 1" "4 * j = 8 * q + 4" by simp_all
      show ?thesis unfolding e using u q8 take_4[of "8 * q + 4" key] by simp
    qed
  qed
  then show ?thesis using assms rcon
    by (simp add: schedule_agree_def fold_update swap_word_big_endian nth_append less_mult_imp_div_less)
qed

section \<open>The two builds agree on every block\<close>

lemma uni_of_w_uni: "uni_of_w (uni_w d) = d"
  unfolding uni_of_w_def uni_bytes by (simp only: u64_of_bytes_pack pack_bytes_u64)

lemma length_as [simp]: "length (as_u32 w) = 2 * length w" "length (as_u64 rd) = length rd div 2"
  by (induction w) (simp_all add: as_u32_def as_u64_def)

lemma nth_as_u32: "i < length w \<Longrightarrow> as_u32 w ! (2 * i) = uni_w (w ! i) ! 0 \<and> as_u32 w ! (2 * i + 1) = uni_w (w ! i) ! 1"
proof (induction w arbitrary: i)
  case (Cons d w)
  have e: "as_u32 (d # w) = uni_w d ! 0 # uni_w d ! 1 # as_u32 w" unfolding as_u32_def by (simp, subst uni_w_list, simp)
  show ?case using Cons by (cases i) (simp_all add: e)
qed simp

lemma as_u64_as_u32: "as_u64 (as_u32 w) = w"
proof (rule nth_equalityI)
  fix i assume "i < length (as_u64 (as_u32 w))"
  then have i: "i < length w" by simp
  have "as_u64 (as_u32 w) ! i = uni_of_w [as_u32 w ! (2 * i), as_u32 w ! (2 * i + 1)]" using i by (simp add: as_u64_def)
  also have "\<dots> = uni_of_w (uni_w (w ! i))" using nth_as_u32[OF i] uni_w_list[of "w ! i"] by metis
  finally show "as_u64 (as_u32 w) ! i = w ! i" by (simp only: uni_of_w_uni)
qed simp

lemma schedule_keys:
  assumes "schedule_agree n m (w, prev, rcon) rd" "2 * i + 1 < m" "m \<le> 30"
  shows "key_agree (drop (4 * i) rd) (drop (i * 2) w)"
proof -
  have l: "length w = 30" "length rd = 60" using assms(1) by (simp_all add: schedule_agree_def)
  have old: "uni_w (w ! (j div 2)) ! (j mod 2) = swap_word (rd ! j)" if "j < 2 * m" for j
    using assms(1) that by (simp add: schedule_agree_def)
  have b: "bytes_of_u64 (w ! k) = rev (bytes_of_u32 (rd ! (2 * k))) @ rev (bytes_of_u32 (rd ! (2 * k + 1)))" if "k < m" for k
    unfolding uni_bytes[symmetric] using old[of "2 * k"] old[of "2 * k + 1"] that by (simp add: bytes_swap_word)
  have e: "2 * (i * 2) = 4 * i" "2 * (i * 2) + 1 = 4 * i + 1" "2 * (i * 2 + 1) = 4 * i + 2" "4 * i + 2 + 1 = 4 * i + 3" "i * 2 < m" "i * 2 + 1 < m"
    using assms(2) by simp_all
  have "bytes_of_u64 (w ! (i * 2)) = rev (bytes_of_u32 (rd ! (4 * i))) @ rev (bytes_of_u32 (rd ! (4 * i + 1)))"
    "bytes_of_u64 (w ! (i * 2 + 1)) = rev (bytes_of_u32 (rd ! (4 * i + 2))) @ rev (bytes_of_u32 (rd ! (4 * i + 3)))"
    using b[OF e(5)] b[OF e(6)] by (simp_all only: e(1-4))
  then show ?thesis using assms(2,3) l by (simp add: key_agree_def)
qed

text \<open>The number of rounds and half the number of key words for a key size.\<close>

definition aes_nr :: "int \<Rightarrow> nat" where
  "aes_nr bits = (if bits = 128 then 10 else if bits = 192 then 12 else 14)"

lemma key_schedules_agree:
  assumes "bits = 128 \<or> bits = 192 \<or> bits = 256" "bits div 8 \<le> int (length key)" "length rd = 60" "length rd' = 60" "i \<le> aes_nr bits"
  shows "key_agree (drop (4 * i) (aes_expand_key key (aes_nr bits) (nat (bits div 32)) rd))
    (drop (i * 2) (openssl_key_expansion key (as_u64 rd') (aes_nr bits) (nat (bits div 32))))"
proof -
  define nk n m where "nk = nat (bits div 32)" and "n = nk div 2" and "m = (aes_nr bits + 1) * 2"
  have c: "nk = 2 * n" "0 < n" "n \<le> m" "m \<le> 30" "(m - 1) div n < 14" "8 * n \<le> length key" "n \<le> 30"
    using assms(1,2) by (auto simp: nk_def n_def m_def aes_nr_def)
  let ?w = "map (\<lambda>i. u64_of_bytes (take 8 (drop (8 * i) key))) [0..<n] @ drop n (as_u64 rd')"
  let ?s = "(?w, ?w ! (n - 1), u32_of_bytes [1, 0, 0, 0])"
  let ?rd = "fold (\<lambda>i rd. rd[i := push_bit 24 (ucast (key ! (4 * i + 0))) OR push_bit 16 (ucast (key ! (4 * i + 1))) OR
      push_bit 8 (ucast (key ! (4 * i + 2))) OR ucast (key ! (4 * i + 3))]) [0..<2 * n] rd"
  have "schedule_agree n n ?s ?rd" using c assms(3,4) by (intro schedule_start) simp_all
  then have "schedule_agree n m (fold (key_expansion_step nk) [n..<m] ?s) (fold (aes_expand_step nk) [nk..<2 * m] ?rd)"
    by (rule schedule_fold[OF c(1-5)])
  moreover obtain w prev rcon where f: "fold (key_expansion_step nk) [n..<m] ?s = (w, prev, rcon)" by (cases "fold (key_expansion_step nk) [n..<m] ?s")
  ultimately have "key_agree (drop (4 * i) (fold (aes_expand_step nk) [nk..<2 * m] ?rd)) (drop (i * 2) w)"
    using schedule_keys[of n m w prev rcon _ i] assms(5) c(4) by (simp add: m_def)
  moreover have "aes_expand_key key (aes_nr bits) nk rd = fold (aes_expand_step nk) [nk..<2 * m] ?rd"
  proof -
    have "4 * (aes_nr bits + 1) = 2 * m" by (simp add: m_def)
    then show ?thesis by (simp only: aes_expand_key_def Let_def c(1))
  qed
  moreover have "openssl_key_expansion key (as_u64 rd') (aes_nr bits) nk = w"
    using f by (simp only: openssl_key_expansion_def n_def[symmetric] m_def[symmetric] Let_def case_prod_conv)
  ultimately show ?thesis by (simp only: nk_def)
qed

end
