(* ===== verification/Aes_Laws.thy ===== *)
theory Aes_Laws
  imports Aes_Equiv
begin

text \<open>
  What the AES interface promises: after \<open>muggle_aes_set_key\<close> with a key of 128, 192 or 256 bits, both builds compute the
  same block function, which depends on the key alone; decryption undoes encryption in every mode; and the byte-wise modes
  may be fed a message in pieces.
\<close>

section \<open>The loops only see whole blocks\<close>

lemma ecb_cong:
  assumes "\<And>b z. length b = bs \<Longrightarrow> f b z = g b z"
  shows "n * bs \<le> length xs \<Longrightarrow> ecb_blocks f bs n xs zs = ecb_blocks g bs n xs zs"
proof (induction n arbitrary: xs zs)
  case (Suc n)
  then show ?case using assms[of "take bs xs" "take bs zs"] Suc.IH[of "drop bs xs" "drop bs zs"] by (simp add: Let_def)
qed simp

lemma cbc_cong:
  assumes "\<And>b z. length b = bs \<Longrightarrow> f b z = g b z" "\<And>b z. length b = bs \<Longrightarrow> length (g b z) = bs"
  shows "n * bs \<le> length xs \<Longrightarrow> length iv = bs \<Longrightarrow> cbc_blocks f bs e n iv xs zs = cbc_blocks g bs e n iv xs zs"
proof (induction n arbitrary: iv xs zs)
  case (Suc n)
  have b: "length (take bs xs) = bs" using Suc.prems by simp
  then have x: "length (xor_bytes iv (take bs xs)) = bs" using Suc.prems by simp
  note IH = Suc.IH[of "drop bs xs" _ "drop bs zs"]
  show ?case using b x assms(1)[OF b] assms(1)[OF x] assms(2)[OF x] IH Suc.prems(1) by (cases e) (simp_all add: Let_def)
qed simp

lemma cfb_cong:
  assumes "\<And>b. length b = bs \<Longrightarrow> f b = g b" "\<And>b. length b = bs \<Longrightarrow> length (g b) = bs"
  shows "length iv = bs \<Longrightarrow> cfb_bytes f m e iv off xs = cfb_bytes g m e iv off xs"
proof (induction xs arbitrary: iv off)
  case (Cons x xs)
  show ?case using Cons.IH Cons.prems assms(1)[OF Cons.prems] assms(2)[OF Cons.prems] by (simp add: Let_def)
qed simp

lemma ofb_cong:
  assumes "\<And>b. length b = bs \<Longrightarrow> f b = g b" "\<And>b. length b = bs \<Longrightarrow> length (g b) = bs"
  shows "length iv = bs \<Longrightarrow> ofb_bytes f m iv off xs = ofb_bytes g m iv off xs"
proof (induction xs arbitrary: iv off)
  case (Cons x xs)
  then show ?case using assms(1)[OF Cons.prems] assms(2)[OF Cons.prems] by (simp add: Let_def)
qed simp

lemma ctr_cong:
  assumes "\<And>n. f (bytes n) = g (bytes n)"
  shows "ctr_bytes f inc bytes m nonce off st xs = ctr_bytes g inc bytes m nonce off st xs"
  by (induction xs arbitrary: nonce off st) (simp_all add: Let_def assms)

section \<open>One block\<close>

definition aes_schedule :: "bool \<Rightarrow> byte list \<Rightarrow> int \<Rightarrow> aes_subkeys \<Rightarrow> aes_subkeys" where
  "aes_schedule opt key bits sk =
    sk\<lparr>rounds := int (aes_nr bits), rd_key :=
      (if opt then as_u32 (openssl_key_expansion key (as_u64 (rd_key sk)) (aes_nr bits) (nat (bits div 32)))
       else aes_expand_key key (aes_nr bits) (nat (bits div 32)) (rd_key sk))\<rparr>"

text \<open>A key of a valid size, and a context with room for the key schedule.\<close>

definition aes_key_ok :: "byte list \<Rightarrow> int \<Rightarrow> bool" where
  "aes_key_ok key bits \<longleftrightarrow> (bits = 128 \<or> bits = 192 \<or> bits = 256) \<and> bits div 8 \<le> int (length key)"

definition aes_room :: "aes_subkeys \<Rightarrow> bool" where
  "aes_room sk \<longleftrightarrow> length (rd_key sk) = 60"

lemma aes_transpose_twice: "length s = 16 \<Longrightarrow> aes_transpose (aes_transpose s) = s"
  by (erule length_16E) (simp add: aes_transpose_def)

lemma length_transpose [simp]: "length (aes_transpose s) = 16"
  by (simp add: aes_transpose_def)

lemma length_cipher [simp]: "length (openssl_cipher b w nr) = 16" "length (openssl_inv_cipher b w nr) = 16"
proof -
  have l: "length st = 2 \<Longrightarrow> length (state_bytes st) = 16" for st
    by (auto simp: state_bytes_def length_Suc_conv numeral_2_eq_2)
  have f: "length (fold g is st) = 2" if "length st = 2" "\<And>i st. length st = 2 \<Longrightarrow> length (g i st) = 2" for g "is" and st :: "64 word list"
    using that by (induction "is" arbitrary: st) simp_all
  show "length (openssl_cipher b w nr) = 16" "length (openssl_inv_cipher b w nr) = 16"
    unfolding openssl_cipher_def openssl_inv_cipher_def Let_def by (rule l, simp add: f)+
qed

lemma aes_nr_cases: "aes_nr bits = 10 \<or> aes_nr bits = 12 \<or> aes_nr bits = 14"
  by (simp add: aes_nr_def)

text \<open>Both builds, whatever was in the context before, compute the same block function.\<close>

lemma aes_block_agree:
  assumes "aes_key_ok key bits" "aes_room sk" "aes_room sk'" "length b = 16" "op = MUGGLE_ENCRYPT \<or> op = MUGGLE_DECRYPT"
  shows "aes_block True op (aes_schedule True key bits sk) b z = aes_block False op (aes_schedule False key bits sk') b z'"
proof -
  let ?w = "openssl_key_expansion key (as_u64 (rd_key sk)) (aes_nr bits) (nat (bits div 32))"
  let ?sk = "aes_schedule False key bits sk'"
  have a: "key_agree (drop (4 * i) (rd_key ?sk)) (drop (i * 2) ?w)" if "i \<le> aes_nr bits" for i
    using key_schedules_agree[of bits key "rd_key sk'" "rd_key sk" i] assms(1-3) that
    by (simp add: aes_key_ok_def aes_room_def aes_schedule_def)
  have r: "rounds ?sk = int (aes_nr bits)" by (simp add: aes_schedule_def)
  note e = openssl_cipher_rows[OF assms(4) r aes_nr_cases a] openssl_inv_cipher_rows[OF assms(4) r aes_nr_cases a]
  show ?thesis using assms(5)
    by (auto simp: aes_block_def muggle_aes_crypt_def muggle_openssl_aes_encrypt_def muggle_openssl_aes_decrypt_def e
        aes_schedule_def[of True] as_u64_as_u32 aes_transpose_twice crypt_op_defs)
qed

definition zero_sk :: aes_subkeys where
  "zero_sk = \<lparr>rd_key = replicate 60 0, rounds = 0\<rparr>"

definition ref_block :: "int \<Rightarrow> byte list \<Rightarrow> int \<Rightarrow> byte list \<Rightarrow> byte list" where
  "ref_block op key bits b = aes_block False op (aes_schedule False key bits zero_sk) b []"

lemma aes_block_ref:
  assumes "aes_key_ok key bits" "aes_room sk" "length b = 16" "op = MUGGLE_ENCRYPT \<or> op = MUGGLE_DECRYPT"
  shows "aes_block opt op (aes_schedule opt key bits sk) b z = ref_block op key bits b"
proof -
  have z: "aes_room zero_sk" by (simp add: aes_room_def zero_sk_def)
  show ?thesis
  proof (cases opt)
    case True
    then show ?thesis using aes_block_agree[OF assms(1,2) z assms(3,4)] by (simp add: ref_block_def)
  next
    case False
    have "aes_block False op (aes_schedule False key bits sk) b z = aes_block True op (aes_schedule True key bits zero_sk) b []"
      by (rule aes_block_agree[OF assms(1) z assms(2-4), symmetric])
    also have "\<dots> = ref_block op key bits b" unfolding ref_block_def by (rule aes_block_agree[OF assms(1) z z assms(3,4)])
    finally show ?thesis using False by simp
  qed
qed

lemma aes_block_internal_inverse:
  assumes "length b = 16" "rounds sk \<in> {10, 12, 14}"
  shows "aes_block False MUGGLE_DECRYPT sk (aes_block False MUGGLE_ENCRYPT sk b z) z' = b"
proof -
  have l: "length (snd (muggle_aes_encrypt (aes_transpose b) sk)) = 16"
    using assms(2) by (auto simp: muggle_aes_encrypt_def Let_def)
  show ?thesis using decrypt_encrypt[OF length_transpose assms(2), of b] l assms(1)
    by (auto simp: aes_block_def muggle_aes_crypt_def crypt_op_defs aes_transpose_twice split: prod.splits)
qed

lemma ref_block_laws:
  assumes "length b = 16"
  shows "length (ref_block MUGGLE_ENCRYPT key bits b) = 16"
    and "length (ref_block MUGGLE_DECRYPT key bits b) = 16"
    and "ref_block MUGGLE_DECRYPT key bits (ref_block MUGGLE_ENCRYPT key bits b) = b"
  using aes_block_internal_inverse[OF assms, of "aes_schedule False key bits zero_sk" "[]" "[]"]
  by (auto simp: ref_block_def aes_schedule_def aes_nr_def aes_block_def muggle_aes_crypt_def crypt_op_defs split: prod.splits)

text \<open>AES is a block cipher in the sense of the modes; a key is the build, the key bytes, its size and the old context.\<close>

interpretation aes: block_cipher 16
  "\<lambda>(opt, key, bits, sk). aes_key_ok key bits \<and> aes_room sk"
  "\<lambda>(opt, key, bits, sk). aes_block opt MUGGLE_ENCRYPT (aes_schedule opt key bits sk)"
  "\<lambda>(opt, key, bits, sk). aes_block opt MUGGLE_DECRYPT (aes_schedule opt key bits sk)"
  by unfold_locales (auto simp: aes_block_ref ref_block_laws)

section \<open>Contexts\<close>

lemma set_key_ok:
  "muggle_aes_set_key opt op mode (Some key) bits (Some c) = (MUGGLE_OK, Some ctx) \<longleftrightarrow>
   (op = MUGGLE_ENCRYPT \<or> op = MUGGLE_DECRYPT) \<and> 0 \<le> mode \<and> mode < 5 \<and> (bits = 128 \<or> bits = 192 \<or> bits = 256) \<and>
   ctx = c\<lparr>ctx_op := op, ctx_mode := mode, ctx_sk := aes_schedule opt key bits (ctx_sk c)\<rparr>"
  by (auto simp: muggle_aes_set_key_def muggle_openssl_aes_set_key_def aes_schedule_def aes_nr_def crypt_op_defs crypt_mode_defs
      Let_def split: if_splits)

text \<open>A context that was set up for \<open>op\<close> and \<open>mode\<close> with a key.\<close>

definition aes_ready :: "bool \<Rightarrow> int \<Rightarrow> int \<Rightarrow> byte list \<Rightarrow> int \<Rightarrow> aes_context \<Rightarrow> bool" where
  "aes_ready opt op mode key bits ctx \<longleftrightarrow> bits div 8 \<le> int (length key) \<and>
    (\<exists>c. length (rd_key (ctx_sk c)) = 60 \<and> muggle_aes_set_key opt op mode (Some key) bits (Some c) = (MUGGLE_OK, Some ctx))"

lemma aes_readyD:
  assumes "aes_ready opt op mode key bits ctx"
  obtains sk where "aes_key_ok key bits" "aes_room sk" "ctx_op ctx = op" "ctx_mode ctx = mode" "ctx_sk ctx = aes_schedule opt key bits sk"
    "op = MUGGLE_ENCRYPT \<or> op = MUGGLE_DECRYPT"
  using assms unfolding aes_ready_def set_key_ok by (auto simp: aes_key_ok_def aes_room_def)

lemma aes_ready_block:
  assumes "aes_ready opt op mode key bits ctx" "length b = 16" "op' = MUGGLE_ENCRYPT \<or> op' = MUGGLE_DECRYPT"
  shows "aes_block opt op' (ctx_sk ctx) b z = ref_block op' key bits b"
  using assms by (auto elim!: aes_readyD intro!: aes_block_ref)

section \<open>The modes, in terms of the block function of the key\<close>

lemma multiple_16: "(ROUND_UP_POW_OF_2_MUL n 16 = n) = (16 dvd unat n)"
  using round_up_multiple[of 4 n] by simp

lemma ref_length: "op = MUGGLE_ENCRYPT \<or> op = MUGGLE_DECRYPT \<Longrightarrow> length b = 16 \<Longrightarrow> length (ref_block op key bits b) = 16"
  using ref_block_laws(1,2) by blast

lemma aes_ecb_ref:
  assumes "aes_ready opt op MUGGLE_BLOCK_CIPHER_MODE_ECB key bits ctx" "16 dvd unat n" "unat n \<le> length xs"
  shows "muggle_aes_ecb opt (Some ctx) (Some xs) n (Some zs) =
    (MUGGLE_OK, Some (ecb_blocks (\<lambda>b z. ref_block op key bits b) 16 (unat n div 16) xs zs))"
proof -
  obtain sk where c: "ctx_op ctx = op" "ctx_mode ctx = MUGGLE_BLOCK_CIPHER_MODE_ECB" "op = MUGGLE_ENCRYPT \<or> op = MUGGLE_DECRYPT"
    using assms(1) by (rule aes_readyD)
  have "ecb_blocks (aes_block opt op (ctx_sk ctx)) 16 (unat n div 16) xs zs =
      ecb_blocks (\<lambda>b z. ref_block op key bits b) 16 (unat n div 16) xs zs"
    using assms(2,3) aes_ready_block[OF assms(1) _ c(3)] by (intro ecb_cong) auto
  then show ?thesis using c assms(2) by (simp add: muggle_aes_ecb_def multiple_16)
qed

lemma aes_cbc_ref:
  assumes "aes_ready opt op MUGGLE_BLOCK_CIPHER_MODE_CBC key bits ctx" "16 dvd unat n" "unat n \<le> length xs" "length iv = 16"
  shows "muggle_aes_cbc opt (Some ctx) (Some xs) n (Some iv) (Some zs) =
    (let (iv', ys) = cbc_blocks (\<lambda>b z. ref_block op key bits b) 16 (op = MUGGLE_ENCRYPT) (unat n div 16) iv xs zs
     in (MUGGLE_OK, Some iv', Some ys))"
proof -
  obtain sk where c: "ctx_op ctx = op" "ctx_mode ctx = MUGGLE_BLOCK_CIPHER_MODE_CBC" "op = MUGGLE_ENCRYPT \<or> op = MUGGLE_DECRYPT"
    using assms(1) by (rule aes_readyD)
  have "cbc_blocks (aes_block opt op (ctx_sk ctx)) 16 (op = MUGGLE_ENCRYPT) (unat n div 16) iv xs zs =
      cbc_blocks (\<lambda>b z. ref_block op key bits b) 16 (op = MUGGLE_ENCRYPT) (unat n div 16) iv xs zs"
    using assms(2-4) aes_ready_block[OF assms(1) _ c(3)] ref_length[OF c(3)] by (intro cbc_cong) auto
  then show ?thesis using c assms(2) by (cases "op = MUGGLE_ENCRYPT") (simp_all add: muggle_aes_cbc_def multiple_16 Let_def)
qed

lemma aes_cfb_ref:
  assumes "aes_ready opt op MUGGLE_BLOCK_CIPHER_MODE_CFB key bits ctx" "length iv = 16" "off < 16"
  shows "muggle_aes_cfb128 opt (Some ctx) (Some xs) n (Some iv) (Some off) (Some zs) =
    (let (iv', off', ys) = cfb_bytes (ref_block MUGGLE_ENCRYPT key bits) 0x0f (op = MUGGLE_ENCRYPT) iv (unat off) (take (unat n) xs)
     in Some (MUGGLE_OK, Some iv', Some (of_nat off'), Some (ys @ drop (unat n) zs)))"
proof -
  obtain sk where c: "ctx_op ctx = op" "ctx_mode ctx = MUGGLE_BLOCK_CIPHER_MODE_CFB" "op = MUGGLE_ENCRYPT \<or> op = MUGGLE_DECRYPT"
    using assms(1) by (rule aes_readyD)
  have "cfb_bytes (\<lambda>b. aes_block opt MUGGLE_ENCRYPT (ctx_sk ctx) b b) m e iv o1 ys = cfb_bytes (ref_block MUGGLE_ENCRYPT key bits) m e iv o1 ys" for m e o1 ys
    by (rule cfb_cong[where bs = 16]) (simp_all add: aes_ready_block[OF assms(1)] ref_block_laws assms(2))
  then show ?thesis using c assms(3) by (cases "op = MUGGLE_ENCRYPT") (simp_all add: muggle_aes_cfb128_def Let_def)
qed

lemma aes_ofb_ref:
  assumes "aes_ready opt op MUGGLE_BLOCK_CIPHER_MODE_OFB key bits ctx" "length iv = 16" "off < 16"
  shows "muggle_aes_ofb128 opt (Some ctx) (Some xs) n (Some iv) (Some off) (Some zs) =
    (let (iv', off', ys) = ofb_bytes (ref_block MUGGLE_ENCRYPT key bits) 0x0f iv (unat off) (take (unat n) xs)
     in Some (MUGGLE_OK, Some iv', Some (of_nat off'), Some (ys @ drop (unat n) zs)))"
proof -
  obtain sk where c: "ctx_op ctx = op" "ctx_mode ctx = MUGGLE_BLOCK_CIPHER_MODE_OFB" "op = MUGGLE_ENCRYPT \<or> op = MUGGLE_DECRYPT"
    using assms(1) by (rule aes_readyD)
  have "ofb_bytes (\<lambda>b. aes_block opt MUGGLE_ENCRYPT (ctx_sk ctx) b b) m iv o1 ys = ofb_bytes (ref_block MUGGLE_ENCRYPT key bits) m iv o1 ys" for m o1 ys
    by (rule ofb_cong[where bs = 16]) (simp_all add: aes_ready_block[OF assms(1)] ref_block_laws assms(2))
  then show ?thesis using c assms(3) by (cases "op = MUGGLE_ENCRYPT") (simp_all add: muggle_aes_ofb128_def Let_def)
qed

text \<open>The counter mode, for a pointer to the counter that may be NULL, and for one that is not.\<close>

lemma aes_ctr_ptr_ref:
  assumes "aes_ready opt op MUGGLE_BLOCK_CIPHER_MODE_CTR key bits ctx" "off < 16"
  shows "muggle_aes_ctr opt (Some ctx) (Some xs) n nonce (Some off) (Some st) (Some zs) =
    (if nonce = None \<and> aes_ctr_steps (unat off) (unat n) then None
     else let (nonce', off', st', ys) = ctr_bytes (ref_block MUGGLE_ENCRYPT key bits) (map_option aes_nonce_next)
                (\<lambda>nonce. aes_nonce_bytes (the nonce)) 0x0f nonce (unat off) st (take (unat n) xs)
          in Some (MUGGLE_OK, nonce', Some (of_nat off'), Some st', Some (ys @ drop (unat n) zs)))"
proof -
  obtain sk where c: "ctx_op ctx = op" "ctx_mode ctx = MUGGLE_BLOCK_CIPHER_MODE_CTR" "op = MUGGLE_ENCRYPT \<or> op = MUGGLE_DECRYPT"
    using assms(1) by (rule aes_readyD)
  have "ctr_bytes (\<lambda>b. aes_block opt MUGGLE_ENCRYPT (ctx_sk ctx) b z) inc (\<lambda>nonce. aes_nonce_bytes (the nonce)) m nonce o1 st ys =
      ctr_bytes (ref_block MUGGLE_ENCRYPT key bits) inc (\<lambda>nonce. aes_nonce_bytes (the nonce)) m nonce o1 st ys" for inc m o1 ys z
    by (rule ctr_cong) (simp add: aes_ready_block[OF assms(1)] aes_nonce_bytes_def case_prod_beta)
  then show ?thesis using c assms(2) by (cases "op = MUGGLE_ENCRYPT") (simp_all add: muggle_aes_ctr_def Let_def)
qed

lemma ctr_bytes_Some:
  "ctr_bytes f (map_option inc) (\<lambda>k. g (the k)) m (Some k) off st xs =
    (let (k', off', st', ys) = ctr_bytes f inc g m k off st xs in (Some k', off', st', ys))"
  by (induction xs arbitrary: k off st) (simp_all add: Let_def case_prod_beta)

lemma aes_ctr_ref:
  assumes "aes_ready opt op MUGGLE_BLOCK_CIPHER_MODE_CTR key bits ctx" "off < 16"
  shows "muggle_aes_ctr opt (Some ctx) (Some xs) n (Some nonce) (Some off) (Some st) (Some zs) =
    (let (nonce', off', st', ys) = ctr_bytes (ref_block MUGGLE_ENCRYPT key bits) aes_nonce_next aes_nonce_bytes 0x0f nonce
       (unat off) st (take (unat n) xs)
     in Some (MUGGLE_OK, Some nonce', Some (of_nat off'), Some st', Some (ys @ drop (unat n) zs)))"
  by (simp add: aes_ctr_ptr_ref[OF assms] ctr_bytes_Some case_prod_beta Let_def)

lemma next_offset: "(off + 1) AND 0x0f = (off + 1) mod (16 :: nat)"
  using take_bit_eq_mask[of 4 "off + 1"] by (simp add: take_bit_eq_mod mask_eq_exp_minus_1)

lemma aes_ctr_steps_iff: "off < 16 \<Longrightarrow> aes_ctr_steps off n = (off = 0 \<and> n \<noteq> 0 \<or> 16 < off + n)"
proof (induction n arbitrary: off)
  case (Suc n)
  show ?case
  proof (cases "off = 15")
    case True
    then show ?thesis using Suc.IH[of 0] by (auto simp: next_offset simp del: One_nat_def)
  next
    case False
    then have "(off + 1) mod 16 = off + 1" using Suc.prems by simp
    then show ?thesis using Suc.IH[of "off + 1"] Suc.prems False by (auto simp: next_offset simp del: One_nat_def)
  qed
qed simp

section \<open>Properties\<close>

interpretation key_cipher: block_cipher 16 "\<lambda>_. True"
  "\<lambda>(key, bits) b z. ref_block MUGGLE_ENCRYPT key bits b" "\<lambda>(key, bits) b z. ref_block MUGGLE_DECRYPT key bits b"
  by unfold_locales (auto simp: ref_block_laws)

lemma length_ecb:
  assumes "\<And>b z. length b = bs \<Longrightarrow> length (f b z) = bs"
  shows "n * bs \<le> length xs \<Longrightarrow> n * bs \<le> length zs \<Longrightarrow> length (ecb_blocks f bs n xs zs) = length zs"
proof (induction n arbitrary: xs zs)
  case (Suc n)
  then show ?case using assms[of "take bs xs"] Suc.IH[of "drop bs xs" "drop bs zs"] by (simp add: Let_def)
qed simp

lemma length_cbc:
  assumes "\<And>b z. length b = bs \<Longrightarrow> length (f b z) = bs"
  shows "n * bs \<le> length xs \<Longrightarrow> n * bs \<le> length zs \<Longrightarrow> length iv = bs \<Longrightarrow>
    cbc_blocks f bs e n iv xs zs = (iv', ys) \<Longrightarrow> length ys = length zs"
proof (induction n arbitrary: iv xs zs ys)
  case (Suc n)
  have b: "length (take bs xs) = bs" using Suc.prems by simp
  then have x: "length (xor_bytes iv (take bs xs)) = bs" using Suc.prems by simp
  obtain iv1 o1 where io: "(if e then let iv = xor_bytes iv (take bs xs); ob = f iv (take bs zs) in (ob, ob)
      else let ob = xor_bytes (f (take bs xs) (take bs zs)) iv in (take bs xs, ob)) = (iv1, o1)" by fastforce
  then have l: "length iv1 = bs" "length o1 = bs" using b x assms Suc.prems(3) by (auto simp: Let_def split: if_splits)
  obtain us where us: "cbc_blocks f bs e n iv1 (drop bs xs) (drop bs zs) = (iv', us)" "ys = o1 @ us"
    using Suc.prems(4) io by (auto simp: Let_def split: prod.splits)
  have "length us = length (drop bs zs)" using Suc.prems l(1) by (intro Suc.IH[OF _ _ _ us(1)]) simp_all
  then show ?case using us(2) l(2) Suc.prems(2) by simp
qed simp

text \<open>C27. The two builds agree. After setting up the same key, of any of the three sizes, the optimised AES and the
  reference one compute the same in every mode: the same result code, the same output, and the same vectors, counters and
  offsets for the next call, for any length and any offset, with NULL pointers as well.\<close>

theorem aes_builds_agree:
  assumes "aes_ready True op mode key bits c1" "aes_ready False op mode key bits c2" "unat n \<le> length xs" "length iv = 16"
  shows "muggle_aes_ecb True (Some c1) (Some xs) n out = muggle_aes_ecb False (Some c2) (Some xs) n out \<and>
    muggle_aes_cbc True (Some c1) (Some xs) n (Some iv) out = muggle_aes_cbc False (Some c2) (Some xs) n (Some iv) out \<and>
    muggle_aes_cfb128 True (Some c1) (Some xs) n (Some iv) off out = muggle_aes_cfb128 False (Some c2) (Some xs) n (Some iv) off out \<and>
    muggle_aes_ofb128 True (Some c1) (Some xs) n (Some iv) off out = muggle_aes_ofb128 False (Some c2) (Some xs) n (Some iv) off out \<and>
    muggle_aes_ctr True (Some c1) (Some xs) n nonce noff st out = muggle_aes_ctr False (Some c2) (Some xs) n nonce noff st out"
proof (intro conjI)
  have m: "ctx_mode c1 = mode" "ctx_mode c2 = mode" using assms(1,2) by (auto elim: aes_readyD)
  show "muggle_aes_ecb True (Some c1) (Some xs) n out = muggle_aes_ecb False (Some c2) (Some xs) n out"
    using aes_ecb_ref[of True op key bits c1 n xs] aes_ecb_ref[of False op key bits c2 n xs] assms m
    by (cases "mode = MUGGLE_BLOCK_CIPHER_MODE_ECB"; cases "16 dvd unat n"; cases out) (simp_all add: muggle_aes_ecb_def multiple_16)
  show "muggle_aes_cbc True (Some c1) (Some xs) n (Some iv) out = muggle_aes_cbc False (Some c2) (Some xs) n (Some iv) out"
    using aes_cbc_ref[of True op key bits c1 n xs iv] aes_cbc_ref[of False op key bits c2 n xs iv] assms m
    by (cases "mode = MUGGLE_BLOCK_CIPHER_MODE_CBC"; cases "16 dvd unat n"; cases out) (simp_all add: muggle_aes_cbc_def multiple_16)
  show "muggle_aes_cfb128 True (Some c1) (Some xs) n (Some iv) off out = muggle_aes_cfb128 False (Some c2) (Some xs) n (Some iv) off out"
    using aes_cfb_ref[of True op key bits c1 iv "the off" xs n] aes_cfb_ref[of False op key bits c2 iv "the off" xs n] assms m
    by (cases "mode = MUGGLE_BLOCK_CIPHER_MODE_CFB"; cases off; cases "the off < 16"; cases out) (simp_all add: muggle_aes_cfb128_def)
  show "muggle_aes_ofb128 True (Some c1) (Some xs) n (Some iv) off out = muggle_aes_ofb128 False (Some c2) (Some xs) n (Some iv) off out"
    using aes_ofb_ref[of True op key bits c1 iv "the off" xs n] aes_ofb_ref[of False op key bits c2 iv "the off" xs n] assms m
    by (cases "mode = MUGGLE_BLOCK_CIPHER_MODE_OFB"; cases off; cases "the off < 16"; cases out) (simp_all add: muggle_aes_ofb128_def)
  show "muggle_aes_ctr True (Some c1) (Some xs) n nonce noff st out = muggle_aes_ctr False (Some c2) (Some xs) n nonce noff st out"
    using aes_ctr_ptr_ref[of True op key bits c1 "the noff" xs n nonce "the st"] aes_ctr_ptr_ref[of False op key bits c2 "the noff" xs n nonce "the st"] assms m
    by (cases "mode = MUGGLE_BLOCK_CIPHER_MODE_CTR"; cases noff; cases "the noff < 16"; cases st; cases out) (simp_all add: muggle_aes_ctr_def)
qed

text \<open>The demonstration key of FIPS-197, and contexts set up with it.\<close>

definition demo_key :: "byte list" where
  "demo_key = [0, 1, 2, 3, 4, 5, 6, 7, 8, 9, 10, 11, 12, 13, 14, 15]"

definition demo_plain :: "byte list" where
  "demo_plain = [0x00, 0x11, 0x22, 0x33, 0x44, 0x55, 0x66, 0x77, 0x88, 0x99, 0xaa, 0xbb, 0xcc, 0xdd, 0xee, 0xff]"

definition demo_ctx :: "bool \<Rightarrow> int \<Rightarrow> int \<Rightarrow> aes_context" where
  "demo_ctx opt op mode = the (snd (muggle_aes_set_key opt op mode (Some demo_key) 128 (Some \<lparr>ctx_op = 0, ctx_mode = 0, ctx_sk = zero_sk\<rparr>)))"

lemma demo_ready:
  assumes "op = MUGGLE_ENCRYPT \<or> op = MUGGLE_DECRYPT" "0 \<le> mode" "mode < 5"
  shows "aes_ready opt op mode demo_key 128 (demo_ctx opt op mode)"
proof -
  let ?c = "\<lparr>ctx_op = 0, ctx_mode = 0, ctx_sk = zero_sk\<rparr>"
  have "muggle_aes_set_key opt op mode (Some demo_key) 128 (Some ?c) =
      (MUGGLE_OK, Some (?c\<lparr>ctx_op := op, ctx_mode := mode, ctx_sk := aes_schedule opt demo_key 128 (ctx_sk ?c)\<rparr>))"
    unfolding set_key_ok using assms by simp
  then show ?thesis unfolding aes_ready_def demo_ctx_def
    by (intro conjI exI[of _ ?c]) (simp_all add: demo_key_def zero_sk_def)
qed

lemmas demo_facts = demo_ready[unfolded crypt_op_defs] demo_plain_def

theorem aes_builds_agree_witness:
  "muggle_aes_ecb True (Some (demo_ctx True 1 0)) (Some demo_plain) 16 (Some (replicate 16 0)) =
   muggle_aes_ecb False (Some (demo_ctx False 1 0)) (Some demo_plain) 16 (Some (replicate 16 0))"
  by (rule aes_builds_agree[where iv = "replicate 16 0" and op = 1 and mode = 0 and key = demo_key and bits = 128, THEN conjunct1])
    (simp_all add: demo_facts)

text \<open>C28. Decryption undoes encryption in the block modes. A message of whole blocks, encrypted by ECB or CBC and then
  decrypted with a context set up with the same key and (in CBC) the same initial vector, is the message again, and the
  rest of the output buffer is untouched; both directions may use either build.\<close>

theorem aes_block_modes_roundtrip:
  assumes "aes_ready opt MUGGLE_ENCRYPT mode key bits e" "aes_ready opt' MUGGLE_DECRYPT mode key bits d"
    and "length xs = unat n" "16 dvd unat n" "unat n \<le> length zs" "unat n \<le> length zs'" "length iv = 16"
  shows "(mode = MUGGLE_BLOCK_CIPHER_MODE_ECB \<longrightarrow>
      (\<exists>ys. muggle_aes_ecb opt (Some e) (Some xs) n (Some zs) = (MUGGLE_OK, Some ys) \<and>
        muggle_aes_ecb opt' (Some d) (Some ys) n (Some zs') = (MUGGLE_OK, Some (xs @ drop (unat n) zs')))) \<and>
    (mode = MUGGLE_BLOCK_CIPHER_MODE_CBC \<longrightarrow>
      (\<exists>iv' ys. muggle_aes_cbc opt (Some e) (Some xs) n (Some iv) (Some zs) = (MUGGLE_OK, Some iv', Some ys) \<and>
        muggle_aes_cbc opt' (Some d) (Some ys) n (Some iv) (Some zs') = (MUGGLE_OK, Some iv', Some (xs @ drop (unat n) zs'))))"
proof -
  have n: "unat n div 16 * 16 = unat n" using assms(4) by simp
  let ?E = "\<lambda>b z. ref_block MUGGLE_ENCRYPT key bits b" and ?D = "\<lambda>b z. ref_block MUGGLE_DECRYPT key bits b"
  have l: "length (?E b z) = 16" if "length b = 16" for b and z :: "byte list" using that by (simp add: ref_block_laws)
  have ecb: ?thesis if m: "mode = MUGGLE_BLOCK_CIPHER_MODE_ECB"
  proof -
    define ys where "ys = ecb_blocks ?E 16 (unat n div 16) xs zs"
    have ys: "length ys = length zs" unfolding ys_def using assms(3,5) n l by (intro length_ecb) simp_all
    have r: "ecb_blocks ?D 16 (unat n div 16) ys zs' = xs @ drop (unat n) zs'"
      using key_cipher.ecb_roundtrip[where k = "(key, bits)" and xs = xs and n = "unat n div 16" and zs = zs and zs' = zs'] assms(3,5,6) n by (simp add: ys_def)
    show ?thesis using aes_ecb_ref[OF assms(1)[unfolded m] assms(4), of xs zs] aes_ecb_ref[OF assms(2)[unfolded m] assms(4), of ys zs']
      assms(3,5) ys r m by (simp add: ys_def[symmetric] crypt_mode_defs)
  qed
  have cbc: ?thesis if m: "mode = MUGGLE_BLOCK_CIPHER_MODE_CBC"
  proof -
    obtain iv' ys where y: "cbc_blocks ?E 16 True (unat n div 16) iv xs zs = (iv', ys)" by (rule prod.exhaust)
    have ys: "length ys = length zs" using l assms(3,5,7) n by (intro length_cbc[OF _ _ _ _ y]) simp_all
    have r: "cbc_blocks ?D 16 False (unat n div 16) iv ys zs' = (iv', xs @ drop (unat n) zs')"
      using key_cipher.cbc_roundtrip[where k = "(key, bits)" and iv = iv and xs = xs and n = "unat n div 16" and zs = zs and zs' = zs'] y assms(3,5,6,7) n by simp
    show ?thesis using aes_cbc_ref[OF assms(1)[unfolded m] assms(4) _ assms(7), of xs zs] aes_cbc_ref[OF assms(2)[unfolded m] assms(4) _ assms(7), of ys zs']
      assms(3,5) y ys r m by (simp add: crypt_mode_defs crypt_op_defs)
  qed
  show ?thesis using ecb cbc by blast
qed

theorem aes_block_modes_roundtrip_witness:
  "\<exists>iv' ys. muggle_aes_cbc True (Some (demo_ctx True 1 1)) (Some (demo_plain @ demo_plain)) 32 (Some (replicate 16 7)) (Some (replicate 32 0)) =
      (MUGGLE_OK, Some iv', Some ys) \<and>
    muggle_aes_cbc True (Some (demo_ctx True 0 1)) (Some ys) 32 (Some (replicate 16 7)) (Some (replicate 33 9)) =
      (MUGGLE_OK, Some iv', Some (demo_plain @ demo_plain @ [9]))"
proof -
  have r: "aes_ready True MUGGLE_ENCRYPT 1 demo_key 128 (demo_ctx True 1 1)" "aes_ready True MUGGLE_DECRYPT 1 demo_key 128 (demo_ctx True 0 1)"
    using demo_ready[of MUGGLE_ENCRYPT 1 True] demo_ready[of MUGGLE_DECRYPT 1 True] by (simp_all add: crypt_op_defs)
  have l: "length (demo_plain @ demo_plain) = unat (32 :: 32 word)" by (simp add: demo_plain_def)
  have "(1 :: int) = MUGGLE_BLOCK_CIPHER_MODE_CBC" by (simp add: crypt_mode_defs)
  then show ?thesis
    using aes_block_modes_roundtrip[OF r l, of "replicate 32 0" "replicate 33 9" "replicate 16 7"] by (simp add: drop_replicate)
qed

text \<open>C29. The byte-wise modes are undone by running them again. A message of any length, encrypted by CFB, OFB or CTR from a
  vector or counter and an offset, and decrypted from the same ones, is the message again, both sides end in the same state,
  and nothing past the message is written.\<close>

theorem aes_stream_modes_roundtrip:
  assumes "aes_ready opt MUGGLE_ENCRYPT mode key bits e" "aes_ready opt' MUGGLE_DECRYPT mode key bits d"
    and "length xs = unat n" "length iv = 16" "off < 16"
  shows "(mode = MUGGLE_BLOCK_CIPHER_MODE_CFB \<longrightarrow> (\<exists>iv' off' ys.
      muggle_aes_cfb128 opt (Some e) (Some xs) n (Some iv) (Some off) (Some zs) = Some (MUGGLE_OK, Some iv', Some off', Some (ys @ drop (unat n) zs)) \<and>
      muggle_aes_cfb128 opt' (Some d) (Some ys) n (Some iv) (Some off) (Some zs') = Some (MUGGLE_OK, Some iv', Some off', Some (xs @ drop (unat n) zs')))) \<and>
    (mode = MUGGLE_BLOCK_CIPHER_MODE_OFB \<longrightarrow> (\<exists>iv' off' ys.
      muggle_aes_ofb128 opt (Some e) (Some xs) n (Some iv) (Some off) (Some zs) = Some (MUGGLE_OK, Some iv', Some off', Some (ys @ drop (unat n) zs)) \<and>
      muggle_aes_ofb128 opt' (Some d) (Some ys) n (Some iv) (Some off) (Some zs') = Some (MUGGLE_OK, Some iv', Some off', Some (xs @ drop (unat n) zs')))) \<and>
    (mode = MUGGLE_BLOCK_CIPHER_MODE_CTR \<longrightarrow> (\<exists>nonce' off' st' ys.
      muggle_aes_ctr opt (Some e) (Some xs) n (Some nonce) (Some off) (Some st) (Some zs) =
        Some (MUGGLE_OK, Some nonce', Some off', Some st', Some (ys @ drop (unat n) zs)) \<and>
      muggle_aes_ctr opt' (Some d) (Some ys) n (Some nonce) (Some off) (Some st) (Some zs') =
        Some (MUGGLE_OK, Some nonce', Some off', Some st', Some (xs @ drop (unat n) zs'))))"
proof (intro conjI impI)
  let ?E = "ref_block MUGGLE_ENCRYPT key bits"
  have en: "MUGGLE_DECRYPT \<noteq> MUGGLE_ENCRYPT" by (simp add: crypt_op_defs)
  {
    assume m: "mode = MUGGLE_BLOCK_CIPHER_MODE_CFB"
    obtain iv' o' ys where y: "cfb_bytes ?E 0x0f True iv (unat off) xs = (iv', o', ys)" by (metis prod.exhaust)
    have "length ys = unat n" using length_cfb[of ?E "0x0f" True iv "unat off" xs] y assms(3) by simp
    then show "\<exists>iv' off' ys.
      muggle_aes_cfb128 opt (Some e) (Some xs) n (Some iv) (Some off) (Some zs) = Some (MUGGLE_OK, Some iv', Some off', Some (ys @ drop (unat n) zs)) \<and>
      muggle_aes_cfb128 opt' (Some d) (Some ys) n (Some iv) (Some off) (Some zs') = Some (MUGGLE_OK, Some iv', Some off', Some (xs @ drop (unat n) zs'))"
      using aes_cfb_ref[OF assms(1)[unfolded m] assms(4,5), of xs n zs] aes_cfb_ref[OF assms(2)[unfolded m] assms(4,5), of ys n zs']
        cfb_roundtrip[OF y] y en assms(3) by simp
  }
  {
    assume m: "mode = MUGGLE_BLOCK_CIPHER_MODE_OFB"
    obtain iv' o' ys where y: "ofb_bytes ?E 0x0f iv (unat off) xs = (iv', o', ys)" by (metis prod.exhaust)
    have "length ys = unat n" using length_ofb[of ?E "0x0f" iv "unat off" xs] y assms(3) by simp
    then show "\<exists>iv' off' ys.
      muggle_aes_ofb128 opt (Some e) (Some xs) n (Some iv) (Some off) (Some zs) = Some (MUGGLE_OK, Some iv', Some off', Some (ys @ drop (unat n) zs)) \<and>
      muggle_aes_ofb128 opt' (Some d) (Some ys) n (Some iv) (Some off) (Some zs') = Some (MUGGLE_OK, Some iv', Some off', Some (xs @ drop (unat n) zs'))"
      using aes_ofb_ref[OF assms(1)[unfolded m] assms(4,5), of xs n zs] aes_ofb_ref[OF assms(2)[unfolded m] assms(4,5), of ys n zs']
        ofb_roundtrip[OF y] y assms(3) by simp
  }
  {
    assume m: "mode = MUGGLE_BLOCK_CIPHER_MODE_CTR"
    obtain nonce' o' st' ys where y: "ctr_bytes ?E aes_nonce_next aes_nonce_bytes 0x0f nonce (unat off) st xs = (nonce', o', st', ys)"
      by (metis prod.exhaust)
    have "length ys = unat n" using length_ctr[of ?E aes_nonce_next aes_nonce_bytes "0x0f" nonce "unat off" st xs] y assms(3) by simp
    then show "\<exists>nonce' off' st' ys.
      muggle_aes_ctr opt (Some e) (Some xs) n (Some nonce) (Some off) (Some st) (Some zs) =
        Some (MUGGLE_OK, Some nonce', Some off', Some st', Some (ys @ drop (unat n) zs)) \<and>
      muggle_aes_ctr opt' (Some d) (Some ys) n (Some nonce) (Some off) (Some st) (Some zs') =
        Some (MUGGLE_OK, Some nonce', Some off', Some st', Some (xs @ drop (unat n) zs'))"
      using aes_ctr_ref[OF assms(1)[unfolded m] assms(5), of xs n nonce st zs] aes_ctr_ref[OF assms(2)[unfolded m] assms(5), of ys n nonce st zs']
        ctr_roundtrip[OF y] y assms(3) by simp
  }
qed

theorem aes_stream_modes_roundtrip_witness:
  "\<exists>iv' off' ys.
    muggle_aes_cfb128 True (Some (demo_ctx True 1 2)) (Some [1, 2, 3]) 3 (Some (replicate 16 7)) (Some 15) (Some [0, 0, 0]) =
      Some (MUGGLE_OK, Some iv', Some off', Some ys) \<and>
    muggle_aes_cfb128 True (Some (demo_ctx True 0 2)) (Some ys) 3 (Some (replicate 16 7)) (Some 15) (Some [9, 9, 9, 9]) =
      Some (MUGGLE_OK, Some iv', Some off', Some [1, 2, 3, 9])"
proof -
  have r: "aes_ready True MUGGLE_ENCRYPT 2 demo_key 128 (demo_ctx True 1 2)" "aes_ready True MUGGLE_DECRYPT 2 demo_key 128 (demo_ctx True 0 2)"
    using demo_ready[of MUGGLE_ENCRYPT 2 True] demo_ready[of MUGGLE_DECRYPT 2 True] by (simp_all add: crypt_op_defs)
  have l: "length [1, 2, 3 :: byte] = unat (3 :: 32 word)" by simp
  have "(2 :: int) = MUGGLE_BLOCK_CIPHER_MODE_CFB" by (simp add: crypt_mode_defs)
  then show ?thesis
    using aes_stream_modes_roundtrip[OF r l, of "replicate 16 7" 15 "[0, 0, 0]" "[9, 9, 9, 9]"] by simp
qed

lemma ctr_offset:
  "(k :: 32 word) < 16 \<Longrightarrow> aes_ctr_steps (unat k) (unat (n :: 32 word)) = (k = 0 \<and> n \<noteq> 0 \<or> 16 < unat k + unat n)"
  using aes_ctr_steps_iff[of "unat k" "unat n"] by (simp add: word_less_nat_alt unat_eq_0)

lemma ecb_accepts:
  "(fst (muggle_aes_ecb opt ctx input n out) = MUGGLE_OK \<longleftrightarrow>
      (\<exists>c. ctx = Some c \<and> ctx_mode c = MUGGLE_BLOCK_CIPHER_MODE_ECB) \<and> input \<noteq> None \<and> 16 dvd unat n \<and> out \<noteq> None)"
  "(muggle_aes_ecb opt ctx input n out = (e, r) \<and> e \<noteq> MUGGLE_OK \<longrightarrow> e \<in> {MUGGLE_ERR_NULL_PARAM, MUGGLE_ERR_INVALID_PARAM} \<and> r = out)"
  unfolding muggle_aes_ecb_def multiple_16 Let_def by (cases ctx; cases input; cases out; auto split: prod.splits if_splits)+

lemma cbc_accepts:
  "(fst (muggle_aes_cbc opt ctx input n iv out) = MUGGLE_OK \<longleftrightarrow>
      (\<exists>c. ctx = Some c \<and> ctx_mode c = MUGGLE_BLOCK_CIPHER_MODE_CBC \<and> ctx_op c \<in> {MUGGLE_ENCRYPT, MUGGLE_DECRYPT}) \<and>
      input \<noteq> None \<and> 16 dvd unat n \<and> iv \<noteq> None \<and> out \<noteq> None)"
  "(muggle_aes_cbc opt ctx input n iv out = (e, r1) \<and> e \<noteq> MUGGLE_OK \<longrightarrow> e \<in> {MUGGLE_ERR_NULL_PARAM, MUGGLE_ERR_INVALID_PARAM} \<and> r1 = (iv, out))"
  unfolding muggle_aes_cbc_def multiple_16 Let_def by (cases ctx; cases input; cases iv; cases out; auto split: prod.splits if_splits)+

lemma cfb128_accepts:
  "(muggle_aes_cfb128 opt ctx input n iv off out = None \<longleftrightarrow>
      (\<exists>c. ctx = Some c \<and> ctx_mode c = MUGGLE_BLOCK_CIPHER_MODE_CFB) \<and> input \<noteq> None \<and> iv \<noteq> None \<and> off = None)"
  "((\<exists>r. muggle_aes_cfb128 opt ctx input n iv off out = Some (MUGGLE_OK, r)) \<longleftrightarrow>
      (\<exists>c. ctx = Some c \<and> ctx_mode c = MUGGLE_BLOCK_CIPHER_MODE_CFB \<and> ctx_op c \<in> {MUGGLE_ENCRYPT, MUGGLE_DECRYPT}) \<and>
      input \<noteq> None \<and> iv \<noteq> None \<and> (\<exists>k < 16. off = Some k) \<and> out \<noteq> None)"
  "(muggle_aes_cfb128 opt ctx input n iv off out = Some (e, r2) \<and> e \<noteq> MUGGLE_OK \<longrightarrow>
      e \<in> {MUGGLE_ERR_NULL_PARAM, MUGGLE_ERR_INVALID_PARAM} \<and> r2 = (iv, off, out))"
  unfolding muggle_aes_cfb128_def multiple_16 Let_def by (cases ctx; cases input; cases iv; cases off; cases out; auto split: prod.splits if_splits)+

lemma ofb128_accepts:
  "(muggle_aes_ofb128 opt ctx input n iv off out = None \<longleftrightarrow>
      (\<exists>c. ctx = Some c \<and> ctx_mode c = MUGGLE_BLOCK_CIPHER_MODE_OFB) \<and> input \<noteq> None \<and> iv \<noteq> None \<and> off = None)"
  "((\<exists>r. muggle_aes_ofb128 opt ctx input n iv off out = Some (MUGGLE_OK, r)) \<longleftrightarrow>
      (\<exists>c. ctx = Some c \<and> ctx_mode c = MUGGLE_BLOCK_CIPHER_MODE_OFB \<and> ctx_op c \<in> {MUGGLE_ENCRYPT, MUGGLE_DECRYPT}) \<and>
      input \<noteq> None \<and> iv \<noteq> None \<and> (\<exists>k < 16. off = Some k) \<and> out \<noteq> None)"
  "(muggle_aes_ofb128 opt ctx input n iv off out = Some (e, r2) \<and> e \<noteq> MUGGLE_OK \<longrightarrow>
      e \<in> {MUGGLE_ERR_NULL_PARAM, MUGGLE_ERR_INVALID_PARAM} \<and> r2 = (iv, off, out))"
  unfolding muggle_aes_ofb128_def multiple_16 Let_def by (cases ctx; cases input; cases iv; cases off; cases out; auto split: prod.splits if_splits)+

lemma ctr_accepts:
  "(muggle_aes_ctr opt ctx input n nonce noff st out = None \<longleftrightarrow>
      (\<exists>c. ctx = Some c \<and> ctx_mode c = MUGGLE_BLOCK_CIPHER_MODE_CTR \<and> ctx_op c \<in> {MUGGLE_ENCRYPT, MUGGLE_DECRYPT}) \<and>
      input \<noteq> None \<and> (\<exists>k < 16. noff = Some k \<and> (k = 0 \<and> n \<noteq> 0 \<or> 16 < unat k + unat n)) \<and> st \<noteq> None \<and> out \<noteq> None \<and>
      nonce = None)"
  "((\<exists>r. muggle_aes_ctr opt ctx input n nonce noff st out = Some (MUGGLE_OK, r)) \<longleftrightarrow>
      (\<exists>c. ctx = Some c \<and> ctx_mode c = MUGGLE_BLOCK_CIPHER_MODE_CTR \<and> ctx_op c \<in> {MUGGLE_ENCRYPT, MUGGLE_DECRYPT}) \<and>
      input \<noteq> None \<and> (\<exists>k < 16. noff = Some k \<and> (nonce \<noteq> None \<or> \<not> (k = 0 \<and> n \<noteq> 0 \<or> 16 < unat k + unat n))) \<and>
      st \<noteq> None \<and> out \<noteq> None)"
  "(muggle_aes_ctr opt ctx input n nonce noff st out = Some (e, r3) \<and> e \<noteq> MUGGLE_OK \<longrightarrow>
      e \<in> {MUGGLE_ERR_NULL_PARAM, MUGGLE_ERR_INVALID_PARAM} \<and> r3 = (nonce, noff, st, out))"
  unfolding muggle_aes_ctr_def Let_def
  by (cases ctx; cases input; cases noff; cases st; cases out; cases nonce; auto simp: ctr_offset split: prod.splits if_splits)+

text \<open>C31. Which calls the modes accept, and what the other ones do. A call is accepted exactly if the context was set up for the
  mode and, except in ECB, which does not look at it, for an operation, the pointers that the code checks are given, the number of bytes
  is a multiple of 16 in ECB and CBC (the byte-wise modes accept every number), and the offset is inside the block. A call that
  is not accepted returns an error for a NULL or an invalid parameter and leaves vector, counter, offset, stream block and output
  as they were. Two pointers are not checked: CFB and OFB dereference a NULL \<^verbatim>\<open>iv_offset\<close> when the context, the input and the vector
  are fine, and CTR dereferences a NULL \<^verbatim>\<open>nonce\<close> when the call is otherwise accepted and the message comes to the start of a
  block.\<close>

theorem aes_modes_errors:
  "(fst (muggle_aes_ecb opt ctx input n out) = MUGGLE_OK \<longleftrightarrow>
      (\<exists>c. ctx = Some c \<and> ctx_mode c = MUGGLE_BLOCK_CIPHER_MODE_ECB) \<and> input \<noteq> None \<and> 16 dvd unat n \<and> out \<noteq> None) \<and>
   (muggle_aes_ecb opt ctx input n out = (e, r) \<and> e \<noteq> MUGGLE_OK \<longrightarrow> e \<in> {MUGGLE_ERR_NULL_PARAM, MUGGLE_ERR_INVALID_PARAM} \<and> r = out) \<and>
   (fst (muggle_aes_cbc opt ctx input n iv out) = MUGGLE_OK \<longleftrightarrow>
      (\<exists>c. ctx = Some c \<and> ctx_mode c = MUGGLE_BLOCK_CIPHER_MODE_CBC \<and> ctx_op c \<in> {MUGGLE_ENCRYPT, MUGGLE_DECRYPT}) \<and>
      input \<noteq> None \<and> 16 dvd unat n \<and> iv \<noteq> None \<and> out \<noteq> None) \<and>
   (muggle_aes_cbc opt ctx input n iv out = (e, r1) \<and> e \<noteq> MUGGLE_OK \<longrightarrow> e \<in> {MUGGLE_ERR_NULL_PARAM, MUGGLE_ERR_INVALID_PARAM} \<and> r1 = (iv, out)) \<and>
   (muggle_aes_cfb128 opt ctx input n iv off out = None \<longleftrightarrow>
      (\<exists>c. ctx = Some c \<and> ctx_mode c = MUGGLE_BLOCK_CIPHER_MODE_CFB) \<and> input \<noteq> None \<and> iv \<noteq> None \<and> off = None) \<and>
   ((\<exists>r. muggle_aes_cfb128 opt ctx input n iv off out = Some (MUGGLE_OK, r)) \<longleftrightarrow>
      (\<exists>c. ctx = Some c \<and> ctx_mode c = MUGGLE_BLOCK_CIPHER_MODE_CFB \<and> ctx_op c \<in> {MUGGLE_ENCRYPT, MUGGLE_DECRYPT}) \<and>
      input \<noteq> None \<and> iv \<noteq> None \<and> (\<exists>k < 16. off = Some k) \<and> out \<noteq> None) \<and>
   (muggle_aes_cfb128 opt ctx input n iv off out = Some (e, r2) \<and> e \<noteq> MUGGLE_OK \<longrightarrow>
      e \<in> {MUGGLE_ERR_NULL_PARAM, MUGGLE_ERR_INVALID_PARAM} \<and> r2 = (iv, off, out)) \<and>
   (muggle_aes_ofb128 opt ctx input n iv off out = None \<longleftrightarrow>
      (\<exists>c. ctx = Some c \<and> ctx_mode c = MUGGLE_BLOCK_CIPHER_MODE_OFB) \<and> input \<noteq> None \<and> iv \<noteq> None \<and> off = None) \<and>
   ((\<exists>r. muggle_aes_ofb128 opt ctx input n iv off out = Some (MUGGLE_OK, r)) \<longleftrightarrow>
      (\<exists>c. ctx = Some c \<and> ctx_mode c = MUGGLE_BLOCK_CIPHER_MODE_OFB \<and> ctx_op c \<in> {MUGGLE_ENCRYPT, MUGGLE_DECRYPT}) \<and>
      input \<noteq> None \<and> iv \<noteq> None \<and> (\<exists>k < 16. off = Some k) \<and> out \<noteq> None) \<and>
   (muggle_aes_ofb128 opt ctx input n iv off out = Some (e, r2) \<and> e \<noteq> MUGGLE_OK \<longrightarrow>
      e \<in> {MUGGLE_ERR_NULL_PARAM, MUGGLE_ERR_INVALID_PARAM} \<and> r2 = (iv, off, out)) \<and>
   (muggle_aes_ctr opt ctx input n nonce noff st out = None \<longleftrightarrow>
      (\<exists>c. ctx = Some c \<and> ctx_mode c = MUGGLE_BLOCK_CIPHER_MODE_CTR \<and> ctx_op c \<in> {MUGGLE_ENCRYPT, MUGGLE_DECRYPT}) \<and>
      input \<noteq> None \<and> (\<exists>k < 16. noff = Some k \<and> (k = 0 \<and> n \<noteq> 0 \<or> 16 < unat k + unat n)) \<and> st \<noteq> None \<and> out \<noteq> None \<and>
      nonce = None) \<and>
   ((\<exists>r. muggle_aes_ctr opt ctx input n nonce noff st out = Some (MUGGLE_OK, r)) \<longleftrightarrow>
      (\<exists>c. ctx = Some c \<and> ctx_mode c = MUGGLE_BLOCK_CIPHER_MODE_CTR \<and> ctx_op c \<in> {MUGGLE_ENCRYPT, MUGGLE_DECRYPT}) \<and>
      input \<noteq> None \<and> (\<exists>k < 16. noff = Some k \<and> (nonce \<noteq> None \<or> \<not> (k = 0 \<and> n \<noteq> 0 \<or> 16 < unat k + unat n))) \<and>
      st \<noteq> None \<and> out \<noteq> None) \<and>
   (muggle_aes_ctr opt ctx input n nonce noff st out = Some (e, r3) \<and> e \<noteq> MUGGLE_OK \<longrightarrow>
      e \<in> {MUGGLE_ERR_NULL_PARAM, MUGGLE_ERR_INVALID_PARAM} \<and> r3 = (nonce, noff, st, out))"
  by (intro conjI) (rule ecb_accepts cbc_accepts cfb128_accepts ofb128_accepts ctr_accepts)+

theorem aes_modes_errors_witness:
  "fst (muggle_aes_cbc True (Some (demo_ctx True 1 1)) (Some demo_plain) 15 (Some demo_key) (Some demo_plain)) \<noteq> MUGGLE_OK \<and>
   snd (muggle_aes_cbc True (Some (demo_ctx True 1 1)) (Some demo_plain) 15 (Some demo_key) (Some demo_plain)) = (Some demo_key, Some demo_plain)"
proof -
  let ?call = "muggle_aes_cbc True (Some (demo_ctx True 1 1)) (Some demo_plain) 15 (Some demo_key) (Some demo_plain)"
  have "\<not> 16 dvd unat (15 :: 32 word)" by simp
  then show ?thesis
    using aes_modes_errors[of True "Some (demo_ctx True 1 1)" "Some demo_plain" 15 "Some demo_plain" "fst ?call" _ "Some demo_key" "snd ?call"]
    by simp
qed

lemma iv_length:
  assumes "\<And>b. length b = bs \<Longrightarrow> length (f b) = bs" "length iv = bs"
  shows "length (fst (cfb_bytes f m e iv off xs)) = bs" "length (fst (ofb_bytes f m iv off xs)) = bs"
  using assms(2) by (induction xs arbitrary: iv off) (simp_all add: Let_def case_prod_beta assms(1))

lemma offset_word: "k < 16 \<Longrightarrow> unat (of_nat k :: 32 word) = k \<and> (of_nat k :: 32 word) < 16"
  by (simp add: unat_of_nat take_bit_eq_mod word_less_nat_alt)

lemma and_15_less: "k AND 0x0f < (16 :: nat)"
  using and_mask_less[of k 4] by simp

lemma aes_cfb_pieces:
  assumes r: "aes_ready opt op MUGGLE_BLOCK_CIPHER_MODE_CFB key bits c" and n: "unat (n1 + n2) = unat n1 + unat n2"
    and l: "length xs = unat n1" "length ys = unat n2" "length iv = 16" "off < 16" "length zs1 = unat n1"
  shows "\<exists>iv1 off1 o1 iv2 off2 o2.
    muggle_aes_cfb128 opt (Some c) (Some xs) n1 (Some iv) (Some off) (Some zs1) = Some (MUGGLE_OK, iv1, off1, Some o1) \<and>
    muggle_aes_cfb128 opt (Some c) (Some ys) n2 iv1 off1 (Some zs2) = Some (MUGGLE_OK, iv2, off2, Some o2) \<and>
    muggle_aes_cfb128 opt (Some c) (Some (xs @ ys)) (n1 + n2) (Some iv) (Some off) (Some (zs1 @ zs2)) =
      Some (MUGGLE_OK, iv2, off2, Some (o1 @ o2))"
proof -
  let ?E = "ref_block MUGGLE_ENCRYPT key bits" and ?e = "op = MUGGLE_ENCRYPT"
  have off: "unat off < 16" using l(4) by (simp add: word_less_nat_alt)
  have E: "length b = 16 \<Longrightarrow> length (?E b) = 16" for b by (simp add: ref_block_laws)
  obtain v1 o1 b1 where 1: "cfb_bytes ?E 0x0f ?e iv (unat off) xs = (v1, o1, b1)" by (metis prod.exhaust)
  obtain v2 o2 b2 where 2: "cfb_bytes ?E 0x0f ?e v1 o1 ys = (v2, o2, b2)" by (metis prod.exhaust)
  have v: "length v1 = 16" "o1 < 16"
    using iv_length(1)[of 16 ?E iv "0x0f" ?e "unat off" xs, OF E l(3)] offsets_less(1)[OF and_15_less off, of ?E ?e iv xs] 1 by simp_all
  note ref = aes_cfb_ref[OF r]
  have "cfb_bytes ?E 0x0f ?e iv (unat off) (xs @ ys) = (v2, o2, b1 @ b2)" using 1 2 by (simp add: cfb_append)
  then show ?thesis
    using 1 2 l n offset_word[OF v(2)]
    by (simp add: ref[OF l(3,4)] ref[OF v(1)])
qed

lemma aes_ofb_pieces:
  assumes r: "aes_ready opt op MUGGLE_BLOCK_CIPHER_MODE_OFB key bits c" and n: "unat (n1 + n2) = unat n1 + unat n2"
    and l: "length xs = unat n1" "length ys = unat n2" "length iv = 16" "off < 16" "length zs1 = unat n1"
  shows "\<exists>iv1 off1 o1 iv2 off2 o2.
    muggle_aes_ofb128 opt (Some c) (Some xs) n1 (Some iv) (Some off) (Some zs1) = Some (MUGGLE_OK, iv1, off1, Some o1) \<and>
    muggle_aes_ofb128 opt (Some c) (Some ys) n2 iv1 off1 (Some zs2) = Some (MUGGLE_OK, iv2, off2, Some o2) \<and>
    muggle_aes_ofb128 opt (Some c) (Some (xs @ ys)) (n1 + n2) (Some iv) (Some off) (Some (zs1 @ zs2)) =
      Some (MUGGLE_OK, iv2, off2, Some (o1 @ o2))"
proof -
  let ?E = "ref_block MUGGLE_ENCRYPT key bits"
  have off: "unat off < 16" using l(4) by (simp add: word_less_nat_alt)
  have E: "length b = 16 \<Longrightarrow> length (?E b) = 16" for b by (simp add: ref_block_laws)
  obtain v1 o1 b1 where 1: "ofb_bytes ?E 0x0f iv (unat off) xs = (v1, o1, b1)" by (metis prod.exhaust)
  obtain v2 o2 b2 where 2: "ofb_bytes ?E 0x0f v1 o1 ys = (v2, o2, b2)" by (metis prod.exhaust)
  have v: "length v1 = 16" "o1 < 16"
    using iv_length(2)[of 16 ?E iv "0x0f" "unat off" xs, OF E l(3)] offsets_less(2)[OF and_15_less off, of ?E iv xs] 1 by simp_all
  note ref = aes_ofb_ref[OF r]
  have "ofb_bytes ?E 0x0f iv (unat off) (xs @ ys) = (v2, o2, b1 @ b2)" using 1 2 by (simp add: ofb_append)
  then show ?thesis
    using 1 2 l n offset_word[OF v(2)]
    by (simp add: ref[OF l(3,4)] ref[OF v(1)])
qed

lemma aes_ctr_pieces:
  assumes r: "aes_ready opt op MUGGLE_BLOCK_CIPHER_MODE_CTR key bits c" and n: "unat (n1 + n2) = unat n1 + unat n2"
    and l: "length xs = unat n1" "length ys = unat n2" "off < 16" "length zs1 = unat n1"
  shows "\<exists>nonce1 off1 st1 o1 nonce2 off2 st2 o2.
    muggle_aes_ctr opt (Some c) (Some xs) n1 (Some nonce) (Some off) (Some st) (Some zs1) = Some (MUGGLE_OK, nonce1, off1, st1, Some o1) \<and>
    muggle_aes_ctr opt (Some c) (Some ys) n2 nonce1 off1 st1 (Some zs2) = Some (MUGGLE_OK, nonce2, off2, st2, Some o2) \<and>
    muggle_aes_ctr opt (Some c) (Some (xs @ ys)) (n1 + n2) (Some nonce) (Some off) (Some st) (Some (zs1 @ zs2)) =
      Some (MUGGLE_OK, nonce2, off2, st2, Some (o1 @ o2))"
proof -
  let ?C = "ctr_bytes (ref_block MUGGLE_ENCRYPT key bits) aes_nonce_next aes_nonce_bytes 0x0f"
  have off: "unat off < 16" using l(3) by (simp add: word_less_nat_alt)
  obtain k1 o1 s1 b1 where 1: "?C nonce (unat off) st xs = (k1, o1, s1, b1)" by (metis prod.exhaust)
  obtain k2 o2 s2 b2 where 2: "?C k1 o1 s1 ys = (k2, o2, s2, b2)" by (metis prod.exhaust)
  have v: "o1 < 16"
    using offsets_less(3)[OF and_15_less off, of "ref_block MUGGLE_ENCRYPT key bits" aes_nonce_next aes_nonce_bytes nonce st xs] 1 by simp
  note ref = aes_ctr_ref[OF r]
  have "?C nonce (unat off) st (xs @ ys) = (k2, o2, s2, b1 @ b2)" using 1 2 by (simp add: ctr_append)
  then show ?thesis using 1 2 l n offset_word[OF v] by (simp add: ref[OF l(3)] ref)
qed

text \<open>C30. A message may be fed to a byte-wise mode in pieces. Encrypting or decrypting \<open>xs\<close> and then \<open>ys\<close>, with the vector or
  counter and the offset that the first call left, succeeds and gives the output and the final state of one call on \<open>xs @ ys\<close>.\<close>

theorem aes_stream_pieces:
  assumes "aes_ready opt op mode key bits c" "length xs = unat n1" "length ys = unat n2" "unat n1 + unat n2 < 2 ^ 32"
    and "length iv = 16" "off < 16" "length zs1 = unat n1"
  shows "(mode = MUGGLE_BLOCK_CIPHER_MODE_CFB \<longrightarrow> (\<exists>iv1 off1 o1 iv2 off2 o2.
      muggle_aes_cfb128 opt (Some c) (Some xs) n1 (Some iv) (Some off) (Some zs1) = Some (MUGGLE_OK, iv1, off1, Some o1) \<and>
      muggle_aes_cfb128 opt (Some c) (Some ys) n2 iv1 off1 (Some zs2) = Some (MUGGLE_OK, iv2, off2, Some o2) \<and>
      muggle_aes_cfb128 opt (Some c) (Some (xs @ ys)) (n1 + n2) (Some iv) (Some off) (Some (zs1 @ zs2)) =
        Some (MUGGLE_OK, iv2, off2, Some (o1 @ o2)))) \<and>
    (mode = MUGGLE_BLOCK_CIPHER_MODE_OFB \<longrightarrow> (\<exists>iv1 off1 o1 iv2 off2 o2.
      muggle_aes_ofb128 opt (Some c) (Some xs) n1 (Some iv) (Some off) (Some zs1) = Some (MUGGLE_OK, iv1, off1, Some o1) \<and>
      muggle_aes_ofb128 opt (Some c) (Some ys) n2 iv1 off1 (Some zs2) = Some (MUGGLE_OK, iv2, off2, Some o2) \<and>
      muggle_aes_ofb128 opt (Some c) (Some (xs @ ys)) (n1 + n2) (Some iv) (Some off) (Some (zs1 @ zs2)) =
        Some (MUGGLE_OK, iv2, off2, Some (o1 @ o2)))) \<and>
    (mode = MUGGLE_BLOCK_CIPHER_MODE_CTR \<longrightarrow> (\<exists>nonce1 off1 st1 o1 nonce2 off2 st2 o2.
      muggle_aes_ctr opt (Some c) (Some xs) n1 (Some nonce) (Some off) (Some st) (Some zs1) = Some (MUGGLE_OK, nonce1, off1, st1, Some o1) \<and>
      muggle_aes_ctr opt (Some c) (Some ys) n2 nonce1 off1 st1 (Some zs2) = Some (MUGGLE_OK, nonce2, off2, st2, Some o2) \<and>
      muggle_aes_ctr opt (Some c) (Some (xs @ ys)) (n1 + n2) (Some nonce) (Some off) (Some st) (Some (zs1 @ zs2)) =
        Some (MUGGLE_OK, nonce2, off2, st2, Some (o1 @ o2))))"
proof (intro conjI impI)
  have n: "unat (n1 + n2) = unat n1 + unat n2" using assms(4) by (simp add: unat_word_ariths)
  note r = assms(1)
  show "mode = MUGGLE_BLOCK_CIPHER_MODE_CFB \<Longrightarrow> \<exists>iv1 off1 o1 iv2 off2 o2.
      muggle_aes_cfb128 opt (Some c) (Some xs) n1 (Some iv) (Some off) (Some zs1) = Some (MUGGLE_OK, iv1, off1, Some o1) \<and>
      muggle_aes_cfb128 opt (Some c) (Some ys) n2 iv1 off1 (Some zs2) = Some (MUGGLE_OK, iv2, off2, Some o2) \<and>
      muggle_aes_cfb128 opt (Some c) (Some (xs @ ys)) (n1 + n2) (Some iv) (Some off) (Some (zs1 @ zs2)) =
        Some (MUGGLE_OK, iv2, off2, Some (o1 @ o2))"
    using aes_cfb_pieces[OF _ n assms(2,3,5,6,7)] r by simp
  show "mode = MUGGLE_BLOCK_CIPHER_MODE_OFB \<Longrightarrow> \<exists>iv1 off1 o1 iv2 off2 o2.
      muggle_aes_ofb128 opt (Some c) (Some xs) n1 (Some iv) (Some off) (Some zs1) = Some (MUGGLE_OK, iv1, off1, Some o1) \<and>
      muggle_aes_ofb128 opt (Some c) (Some ys) n2 iv1 off1 (Some zs2) = Some (MUGGLE_OK, iv2, off2, Some o2) \<and>
      muggle_aes_ofb128 opt (Some c) (Some (xs @ ys)) (n1 + n2) (Some iv) (Some off) (Some (zs1 @ zs2)) =
        Some (MUGGLE_OK, iv2, off2, Some (o1 @ o2))"
    using aes_ofb_pieces[OF _ n assms(2,3,5,6,7)] r by simp
  show "mode = MUGGLE_BLOCK_CIPHER_MODE_CTR \<Longrightarrow> \<exists>nonce1 off1 st1 o1 nonce2 off2 st2 o2.
      muggle_aes_ctr opt (Some c) (Some xs) n1 (Some nonce) (Some off) (Some st) (Some zs1) = Some (MUGGLE_OK, nonce1, off1, st1, Some o1) \<and>
      muggle_aes_ctr opt (Some c) (Some ys) n2 nonce1 off1 st1 (Some zs2) = Some (MUGGLE_OK, nonce2, off2, st2, Some o2) \<and>
      muggle_aes_ctr opt (Some c) (Some (xs @ ys)) (n1 + n2) (Some nonce) (Some off) (Some st) (Some (zs1 @ zs2)) =
        Some (MUGGLE_OK, nonce2, off2, st2, Some (o1 @ o2))"
    using aes_ctr_pieces[OF _ n assms(2,3,6,7)] r by simp
qed

theorem aes_stream_pieces_witness:
  "\<exists>iv1 off1 o1 iv2 off2 o2.
    muggle_aes_ofb128 True (Some (demo_ctx True 1 3)) (Some [1]) 1 (Some (replicate 16 7)) (Some 15) (Some [0]) =
      Some (MUGGLE_OK, iv1, off1, Some o1) \<and>
    muggle_aes_ofb128 True (Some (demo_ctx True 1 3)) (Some [2, 3]) 2 iv1 off1 (Some [0, 0]) = Some (MUGGLE_OK, iv2, off2, Some o2) \<and>
    muggle_aes_ofb128 True (Some (demo_ctx True 1 3)) (Some ([1] @ [2, 3])) (1 + 2) (Some (replicate 16 7)) (Some 15) (Some ([0] @ [0, 0])) =
      Some (MUGGLE_OK, iv2, off2, Some (o1 @ o2))"
proof -
  have r: "aes_ready True MUGGLE_ENCRYPT 3 demo_key 128 (demo_ctx True 1 3)"
    using demo_ready[of MUGGLE_ENCRYPT 3 True] by (simp add: crypt_op_defs)
  have l: "length [1 :: byte] = unat (1 :: 32 word)" "length [2, 3 :: byte] = unat (2 :: 32 word)"
    "unat (1 :: 32 word) + unat (2 :: 32 word) < 2 ^ 32" "length (replicate 16 (7 :: byte)) = 16" "(15 :: 32 word) < 16"
    "length [0 :: byte] = unat (1 :: 32 word)" by simp_all
  have "(3 :: int) = MUGGLE_BLOCK_CIPHER_MODE_OFB" by (simp add: crypt_mode_defs)
  then show ?thesis using aes_stream_pieces[OF r l, of "[0, 0]"] by blast
qed

end
