(* ===== verification/Monitor.thy ===== *)
theory Monitor
  imports Muggle_Prelude
begin

text \<open>
  Threads that share a structure under a mutex and two condition variables (\<^verbatim>\<open>sync/mutex.c\<close>,
  \<^verbatim>\<open>sync/condition_variable.c\<close>, the pthread build). The calls in flight are frames with a program counter; one
  scheduler choice lets one of them take one step. \<^verbatim>\<open>sync/array_blocking_queue.c\<close> and \<^verbatim>\<open>sync/double_buffer.c\<close> are the
  procedures run this way: take the mutex, wait in a loop while blocked, act, notify, release the mutex, return.
  The lemmas show mutual exclusion, that the acts happen one after the other, that no wake-up is lost, and that every
  run without spurious wake-ups is short.
\<close>

section \<open>Threads\<close>

datatype cv = cv_not_empty | cv_not_full

text \<open>
  The variable parts of a procedure: the condition of its waiting loop, an early return from the loop, the variable it
  waits for, its act under the mutex (with the value of its local variable), the variable it notifies, and its result,
  computed after the mutex was released.
\<close>

record ('q, 'l, 'r) procedure =
  blocked :: "'q \<Rightarrow> bool"
  refuse :: "'q \<Rightarrow> 'l option"
  wait_cv :: cv
  act :: "'q \<Rightarrow> 'q \<times> 'l"
  notify_cv :: cv
  result :: "'q \<Rightarrow> 'l \<Rightarrow> 'r"
  lock_failed :: "'r"

text \<open>\<open>Woken\<close> threads were notified and have to take the mutex again.\<close>

datatype ('l, 'r) pc =
    Enter
  | Test
  | Waiting cv
  | Woken
  | Unlock 'l
  | Return 'l
  | Finished 'r

type_synonym ('op, 'l, 'r) frames = "('op \<times> ('l, 'r) pc) list"

record ('q, 'op, 'l, 'r) monitor =
  mon_data :: "'q"
  mon_mutex :: "nat ptr"
  mon_threads :: "('op, 'l, 'r) frames"

definition set_pc :: "nat \<Rightarrow> ('l, 'r) pc \<Rightarrow> ('op, 'l, 'r) frames \<Rightarrow> ('op, 'l, 'r) frames" where
  "set_pc i p ts = ts[i := (fst (ts ! i), p)]"

text \<open>\<open>None\<close>: the caller blocks until the mutex is free.\<close>

definition muggle_mutex_lock :: "nat \<Rightarrow> nat ptr \<Rightarrow> nat ptr option" where
  "muggle_mutex_lock i m = (if m = None then Some (Some i) else None)"

definition muggle_mutex_unlock :: "nat ptr \<Rightarrow> nat ptr" where
  "muggle_mutex_unlock m = None"

text \<open>Waiting releases the mutex and blocks the thread in one step.\<close>

definition muggle_condition_variable_wait ::
  "nat \<Rightarrow> cv \<Rightarrow> ('q, 'op, 'l, 'r) monitor \<Rightarrow> ('q, 'op, 'l, 'r) monitor" where
  "muggle_condition_variable_wait i c s =
    s\<lparr>mon_mutex := muggle_mutex_unlock (mon_mutex s), mon_threads := set_pc i (Waiting c) (mon_threads s)\<rparr>"

text \<open>A notification wakes one of the waiting threads, which the scheduler chooses, if there is one.\<close>

definition muggle_condition_variable_notify_one ::
  "cv \<Rightarrow> nat ptr \<Rightarrow> ('op, 'l, 'r) frames \<Rightarrow> ('op, 'l, 'r) frames option" where
  "muggle_condition_variable_notify_one c w ts =
    (case w of
       None \<Rightarrow> if list_ex (\<lambda>t. snd t = Waiting c) ts then None else Some ts
     | Some j \<Rightarrow> if j < length ts \<and> snd (ts ! j) = Waiting c then Some (set_pc j Woken ts) else None)"

text \<open>One step of the thread \<open>i\<close>; \<open>None\<close> if it cannot take a step. \<open>w\<close> is the thread its notification wakes.\<close>

definition lock_step :: "nat \<Rightarrow> ('q, 'op, 'l, 'r) monitor \<Rightarrow> ('q, 'op, 'l, 'r) monitor option" where
  "lock_step i s =
    map_option (\<lambda>m. s\<lparr>mon_mutex := m, mon_threads := set_pc i Test (mon_threads s)\<rparr>)
      (muggle_mutex_lock i (mon_mutex s))"

definition test_step ::
  "('q, 'l, 'r) procedure \<Rightarrow> nat \<Rightarrow> nat ptr \<Rightarrow> ('q, 'op, 'l, 'r) monitor \<Rightarrow> ('q, 'op, 'l, 'r) monitor option" where
  "test_step f i w s =
    (let q = mon_data s; ts = mon_threads s in
     if blocked f q then
       (case refuse f q of
          Some l \<Rightarrow> Some (s\<lparr>mon_threads := set_pc i (Unlock l) ts\<rparr>)
        | None \<Rightarrow> Some (muggle_condition_variable_wait i (wait_cv f) s))
     else
       map_option (\<lambda>ts'. s\<lparr>mon_data := fst (act f q), mon_threads := ts'\<rparr>)
         (muggle_condition_variable_notify_one (notify_cv f) w (set_pc i (Unlock (snd (act f q))) ts)))"

definition thread_step ::
  "('op \<Rightarrow> ('q, 'l, 'r) procedure) \<Rightarrow> nat \<Rightarrow> nat ptr \<Rightarrow> ('q, 'op, 'l, 'r) monitor \<Rightarrow>
   ('q, 'op, 'l, 'r) monitor option" where
  "thread_step prog i w s =
    (let ts = mon_threads s; f = prog (fst (ts ! i)) in
     case snd (ts ! i) of
       Enter \<Rightarrow> lock_step i s
     | Woken \<Rightarrow> lock_step i s
     | Test \<Rightarrow> test_step f i w s
     | Waiting c \<Rightarrow> None
     | Unlock l \<Rightarrow>
         Some (s\<lparr>mon_mutex := muggle_mutex_unlock (mon_mutex s), mon_threads := set_pc i (Return l) ts\<rparr>)
     | Return l \<Rightarrow> Some (s\<lparr>mon_threads := set_pc i (Finished (result f (mon_data s) l)) ts\<rparr>)
     | Finished r \<Rightarrow> None)"

text \<open>
  The choices of the scheduler: a thread calls an operation, a thread takes a step, taking the mutex fails with a system
  error, a waiting thread wakes up without a notification.
\<close>

datatype 'op sched = Call 'op | Run nat "nat ptr" | LockFails nat | Spurious nat

fun is_waiting :: "('l, 'r) pc \<Rightarrow> bool" where
  "is_waiting (Waiting c) = True"
| "is_waiting p = False"

fun mon_next ::
  "('op \<Rightarrow> ('q, 'l, 'r) procedure) \<Rightarrow> 'op sched \<Rightarrow> ('q, 'op, 'l, 'r) monitor \<Rightarrow>
   ('q, 'op, 'l, 'r) monitor option" where
  "mon_next prog (Call op) s = Some (s\<lparr>mon_threads := mon_threads s @ [(op, Enter)]\<rparr>)"
| "mon_next prog (Run i w) s = (if i < length (mon_threads s) then thread_step prog i w s else None)"
| "mon_next prog (LockFails i) s =
    (let ts = mon_threads s in
     if i < length ts \<and> snd (ts ! i) = Enter
     then Some (s\<lparr>mon_threads := set_pc i (Finished (lock_failed (prog (fst (ts ! i))))) ts\<rparr>) else None)"
| "mon_next prog (Spurious i) s =
    (let ts = mon_threads s in
     if i < length ts \<and> is_waiting (snd (ts ! i)) then Some (s\<lparr>mon_threads := set_pc i Woken ts\<rparr>) else None)"

text \<open>The acts in the order in which they happen: the thread, its operation, the value of its local variable.\<close>

fun mon_event ::
  "('op \<Rightarrow> ('q, 'l, 'r) procedure) \<Rightarrow> 'op sched \<Rightarrow> ('q, 'op, 'l, 'r) monitor \<Rightarrow>
   (nat \<times> 'op \<times> 'l) list" where
  "mon_event prog (Run i w) s =
    (let (op, p) = mon_threads s ! i in
     if p = Test \<and> \<not> blocked (prog op) (mon_data s) then [(i, op, snd (act (prog op) (mon_data s)))] else [])"
| "mon_event prog c s = []"

fun mon_run ::
  "('op \<Rightarrow> ('q, 'l, 'r) procedure) \<Rightarrow> 'op sched list \<Rightarrow> ('q, 'op, 'l, 'r) monitor \<Rightarrow>
   ('q, 'op, 'l, 'r) monitor option" where
  "mon_run prog [] s = Some s"
| "mon_run prog (c # cs) s = (case mon_next prog c s of None \<Rightarrow> None | Some s' \<Rightarrow> mon_run prog cs s')"

fun mon_log ::
  "('op \<Rightarrow> ('q, 'l, 'r) procedure) \<Rightarrow> 'op sched list \<Rightarrow> ('q, 'op, 'l, 'r) monitor \<Rightarrow>
   (nat \<times> 'op \<times> 'l) list" where
  "mon_log prog [] s = []"
| "mon_log prog (c # cs) s =
    mon_event prog c s @ (case mon_next prog c s of None \<Rightarrow> [] | Some s' \<Rightarrow> mon_log prog cs s')"

definition mon_init :: "'q \<Rightarrow> ('q, 'op, 'l, 'r) monitor" where
  "mon_init q = \<lparr>mon_data = q, mon_mutex = None, mon_threads = []\<rparr>"

inductive mon_reach ::
  "('op \<Rightarrow> ('q, 'l, 'r) procedure) \<Rightarrow> 'q \<Rightarrow> (nat \<times> 'op \<times> 'l) list \<Rightarrow> ('q, 'op, 'l, 'r) monitor \<Rightarrow> bool"
  for prog q0 where
  mon_reach_init: "mon_reach prog q0 [] (mon_init q0)"
| mon_reach_step: "mon_reach prog q0 lg s \<Longrightarrow> mon_next prog c s = Some s' \<Longrightarrow>
    mon_reach prog q0 (lg @ mon_event prog c s) s'"

text \<open>No thread can take a step: the scheduler has nothing to do until a further call.\<close>

definition quiet :: "('op \<Rightarrow> ('q, 'l, 'r) procedure) \<Rightarrow> ('q, 'op, 'l, 'r) monitor \<Rightarrow> bool" where
  "quiet prog s = (let n = length (mon_threads s) in
    list_all (\<lambda>i. list_all (\<lambda>w. mon_next prog (Run i w) s = None) (None # map Some [0..<n])) [0..<n])"

lemmas run_defs = mon_init_def thread_step_def lock_step_def test_step_def muggle_mutex_lock_def muggle_mutex_unlock_def
  muggle_condition_variable_wait_def muggle_condition_variable_notify_one_def set_pc_def Let_def

section \<open>Steps\<close>

lemma run_reach_from:
  "mon_reach prog q0 lg s \<Longrightarrow> mon_run prog cs s = Some s' \<Longrightarrow> mon_reach prog q0 (lg @ mon_log prog cs s) s'"
proof (induction cs arbitrary: lg s)
  case (Cons c cs)
  then obtain s1 where s1: "mon_next prog c s = Some s1" "mon_run prog cs s1 = Some s'"
    by (auto simp del: mon_next.simps split: option.splits)
  have "mon_reach prog q0 (lg @ mon_event prog c s) s1" by (rule mon_reach_step[OF Cons.prems(1) s1(1)])
  from Cons.IH[OF this s1(2)] show ?case using s1 by (simp del: mon_next.simps)
qed simp

lemma run_reach:
  "mon_run prog cs (mon_init q0) = Some s \<Longrightarrow> mon_reach prog q0 (mon_log prog cs (mon_init q0)) s"
  using run_reach_from[OF mon_reach_init] by fastforce

lemma length_set_pc [simp]: "length (set_pc i p ts) = length ts"
  by (simp add: set_pc_def)

lemma fst_set_pc [simp]: "fst (set_pc i p ts ! j) = fst (ts ! j)"
  by (cases "i < length ts"; cases "i = j") (simp_all add: set_pc_def list_update_beyond)

lemma snd_set_pc [simp]: "i < length ts \<Longrightarrow> snd (set_pc i p ts ! j) = (if i = j then p else snd (ts ! j))"
  by (simp add: set_pc_def)

lemma notify_oneE:
  assumes "muggle_condition_variable_notify_one c w ts = Some ts'"
  obtains "w = None" "ts' = ts" "\<And>j. j < length ts \<Longrightarrow> snd (ts ! j) \<noteq> Waiting c"
  | j where "w = Some j" "j < length ts" "snd (ts ! j) = Waiting c" "ts' = set_pc j Woken ts"
  using assms
  by (auto simp: muggle_condition_variable_notify_one_def list_ex_length split: option.splits if_splits)

text \<open>What a step does, one case for each kind of step.\<close>

lemma mon_nextE:
  assumes "mon_next prog ch s = Some s'"
  obtains (call) op where "ch = Call op" "mon_event prog ch s = []"
    "s' = s\<lparr>mon_threads := mon_threads s @ [(op, Enter)]\<rparr>"
  | (lock) i w where "ch = Run i w" "mon_event prog ch s = []" "i < length (mon_threads s)"
    "snd (mon_threads s ! i) = Enter \<or> snd (mon_threads s ! i) = Woken" "mon_mutex s = None"
    "s' = s\<lparr>mon_mutex := Some i, mon_threads := set_pc i Test (mon_threads s)\<rparr>"
  | (refused) i w l where "ch = Run i w" "mon_event prog ch s = []" "i < length (mon_threads s)"
    "snd (mon_threads s ! i) = Test" "blocked (prog (fst (mon_threads s ! i))) (mon_data s)"
    "refuse (prog (fst (mon_threads s ! i))) (mon_data s) = Some l"
    "s' = s\<lparr>mon_threads := set_pc i (Unlock l) (mon_threads s)\<rparr>"
  | (wait) i w where "ch = Run i w" "mon_event prog ch s = []" "i < length (mon_threads s)"
    "snd (mon_threads s ! i) = Test" "blocked (prog (fst (mon_threads s ! i))) (mon_data s)"
    "refuse (prog (fst (mon_threads s ! i))) (mon_data s) = None"
    "s' = s\<lparr>mon_mutex := None,
      mon_threads := set_pc i (Waiting (wait_cv (prog (fst (mon_threads s ! i))))) (mon_threads s)\<rparr>"
  | (act) i w q' l ts' where "ch = Run i w" "mon_event prog ch s = [(i, fst (mon_threads s ! i), l)]"
    "i < length (mon_threads s)" "snd (mon_threads s ! i) = Test"
    "\<not> blocked (prog (fst (mon_threads s ! i))) (mon_data s)"
    "act (prog (fst (mon_threads s ! i))) (mon_data s) = (q', l)"
    "muggle_condition_variable_notify_one (notify_cv (prog (fst (mon_threads s ! i)))) w
       (set_pc i (Unlock l) (mon_threads s)) = Some ts'"
    "s' = s\<lparr>mon_data := q', mon_threads := ts'\<rparr>"
  | (unlock) i w l where "ch = Run i w" "mon_event prog ch s = []" "i < length (mon_threads s)"
    "snd (mon_threads s ! i) = Unlock l"
    "s' = s\<lparr>mon_mutex := None, mon_threads := set_pc i (Return l) (mon_threads s)\<rparr>"
  | (return) i w l where "ch = Run i w" "mon_event prog ch s = []" "i < length (mon_threads s)"
    "snd (mon_threads s ! i) = Return l"
    "s' = s\<lparr>mon_threads :=
      set_pc i (Finished (result (prog (fst (mon_threads s ! i))) (mon_data s) l)) (mon_threads s)\<rparr>"
  | (lock_fails) i where "ch = LockFails i" "mon_event prog ch s = []" "i < length (mon_threads s)"
    "snd (mon_threads s ! i) = Enter"
    "s' = s\<lparr>mon_threads :=
      set_pc i (Finished (lock_failed (prog (fst (mon_threads s ! i))))) (mon_threads s)\<rparr>"
  | (spurious) i c where "ch = Spurious i" "mon_event prog ch s = []" "i < length (mon_threads s)"
    "snd (mon_threads s ! i) = Waiting c" "s' = s\<lparr>mon_threads := set_pc i Woken (mon_threads s)\<rparr>"
proof (cases ch)
  case (Call op)
  then show ?thesis using assms that(1) by simp
next
  case (LockFails i)
  then show ?thesis using assms that(8) by (auto simp: Let_def split: if_splits)
next
  case (Spurious i)
  then show ?thesis using assms that(9) by (auto simp: Let_def elim!: is_waiting.elims split: if_splits)
next
  case (Run i w)
  then have i: "i < length (mon_threads s)" and st: "thread_step prog i w s = Some s'"
    using assms by (auto split: if_splits)
  obtain op p where op: "mon_threads s ! i = (op, p)" by (cases "mon_threads s ! i")
  show ?thesis
  proof (cases p)
    case Test
    then have t: "test_step (prog op) i w s = Some s'" using st by (simp add: thread_step_def op)
    show ?thesis
    proof (cases "blocked (prog op) (mon_data s)")
      case True
      show ?thesis
      proof (cases "refuse (prog op) (mon_data s)")
        case None
        then show ?thesis using t True Run i op Test that(4)[of i w]
          by (simp add: test_step_def muggle_condition_variable_wait_def muggle_mutex_unlock_def)
      next
        case (Some l)
        then show ?thesis using t True Run i op Test that(3)[of i w l] by (simp add: test_step_def)
      qed
    next
      case False
      then show ?thesis using t Run i op Test that(5)[where i = i and w = w]
        by (cases "act (prog op) (mon_data s)") (auto simp: test_step_def)
    qed
  next
    case Enter
    then show ?thesis using st Run i op that(2)[of i w]
      by (simp add: thread_step_def lock_step_def muggle_mutex_lock_def split: if_splits)
  next
    case Woken
    then show ?thesis using st Run i op that(2)[of i w]
      by (simp add: thread_step_def lock_step_def muggle_mutex_lock_def split: if_splits)
  next
    case (Unlock l)
    then show ?thesis using st Run i op that(6)[of i w l] by (simp add: thread_step_def muggle_mutex_unlock_def)
  next
    case (Return l)
    then show ?thesis using st Run i op that(7)[of i w l] by (simp add: thread_step_def)
  qed (use st op in \<open>simp_all add: thread_step_def\<close>)
qed

section \<open>Mutual exclusion\<close>

fun holds :: "('l, 'r) pc \<Rightarrow> bool" where
  "holds Test = True"
| "holds (Unlock l) = True"
| "holds p = False"

definition mon_excl :: "('q, 'op, 'l, 'r) monitor \<Rightarrow> bool" where
  "mon_excl s = ((\<forall>i < length (mon_threads s). holds (snd (mon_threads s ! i)) = (mon_mutex s = Some i)) \<and>
    (\<forall>i. mon_mutex s = Some i \<longrightarrow> i < length (mon_threads s)))"

lemma mon_excl_init: "mon_excl (mon_init q)"
  by (simp add: mon_excl_def mon_init_def)

lemma mon_excl_step:
  assumes "mon_excl s" "mon_next prog ch s = Some s'"
  shows "mon_excl s'"
  using assms(2)
proof (cases rule: mon_nextE)
  case (act i w q' l ts')
  from act(7) show ?thesis
  proof (cases rule: notify_oneE)
    case 1
    then show ?thesis using assms(1) act by (auto simp: mon_excl_def)
  next
    case (2 j)
    then have "i \<noteq> j" using act(3) by auto
    then show ?thesis using assms(1) act 2 by (auto simp: mon_excl_def)
  qed
qed (use assms(1) in \<open>auto simp: mon_excl_def nth_append less_Suc_eq\<close>)

lemma reach_excl: "mon_reach prog q0 lg s \<Longrightarrow> mon_excl s"
  by (induction rule: mon_reach.induct) (auto intro: mon_excl_init mon_excl_step)

section \<open>Each call acts once and returns what it saw\<close>

fun passed :: "('q, 'l, 'r) procedure \<Rightarrow> 'l \<Rightarrow> ('l, 'r) pc \<Rightarrow> bool" where
  "passed f l (Unlock l') = (l' = l)"
| "passed f l (Return l') = (l' = l)"
| "passed f l (Finished r) = (\<exists>q. r = result f q l)"
| "passed f l p = False"

definition acts_once :: "('op \<Rightarrow> ('q, 'l, 'r) procedure) \<Rightarrow> (nat \<times> 'op \<times> 'l) list \<Rightarrow> ('op, 'l, 'r) frames \<Rightarrow> bool" where
  "acts_once prog lg ts = (distinct (map fst lg) \<and>
    (\<forall>(i, op, l) \<in> set lg. i < length ts \<and> fst (ts ! i) = op \<and> passed (prog op) l (snd (ts ! i))))"

definition acted :: "('op \<Rightarrow> ('q, 'l, 'r) procedure) \<Rightarrow> (nat \<times> 'op \<times> 'l) list \<Rightarrow> ('op, 'l, 'r) frames \<Rightarrow> bool" where
  "acted prog lg ts = (\<forall>i < length ts. \<forall>l. snd (ts ! i) = Unlock l \<or> snd (ts ! i) = Return l \<longrightarrow>
    (i, fst (ts ! i), l) \<in> set lg \<or> (\<exists>q. refuse (prog (fst (ts ! i))) q = Some l))"

text \<open>A call that has returned failed to take the mutex, was refused, or acted.\<close>

definition answered :: "('op \<Rightarrow> ('q, 'l, 'r) procedure) \<Rightarrow> (nat \<times> 'op \<times> 'l) list \<Rightarrow> ('op, 'l, 'r) frames \<Rightarrow> bool" where
  "answered prog lg ts = (\<forall>i < length ts. \<forall>r. snd (ts ! i) = Finished r \<longrightarrow>
    r = lock_failed (prog (fst (ts ! i))) \<or>
    (\<exists>l q. r = result (prog (fst (ts ! i))) q l \<and>
      ((i, fst (ts ! i), l) \<in> set lg \<or> (\<exists>q. refuse (prog (fst (ts ! i))) q = Some l))))"

lemma notify_one_frame:
  assumes "muggle_condition_variable_notify_one c w ts = Some ts'"
  shows "length ts' = length ts" "fst (ts' ! j) = fst (ts ! j)"
    "j < length ts \<Longrightarrow> snd (ts' ! j) = snd (ts ! j) \<or> snd (ts ! j) = Waiting c \<and> snd (ts' ! j) = Woken"
  using assms by (auto elim!: notify_oneE split: if_splits)

lemma acts_once_set_pc:
  assumes "acts_once prog lg ts" "i < length ts"
    "\<And>l. passed (prog (fst (ts ! i))) l (snd (ts ! i)) \<Longrightarrow> passed (prog (fst (ts ! i))) l p"
  shows "acts_once prog lg (set_pc i p ts)"
  using assms by (fastforce simp: acts_once_def)

lemma acted_set_pc:
  assumes "acted prog lg ts" "i < length ts"
    "\<And>l. p = Unlock l \<or> p = Return l \<Longrightarrow>
      (i, fst (ts ! i), l) \<in> set lg \<or> (\<exists>q. refuse (prog (fst (ts ! i))) q = Some l)"
  shows "acted prog lg (set_pc i p ts)"
  using assms by (auto simp: acted_def)

lemma answered_set_pc:
  assumes "answered prog lg ts" "i < length ts"
    "\<And>r. p = Finished r \<Longrightarrow> r = lock_failed (prog (fst (ts ! i))) \<or>
      (\<exists>l q. r = result (prog (fst (ts ! i))) q l \<and>
        ((i, fst (ts ! i), l) \<in> set lg \<or> (\<exists>q. refuse (prog (fst (ts ! i))) q = Some l)))"
  shows "answered prog lg (set_pc i p ts)"
  using assms by (auto simp: answered_def)

lemma acts_append_call:
  "acts_once prog lg ts \<Longrightarrow> acts_once prog lg (ts @ [(op, Enter)])"
  "acted prog lg ts \<Longrightarrow> acted prog lg (ts @ [(op, Enter)])"
  "answered prog lg ts \<Longrightarrow> answered prog lg (ts @ [(op, Enter)])"
  by (fastforce simp: acts_once_def nth_append, auto simp: acted_def answered_def nth_append less_Suc_eq)

lemma acts_once_step:
  assumes a: "acts_once prog lg (mon_threads s)" and s': "mon_next prog ch s = Some s'"
  shows "acts_once prog (lg @ mon_event prog ch s) (mon_threads s')"
  using s'
proof (cases rule: mon_nextE)
  case (act i w q' l ts')
  have i: "j \<noteq> i" if "(j, op, l') \<in> set lg" for j op l'
    using a act(4) that by (fastforce simp: acts_once_def)
  have "passed (prog op) l' (snd (ts' ! j))" if "(j, op, l') \<in> set lg" for j op l'
  proof -
    have j: "j < length (mon_threads s)" "passed (prog op) l' (snd (mon_threads s ! j))"
      using a that by (auto simp: acts_once_def)
    then show ?thesis using notify_one_frame(3)[OF act(7), of j] i[OF that] act(3) by auto
  qed
  moreover have "snd (ts' ! i) = Unlock l" using notify_one_frame(3)[OF act(7), of i] act(3) by simp
  moreover have "i \<notin> fst ` set lg" using i by force
  then have "distinct (map fst lg @ [i])" using a by (simp add: acts_once_def)
  moreover have "j < length ts' \<and> fst (ts' ! j) = op" if "(j, op, l') \<in> set lg" for j op l'
    using a that notify_one_frame(1,2)[OF act(7)] by (auto simp: acts_once_def)
  ultimately show ?thesis using act(2,3,8) notify_one_frame(1,2)[OF act(7)]
    by (auto simp: acts_once_def)
qed (use a in \<open>auto intro!: acts_once_set_pc acts_append_call\<close>)

lemma acted_step:
  assumes a: "acted prog lg (mon_threads s)" and s': "mon_next prog ch s = Some s'"
  shows "acted prog (lg @ mon_event prog ch s) (mon_threads s')"
  using s'
proof (cases rule: mon_nextE)
  case (act i w q' l ts')
  have "snd (ts' ! j) = snd (mon_threads s ! j) \<or> snd (ts' ! j) = Woken \<or> j = i \<and> snd (ts' ! j) = Unlock l"
    if "j < length (mon_threads s)" for j
    using notify_one_frame(3)[OF act(7), of j] act(3) that by (auto split: if_splits)
  then show ?thesis using a act(2,8) notify_one_frame(1,2)[OF act(7)] unfolding acted_def
    by simp (metis pc.distinct pc.inject(2))
next
  case (refused i w l)
  then show ?thesis using a acted_set_pc[of prog lg "mon_threads s" i "Unlock l"] by auto
next
  case (unlock i w l)
  then have "(i, fst (mon_threads s ! i), l) \<in> set lg \<or> (\<exists>q. refuse (prog (fst (mon_threads s ! i))) q = Some l)"
    using a by (auto simp: acted_def)
  then show ?thesis using unlock a acted_set_pc[of prog lg "mon_threads s" i "Return l"] by auto
qed (use a in \<open>auto intro!: acted_set_pc acts_append_call\<close>)

lemma answered_step:
  assumes a: "answered prog lg (mon_threads s)" "acted prog lg (mon_threads s)" and s': "mon_next prog ch s = Some s'"
  shows "answered prog (lg @ mon_event prog ch s) (mon_threads s')"
  using s'
proof (cases rule: mon_nextE)
  case (act i w q' l ts')
  have "snd (ts' ! j) = snd (mon_threads s ! j)" if "j < length (mon_threads s)" "snd (ts' ! j) = Finished r" for j r
    using notify_one_frame(3)[OF act(7), of j] act(3) that by (auto split: if_splits)
  then show ?thesis using a(1) act(2,8) notify_one_frame(1,2)[OF act(7)] unfolding answered_def
    by simp metis
next
  case (return i w l)
  have "(i, fst (mon_threads s ! i), l) \<in> set lg \<or> (\<exists>q. refuse (prog (fst (mon_threads s ! i))) q = Some l)"
    using a(2) return(3,4) by (auto simp: acted_def)
  then show ?thesis using a(1) return by (auto intro!: answered_set_pc)
qed (use a(1) in \<open>auto intro!: answered_set_pc acts_append_call\<close>)

lemma reach_acts:
  "mon_reach prog q0 lg s \<Longrightarrow>
   acts_once prog lg (mon_threads s) \<and> acted prog lg (mon_threads s) \<and> answered prog lg (mon_threads s)"
proof (induction rule: mon_reach.induct)
  case mon_reach_init
  then show ?case by (simp add: acts_once_def acted_def answered_def mon_init_def)
qed (blast intro: acts_once_step acted_step answered_step)

section \<open>Runs are short\<close>

fun weight :: "('l, 'r) pc \<Rightarrow> nat" where
  "weight Enter = 6"
| "weight Woken = 6"
| "weight Test = 5"
| "weight (Waiting c) = 4"
| "weight (Unlock l) = 2"
| "weight (Return l) = 1"
| "weight (Finished r) = 0"

definition work :: "('op, 'l, 'r) frames \<Rightarrow> nat" where
  "work ts = sum_list (map (\<lambda>t. weight (snd t)) ts)"

fun is_step :: "'op sched \<Rightarrow> bool" where
  "is_step (Run i w) = True"
| "is_step (LockFails i) = True"
| "is_step c = False"

lemma work_set_pc: "i < length ts \<Longrightarrow> work (set_pc i p ts) + weight (snd (ts ! i)) = work ts + weight p"
  by (induction ts arbitrary: i) (auto simp: work_def set_pc_def nth_Cons split: nat.splits)

lemma work_bound: "work ts \<le> 6 * length ts"
proof (induction ts)
  case (Cons t ts)
  have "weight (snd t) \<le> 6" by (cases "snd t") simp_all
  then show ?case using Cons by (simp add: work_def)
qed (simp add: work_def)

lemma work_step:
  assumes "mon_next prog ch s = Some s'" "is_step ch"
  shows "work (mon_threads s') < work (mon_threads s)"
  using assms(1)
proof (cases rule: mon_nextE)
  case (act i w q' l ts')
  have u: "work (set_pc i (Unlock l) (mon_threads s)) + 5 = work (mon_threads s) + 2"
    using work_set_pc[of i "mon_threads s" "Unlock l"] act by simp
  from act(7) show ?thesis
  proof (cases rule: notify_oneE)
    case 1
    then show ?thesis using act u by simp
  next
    case (2 j)
    then show ?thesis using act u work_set_pc[of j "set_pc i (Unlock l) (mon_threads s)" Woken] by simp
  qed
next
  case (lock i w)
  then show ?thesis using work_set_pc[of i "mon_threads s" Test] by auto
next
  case (refused i w l)
  then show ?thesis using work_set_pc[of i "mon_threads s" "Unlock l"] by auto
next
  case (wait i w)
  then show ?thesis
    using work_set_pc[of i "mon_threads s" "Waiting (wait_cv (prog (fst (mon_threads s ! i))))"] by simp
next
  case (unlock i w l)
  then show ?thesis using work_set_pc[of i "mon_threads s" "Return l"] by simp
next
  case (return i w l)
  then show ?thesis
    using work_set_pc[of i "mon_threads s" "Finished (result (prog (fst (mon_threads s ! i))) (mon_data s) l)"]
    by simp
next
  case (lock_fails i)
  then show ?thesis
    using work_set_pc[of i "mon_threads s" "Finished (lock_failed (prog (fst (mon_threads s ! i))))"] by simp
qed (use assms(2) in simp_all)

lemma run_bound:
  "mon_run prog cs s = Some s' \<Longrightarrow> list_all is_step cs \<Longrightarrow> length cs + work (mon_threads s') \<le> work (mon_threads s)"
proof (induction cs arbitrary: s)
  case (Cons c cs)
  then show ?case using work_step[of prog c s] by (fastforce split: option.splits)
qed simp

lemma run_short:
  "mon_run prog cs s = Some s' \<Longrightarrow> list_all is_step cs \<Longrightarrow> length cs \<le> 6 * length (mon_threads s)"
  using run_bound[of prog cs s s'] work_bound[of "mon_threads s"] by simp

text \<open>Any thread that can take a step may be scheduled, until none can.\<close>

lemma run_to_quiet: "\<exists>cs s'. mon_run prog cs s = Some s' \<and> list_all is_step cs \<and> quiet prog s'"
proof (induction "work (mon_threads s)" arbitrary: s rule: less_induct)
  case less
  show ?case
  proof (cases "quiet prog s")
    case True
    then show ?thesis by (intro exI[of _ "[]"]) simp
  next
    case False
    then obtain i w s1 where s1: "mon_next prog (Run i w) s = Some s1"
      by (auto simp: quiet_def Let_def list_all_iff simp del: mon_next.simps)
    then have "work (mon_threads s1) < work (mon_threads s)" by (rule work_step) simp
    from less[OF this] obtain cs s' where "mon_run prog cs s1 = Some s'" "list_all is_step cs" "quiet prog s'" by auto
    then show ?thesis using s1 by (intro exI[of _ "Run i w # cs"]) (simp del: mon_next.simps)
  qed
qed

section \<open>Waiting threads\<close>

text \<open>The threads that wait for \<open>c\<close>, and those that will look at the structure again on its behalf.\<close>

definition waits :: "cv \<Rightarrow> ('op, 'l, 'r) frames \<Rightarrow> bool" where
  "waits c ts = (\<exists>i < length ts. snd (ts ! i) = Waiting c)"

definition ready :: "('op \<Rightarrow> ('q, 'l, 'r) procedure) \<Rightarrow> cv \<Rightarrow> ('op, 'l, 'r) frames \<Rightarrow> nat" where
  "ready prog c ts = length (filter (\<lambda>t. wait_cv (prog (fst t)) = c \<and> (snd t = Woken \<or> snd t = Test)) ts)"

definition no_lost ::
  "('op \<Rightarrow> ('q, 'l, 'r) procedure) \<Rightarrow> (cv \<Rightarrow> 'q \<Rightarrow> nat) \<Rightarrow> ('q, 'op, 'l, 'r) monitor \<Rightarrow> bool" where
  "no_lost prog avail s = (\<forall>c. waits c (mon_threads s) \<longrightarrow> avail c (mon_data s) \<le> ready prog c (mon_threads s))"

definition right_cv :: "('op \<Rightarrow> ('q, 'l, 'r) procedure) \<Rightarrow> ('op, 'l, 'r) frames \<Rightarrow> bool" where
  "right_cv prog ts = (\<forall>i < length ts. \<forall>c. snd (ts ! i) = Waiting c \<longrightarrow> wait_cv (prog (fst (ts ! i))) = c)"

lemma length_filter_update:
  "i < length xs \<Longrightarrow> length (filter P (xs[i := x])) + (if P (xs ! i) then 1 else 0) =
   length (filter P xs) + (if P x then 1 else 0)"
proof (induction xs arbitrary: i)
  case (Cons y ys)
  then show ?case by (cases i) auto
qed simp

lemma ready_set_pc:
  "i < length ts \<Longrightarrow>
   ready prog c (set_pc i p ts) +
     (if wait_cv (prog (fst (ts ! i))) = c \<and> (snd (ts ! i) = Woken \<or> snd (ts ! i) = Test) then 1 else 0) =
   ready prog c ts + (if wait_cv (prog (fst (ts ! i))) = c \<and> (p = Woken \<or> p = Test) then 1 else 0)"
  using length_filter_update[of i ts "\<lambda>t. wait_cv (prog (fst t)) = c \<and> (snd t = Woken \<or> snd t = Test)"]
  by (simp add: ready_def set_pc_def)

lemma waits_set_pc:
  "i < length ts \<Longrightarrow> waits c (set_pc i p ts) \<Longrightarrow> p = Waiting c \<or> waits c ts"
  by (auto simp: waits_def split: if_splits)

lemma waits_append [simp]: "waits c (ts @ [(op, Enter)]) = waits c ts"
  by (auto simp: waits_def nth_append less_Suc_eq)

lemma ready_append [simp]: "ready prog c (ts @ [(op, Enter)]) = ready prog c ts"
  by (simp add: ready_def)

lemma right_cv_step:
  assumes "right_cv prog (mon_threads s)" "mon_next prog ch s = Some s'"
  shows "right_cv prog (mon_threads s')"
  using assms(2)
proof (cases rule: mon_nextE)
  case (act i w q' l ts')
  from act(7) show ?thesis
    by (cases rule: notify_oneE) (use assms(1) act in \<open>auto simp: right_cv_def\<close>)
qed (use assms(1) in \<open>auto simp: right_cv_def nth_append less_Suc_eq\<close>)

section \<open>Enabled threads\<close>

definition can_step :: "('op \<Rightarrow> ('q, 'l, 'r) procedure) \<Rightarrow> ('q, 'op, 'l, 'r) monitor \<Rightarrow> nat \<Rightarrow> bool" where
  "can_step prog s i = (\<exists>w \<in> set (None # map Some [0..<length (mon_threads s)]). mon_next prog (Run i w) s \<noteq> None)"

lemma notify_possible:
  "\<exists>w \<in> set (None # map Some [0..<length ts]). muggle_condition_variable_notify_one c w ts \<noteq> None"
proof (cases "list_ex (\<lambda>t. snd t = Waiting c) ts")
  case True
  then obtain j where "j < length ts" "snd (ts ! j) = Waiting c" by (auto simp: list_ex_length)
  then show ?thesis by (intro bexI[of _ "Some j"]) (simp_all add: muggle_condition_variable_notify_one_def)
qed (simp add: muggle_condition_variable_notify_one_def)

lemma holder_steps:
  assumes "i < length (mon_threads s)" "holds (snd (mon_threads s ! i))"
  shows "can_step prog s i"
proof (cases "snd (mon_threads s ! i)")
  case Test
  let ?f = "prog (fst (mon_threads s ! i))"
  obtain w where "w \<in> set (None # map Some [0..<length (mon_threads s)])"
    "muggle_condition_variable_notify_one (notify_cv ?f) w
      (set_pc i (Unlock (snd (act ?f (mon_data s)))) (mon_threads s)) \<noteq> None"
    using notify_possible[of "set_pc i (Unlock (snd (act ?f (mon_data s)))) (mon_threads s)" "notify_cv ?f"] by auto
  then show ?thesis using assms Test unfolding can_step_def
    by (intro bexI[of _ w]) (auto simp: thread_step_def test_step_def Let_def split: option.splits)
qed (use assms in \<open>auto simp: can_step_def thread_step_def\<close>)

lemma free_steps:
  assumes "i < length (mon_threads s)" "mon_mutex s = None"
  shows "snd (mon_threads s ! i) = Enter \<Longrightarrow> can_step prog s i"
    and "snd (mon_threads s ! i) = Woken \<Longrightarrow> can_step prog s i"
    and "snd (mon_threads s ! i) = Return l \<Longrightarrow> can_step prog s i"
  unfolding can_step_def using assms
  by (intro bexI[of _ None]; simp add: thread_step_def lock_step_def muggle_mutex_lock_def Let_def)+

section \<open>What the procedures promise\<close>

text \<open>The acts keep an invariant of the structure and of the acts so far.\<close>

locale monitor_laws =
  fixes prog :: "'op \<Rightarrow> ('q, 'l, 'r) procedure" and inv :: "('op \<times> 'l) list \<Rightarrow> 'q \<Rightarrow> bool"
  assumes inv_act: "inv lg q \<Longrightarrow> \<not> blocked (prog op) q \<Longrightarrow> act (prog op) q = (q', l) \<Longrightarrow> inv (lg @ [(op, l)]) q'"
begin

lemma reach_inv: "mon_reach prog q0 lg s \<Longrightarrow> inv [] q0 \<Longrightarrow> inv (map snd lg) (mon_data s)"
proof (induction rule: mon_reach.induct)
  case mon_reach_init
  then show ?case by (simp add: mon_init_def)
next
  case (mon_reach_step lg s c s')
  from mon_reach_step(2) show ?case
    by (cases rule: mon_nextE) (use mon_reach_step inv_act in simp_all)
qed

end

text \<open>
  \<open>avail c q\<close> is how many waiters for \<open>c\<close> have a reason to run: none while a waiter would block again, one less after
  one of them has acted, and at most one more after an act that notifies \<open>c\<close>.
\<close>

locale monitor_wakeups = monitor_laws +
  fixes avail :: "cv \<Rightarrow> 'q \<Rightarrow> nat"
  assumes two_sides: "notify_cv (prog op) \<noteq> wait_cv (prog op)"
    and avail_blocked: "inv lg q \<Longrightarrow> blocked (prog op) q \<Longrightarrow> avail (wait_cv (prog op)) q = 0"
    and avail_own: "inv lg q \<Longrightarrow> \<not> blocked (prog op) q \<Longrightarrow>
      avail (wait_cv (prog op)) (fst (act (prog op) q)) \<le> avail (wait_cv (prog op)) q - 1"
    and avail_other: "inv lg q \<Longrightarrow> \<not> blocked (prog op) q \<Longrightarrow>
      avail (notify_cv (prog op)) (fst (act (prog op) q)) \<le> Suc (avail (notify_cv (prog op)) q)"
begin

lemma no_lost_act:
  assumes n: "no_lost prog avail s" and r: "right_cv prog (mon_threads s)" and v: "inv lg (mon_data s)"
    and i: "i < length (mon_threads s)" "snd (mon_threads s ! i) = Test"
    and b: "\<not> blocked (prog (fst (mon_threads s ! i))) (mon_data s)"
    and a: "act (prog (fst (mon_threads s ! i))) (mon_data s) = (q', l)"
    and w: "muggle_condition_variable_notify_one (notify_cv (prog (fst (mon_threads s ! i)))) w
      (set_pc i (Unlock l) (mon_threads s)) = Some ts'"
  shows "no_lost prog avail (s\<lparr>mon_data := q', mon_threads := ts'\<rparr>)"
proof -
  let ?ts = "mon_threads s" and ?f = "prog (fst (mon_threads s ! i))"
  let ?us = "set_pc i (Unlock l) ?ts"
  have own: "avail (wait_cv ?f) q' \<le> avail (wait_cv ?f) (mon_data s) - 1"
    using avail_own[OF v b] a by simp
  have other: "avail (notify_cv ?f) q' \<le> Suc (avail (notify_cv ?f) (mon_data s))"
    using avail_other[OF v b] a by simp
  have us: "ready prog c ?us + (if wait_cv ?f = c then 1 else 0) = ready prog c ?ts" for c
    using ready_set_pc[OF i(1), of prog c "Unlock l"] i(2) by simp
  have w1: "waits c ?ts" if "waits c ?us" for c using waits_set_pc[OF i(1) that] by simp
  have wait_side: "avail c q' \<le> ready prog c ?us" if "waits c ?us" "c = wait_cv ?f" for c
    using n own us[of c] w1[OF that(1)] that(2) by (auto simp: no_lost_def)
  have both: "c = wait_cv ?f \<or> c = notify_cv ?f" for c
    using two_sides[of "fst (?ts ! i)"] by (cases c; cases "wait_cv ?f"; cases "notify_cv ?f") auto
  from w show ?thesis
  proof (cases rule: notify_oneE)
    case 1
    then have "\<not> waits (notify_cv ?f) ?us" by (auto simp: waits_def)
    then have "avail c q' \<le> ready prog c ?us" if "waits c ?us" for c
      using wait_side[OF that] both[of c] that by auto
    then show ?thesis using 1 by (simp add: no_lost_def)
  next
    case (2 j)
    have j: "wait_cv (prog (fst (?ts ! j))) = notify_cv ?f" "snd (?ts ! j) = Waiting (notify_cv ?f)" "j < length ?ts"
      using 2 r i by (auto simp: right_cv_def split: if_splits)
    have ts': "ready prog c ts' = ready prog c ?us + (if c = notify_cv ?f then 1 else 0)" for c
      using ready_set_pc[of j ?us prog c Woken] 2 j by auto
    have "avail c q' \<le> ready prog c ts'" if "waits c ts'" for c
    proof -
      have c: "waits c ?us" using waits_set_pc[of j ?us c Woken] that 2 by simp
      show ?thesis
      proof (cases "c = wait_cv ?f")
        case True
        then show ?thesis using wait_side[OF c] ts'[of c] by simp
      next
        case False
        then have "c = notify_cv ?f" using both by blast
        then show ?thesis using n w1[OF c] us[of c] ts'[of c] other two_sides[of "fst (?ts ! i)"]
          by (auto simp: no_lost_def)
      qed
    qed
    then show ?thesis by (simp add: no_lost_def)
  qed
qed

lemma no_lost_step:
  assumes n: "no_lost prog avail s" and r: "right_cv prog (mon_threads s)" and v: "inv lg (mon_data s)"
    and s': "mon_next prog ch s = Some s'"
  shows "no_lost prog avail s'"
proof -
  have pc: "no_lost prog avail (s\<lparr>mon_mutex := m, mon_threads := set_pc i p (mon_threads s)\<rparr>)"
    if "i < length (mon_threads s)" "\<And>c. p \<noteq> Waiting c"
      "snd (mon_threads s ! i) = Test \<Longrightarrow> avail (wait_cv (prog (fst (mon_threads s ! i)))) (mon_data s) = 0"
      "snd (mon_threads s ! i) = Woken \<Longrightarrow> p = Test" for i p m
  proof -
    have "avail c (mon_data s) \<le> ready prog c (set_pc i p (mon_threads s))"
      if "waits c (set_pc i p (mon_threads s))" for c
    proof -
      have "waits c (mon_threads s)" using waits_set_pc[OF \<open>i < _\<close> that] \<open>\<And>c. p \<noteq> Waiting c\<close> by blast
      then have "avail c (mon_data s) \<le> ready prog c (mon_threads s)" using n by (simp add: no_lost_def)
      then show ?thesis using ready_set_pc[OF \<open>i < _\<close>, of prog c p] that(1) \<open>snd _ = Test \<Longrightarrow> _\<close> \<open>snd _ = Woken \<Longrightarrow> _\<close>
        by (auto split: if_splits)
    qed
    then show ?thesis by (simp add: no_lost_def)
  qed
  from s' show ?thesis
  proof (cases rule: mon_nextE)
    case (act i w q' l ts')
    then show ?thesis using no_lost_act[OF n r v act(3,4,5,6,7)] by simp
  next
    case (wait i w)
    let ?f = "prog (fst (mon_threads s ! i))"
    have "avail c (mon_data s) \<le> ready prog c (set_pc i (Waiting (wait_cv ?f)) (mon_threads s))"
      if "waits c (set_pc i (Waiting (wait_cv ?f)) (mon_threads s))" for c
    proof (cases "c = wait_cv ?f")
      case True
      then show ?thesis using avail_blocked[OF v wait(5)] by simp
    next
      case False
      then have "waits c (mon_threads s)" using waits_set_pc[OF wait(3) that] by auto
      then show ?thesis using n ready_set_pc[OF wait(3), of prog c "Waiting (wait_cv ?f)"] False
        by (simp add: no_lost_def)
    qed
    then show ?thesis using wait by (simp add: no_lost_def)
  next
    case (refused i w l)
    then show ?thesis using pc[of i "Unlock l" "mon_mutex s"] avail_blocked[OF v refused(5)] by simp
  next
    case (lock i w)
    then show ?thesis using pc[of i Test "Some i"] by auto
  next
    case (unlock i w l)
    then show ?thesis using pc[of i "Return l" None] by simp
  next
    case (return i w l)
    then show ?thesis using pc[of i "Finished (result (prog (fst (mon_threads s ! i))) (mon_data s) l)" "mon_mutex s"]
      by simp
  next
    case (lock_fails i)
    then show ?thesis using pc[of i "Finished (lock_failed (prog (fst (mon_threads s ! i))))" "mon_mutex s"] by simp
  next
    case (spurious i c)
    then show ?thesis using pc[of i Woken "mon_mutex s"] by simp
  next
    case (call op)
    then show ?thesis using n by (simp add: no_lost_def)
  qed
qed

lemma reach_no_lost: "mon_reach prog q0 lg s \<Longrightarrow> inv [] q0 \<Longrightarrow> no_lost prog avail s \<and> right_cv prog (mon_threads s)"
proof (induction rule: mon_reach.induct)
  case mon_reach_init
  then show ?case by (simp add: no_lost_def waits_def right_cv_def mon_init_def)
next
  case (mon_reach_step lg s c s')
  then show ?case using no_lost_step[of s "map snd lg" c s'] right_cv_step[of prog s c s'] reach_inv by simp
qed

text \<open>When nothing can run, every call has returned or waits for a reason.\<close>

lemma quiet_waits:
  assumes reach: "mon_reach prog q0 lg s" and q0: "inv [] q0" and q: "quiet prog s" and i: "i < length (mon_threads s)"
  shows "mon_mutex s = None"
    and "(\<exists>r. snd (mon_threads s ! i) = Finished r) \<or>
      (snd (mon_threads s ! i) = Waiting (wait_cv (prog (fst (mon_threads s ! i)))) \<and>
       avail (wait_cv (prog (fst (mon_threads s ! i)))) (mon_data s) = 0)"
proof -
  have no_step: "\<not> can_step prog s j" if "j < length (mon_threads s)" for j
    using q that by (auto simp: quiet_def can_step_def Let_def list_all_iff simp del: mon_next.simps)
  show m: "mon_mutex s = None"
    using no_step reach_excl[OF reach] holder_steps[of _ s prog]
    by (cases "mon_mutex s") (auto simp: mon_excl_def)
  have pcs: "(\<exists>r. snd (mon_threads s ! j) = Finished r) \<or> (\<exists>c. snd (mon_threads s ! j) = Waiting c)"
    if "j < length (mon_threads s)" for j
    using no_step[OF that] free_steps[OF that m, where prog = prog] reach_excl[OF reach] m that
    by (cases "snd (mon_threads s ! j)") (auto simp: mon_excl_def)
  have "ready prog c (mon_threads s) = 0" for c
    using pcs by (fastforce simp: ready_def filter_empty_conv in_set_conv_nth)
  then show "(\<exists>r. snd (mon_threads s ! i) = Finished r) \<or>
      (snd (mon_threads s ! i) = Waiting (wait_cv (prog (fst (mon_threads s ! i)))) \<and>
       avail (wait_cv (prog (fst (mon_threads s ! i)))) (mon_data s) = 0)"
    using pcs[OF i] i reach_no_lost[OF reach q0] by (fastforce simp: right_cv_def no_lost_def waits_def)
qed

end

end
