(* ===== verification/Array_Blocking_Queue.thy ===== *)
theory Array_Blocking_Queue
  imports Monitor
begin

text \<open>
  The bounded blocking queue (\<^verbatim>\<open>muggle/c/sync/array_blocking_queue.c\<close>, \<^verbatim>\<open>array_blocking_queue.h\<close>): a ring of data pointers
  under a mutex, with a condition variable for \<open>put\<close> and one for \<open>take\<close>. The operations are procedures of \<^verbatim>\<open>Monitor\<close>, run by
  any number of threads in any order. The indices and the count are C integers between 0 and the capacity, so none of
  their increments overflows.
\<close>

section \<open>State and operations\<close>

record 'a array_blocking_queue =
  abq_datas :: "'a ptr list"
  abq_capacity :: nat
  abq_take_idx :: nat
  abq_put_idx :: nat
  abq_cnt :: nat

definition abq_zero :: "'a array_blocking_queue" where
  "abq_zero = \<lparr>abq_datas = [], abq_capacity = 0, abq_take_idx = 0, abq_put_idx = 0, abq_cnt = 0\<rparr>"

text \<open>The notification at the end of \<open>enqueue\<close> and \<open>dequeue\<close> is the \<^const>\<open>notify_cv\<close> of their callers.\<close>

definition muggle_array_blocking_queue_enqueue ::
  "'a array_blocking_queue \<Rightarrow> 'a ptr \<Rightarrow> 'a array_blocking_queue" where
  "muggle_array_blocking_queue_enqueue q data =
    (let q = q\<lparr>abq_datas := (abq_datas q)[abq_put_idx q := data]\<rparr>;
         q = q\<lparr>abq_put_idx := abq_put_idx q + 1\<rparr>;
         q = (if abq_put_idx q = abq_capacity q then q\<lparr>abq_put_idx := 0\<rparr> else q)
     in q\<lparr>abq_cnt := abq_cnt q + 1\<rparr>)"

definition muggle_array_blocking_queue_dequeue ::
  "'a array_blocking_queue \<Rightarrow> 'a array_blocking_queue \<times> 'a ptr" where
  "muggle_array_blocking_queue_dequeue q =
    (let data = abq_datas q ! abq_take_idx q;
         q = q\<lparr>abq_take_idx := abq_take_idx q + 1\<rparr>;
         q = (if abq_take_idx q = abq_capacity q then q\<lparr>abq_take_idx := 0\<rparr> else q)
     in (q\<lparr>abq_cnt := abq_cnt q - 1\<rparr>, data))"

text \<open>The last three arguments are what the initialisations of the mutex and of the condition variables return.\<close>

definition muggle_array_blocking_queue_init ::
  "'a ptr malloc \<Rightarrow> int \<Rightarrow> muggle_err \<Rightarrow> muggle_err \<Rightarrow> muggle_err \<Rightarrow> muggle_err \<times> 'a array_blocking_queue" where
  "muggle_array_blocking_queue_init m capacity mutex_ret not_full_ret not_empty_ret =
    (let q = abq_zero in
     if capacity \<le> 0 then (MUGGLE_ERR_INVALID_PARAM, q)
     else
       (let q = q\<lparr>abq_capacity := nat capacity\<rparr> in
        case malloc_array m (cells 8 (nat capacity)) of
          None \<Rightarrow> (MUGGLE_ERR_MEM_ALLOC, q)
        | Some datas \<Rightarrow>
            (let q = q\<lparr>abq_datas := datas, abq_take_idx := 0, abq_put_idx := 0, abq_cnt := 0\<rparr> in
             if mutex_ret \<noteq> MUGGLE_OK then (mutex_ret, q)
             else if not_full_ret \<noteq> MUGGLE_OK then (not_full_ret, q)
             else if not_empty_ret \<noteq> MUGGLE_OK then (not_empty_ret, q)
             else (MUGGLE_OK, q))))"

definition muggle_array_blocking_queue_destroy :: "'a array_blocking_queue \<Rightarrow> muggle_err \<times> 'a array_blocking_queue" where
  "muggle_array_blocking_queue_destroy q = (MUGGLE_OK, q\<lparr>abq_datas := []\<rparr>)"

text \<open>The calls, and what they return.\<close>

datatype 'a abq_call = Put "'a ptr" | Take

datatype 'a abq_ret = Stored muggle_err | Taken "'a ptr"

type_synonym 'a abq_proc = "('a array_blocking_queue, 'a abq_ret, 'a abq_ret) procedure"

definition muggle_array_blocking_queue_put :: "'a ptr \<Rightarrow> 'a abq_proc" where
  "muggle_array_blocking_queue_put data =
    \<lparr>blocked = \<lambda>q. abq_cnt q = abq_capacity q,
     refuse = \<lambda>q. None,
     wait_cv = cv_not_full,
     act = \<lambda>q. (muggle_array_blocking_queue_enqueue q data, Stored MUGGLE_OK),
     notify_cv = cv_not_empty,
     result = \<lambda>q ret. ret,
     lock_failed = Stored MUGGLE_ERR_SYS_CALL\<rparr>"

definition muggle_array_blocking_queue_take :: "'a abq_proc" where
  "muggle_array_blocking_queue_take =
    \<lparr>blocked = \<lambda>q. abq_cnt q = 0,
     refuse = \<lambda>q. None,
     wait_cv = cv_not_empty,
     act = \<lambda>q. (let (q, data) = muggle_array_blocking_queue_dequeue q in (q, Taken data)),
     notify_cv = cv_not_full,
     result = \<lambda>q ret. ret,
     lock_failed = Taken None\<rparr>"

fun abq_prog :: "'a abq_call \<Rightarrow> 'a abq_proc" where
  "abq_prog (Put data) = muggle_array_blocking_queue_put data"
| "abq_prog Take = muggle_array_blocking_queue_take"

type_synonym 'a abq_monitor = "('a array_blocking_queue, 'a abq_call, 'a abq_ret, 'a abq_ret) monitor"

section \<open>The ring is a bounded queue\<close>

definition abq_wf :: "'a array_blocking_queue \<Rightarrow> bool" where
  "abq_wf q = (length (abq_datas q) = abq_capacity q \<and> abq_take_idx q < abq_capacity q \<and>
    abq_put_idx q < abq_capacity q \<and> abq_cnt q \<le> abq_capacity q \<and>
    abq_put_idx q = (abq_take_idx q + abq_cnt q) mod abq_capacity q)"

text \<open>The items from the oldest to the newest.\<close>

definition abq_items :: "'a array_blocking_queue \<Rightarrow> 'a ptr list" where
  "abq_items q = ring_window (abq_datas q) (abq_take_idx q) (abq_cnt q)"

lemma abq_next_index: "i < (c :: nat) \<Longrightarrow> (if i + 1 = c then 0 else i + 1) = (i + 1) mod c"
  by auto

lemma abq_enqueue_fields:
  "abq_capacity (muggle_array_blocking_queue_enqueue q d) = abq_capacity q"
  "abq_take_idx (muggle_array_blocking_queue_enqueue q d) = abq_take_idx q"
  "abq_cnt (muggle_array_blocking_queue_enqueue q d) = Suc (abq_cnt q)"
  "abq_datas (muggle_array_blocking_queue_enqueue q d) = (abq_datas q)[abq_put_idx q := d]"
  "abq_put_idx q < abq_capacity q \<Longrightarrow>
   abq_put_idx (muggle_array_blocking_queue_enqueue q d) = (abq_put_idx q + 1) mod abq_capacity q"
  by (auto simp: muggle_array_blocking_queue_enqueue_def Let_def)

lemma abq_dequeue_fields:
  assumes "muggle_array_blocking_queue_dequeue q = (q', d)"
  shows "abq_capacity q' = abq_capacity q" "abq_put_idx q' = abq_put_idx q" "abq_cnt q' = abq_cnt q - 1"
    "abq_datas q' = abq_datas q" "d = abq_datas q ! abq_take_idx q"
    "abq_take_idx q < abq_capacity q \<Longrightarrow> abq_take_idx q' = (abq_take_idx q + 1) mod abq_capacity q"
  using assms by (auto simp: muggle_array_blocking_queue_dequeue_def Let_def)

lemma abq_dequeue_counts [simp]:
  "abq_capacity (fst (muggle_array_blocking_queue_dequeue q)) = abq_capacity q"
  "abq_cnt (fst (muggle_array_blocking_queue_dequeue q)) = abq_cnt q - 1"
  using abq_dequeue_fields(1,3)[of q] by (cases "muggle_array_blocking_queue_dequeue q"; simp)+

lemma abq_enqueue_wf:
  assumes "abq_wf q" "abq_cnt q \<noteq> abq_capacity q"
  shows "abq_wf (muggle_array_blocking_queue_enqueue q d)"
  using assms by (auto simp: abq_wf_def abq_enqueue_fields mod_simps)

lemma abq_enqueue_items:
  assumes "abq_wf q" "abq_cnt q \<noteq> abq_capacity q"
  shows "abq_items (muggle_array_blocking_queue_enqueue q d) = abq_items q @ [d]"
  using assms ring_window_snoc[of "abq_cnt q" "abq_datas q" "abq_take_idx q" d]
  by (simp add: abq_items_def abq_wf_def abq_enqueue_fields)

lemma abq_dequeue_wf:
  assumes "abq_wf q" "abq_cnt q \<noteq> 0" "muggle_array_blocking_queue_dequeue q = (q', d)"
  shows "abq_wf q'"
proof -
  let ?c = "abq_capacity q"
  have "((abq_take_idx q + 1) mod ?c + (abq_cnt q - 1)) mod ?c = (abq_take_idx q + 1 + (abq_cnt q - 1)) mod ?c"
    by (rule mod_add_left_eq)
  also have "abq_take_idx q + 1 + (abq_cnt q - 1) = abq_take_idx q + abq_cnt q" using assms(2) by simp
  finally show ?thesis using assms(1) abq_dequeue_fields[OF assms(3)] by (auto simp: abq_wf_def)
qed

lemma abq_dequeue_items:
  assumes "abq_wf q" "abq_cnt q \<noteq> 0" "muggle_array_blocking_queue_dequeue q = (q', d)"
  shows "abq_items q = d # abq_items q'"
  using assms(1,2) abq_dequeue_fields[OF assms(3)] ring_window_Suc[of "abq_datas q" "abq_take_idx q" "abq_cnt q - 1"]
    ring_window_mod[of "abq_datas q" "abq_take_idx q + 1"]
  by (auto simp: abq_items_def abq_wf_def)

lemma abq_init_ok:
  assumes "muggle_array_blocking_queue_init m capacity r1 r2 r3 = (MUGGLE_OK, q)" "capacity < 2 ^ 31"
  shows "0 < capacity" "abq_capacity q = nat capacity" "abq_wf q" "abq_items q = []"
proof -
  show c: "0 < capacity" using assms(1)
    by (auto simp: muggle_array_blocking_queue_init_def Let_def split: if_splits)
  have "8 * nat capacity < 2 ^ 64" using c assms(2) by simp
  then have n: "cells 8 (nat capacity) = nat capacity" by (intro cells_small) simp_all
  show "abq_capacity q = nat capacity" "abq_wf q" "abq_items q = []" using assms(1) c n
    by (auto simp: muggle_array_blocking_queue_init_def Let_def abq_wf_def abq_items_def
        split: if_splits option.splits dest!: malloc_array_Some)
qed

section \<open>The acts of the threads\<close>

fun put_data :: "'a abq_call \<times> 'a abq_ret \<Rightarrow> 'a ptr list" where
  "put_data (Put d, ret) = [d]"
| "put_data (Take, ret) = []"

fun taken_data :: "'a abq_call \<times> 'a abq_ret \<Rightarrow> 'a ptr list" where
  "taken_data (Take, Taken d) = [d]"
| "taken_data e = []"

definition abq_inv :: "nat \<Rightarrow> ('a abq_call \<times> 'a abq_ret) list \<Rightarrow> 'a array_blocking_queue \<Rightarrow> bool" where
  "abq_inv c lg q = (abq_wf q \<and> abq_capacity q = c \<and>
    concat (map put_data lg) = concat (map taken_data lg) @ abq_items q)"

text \<open>How many callers have a reason to run.\<close>

fun abq_avail :: "cv \<Rightarrow> 'a array_blocking_queue \<Rightarrow> nat" where
  "abq_avail cv_not_full q = abq_capacity q - abq_cnt q"
| "abq_avail cv_not_empty q = abq_cnt q"

lemma abq_prog_simps [simp]:
  "blocked (muggle_array_blocking_queue_put d) q = (abq_cnt q = abq_capacity q)"
  "refuse (muggle_array_blocking_queue_put d) q = None"
  "wait_cv (muggle_array_blocking_queue_put d) = cv_not_full"
  "act (muggle_array_blocking_queue_put d) q = (muggle_array_blocking_queue_enqueue q d, Stored MUGGLE_OK)"
  "notify_cv (muggle_array_blocking_queue_put d) = cv_not_empty"
  "result (muggle_array_blocking_queue_put d) q ret = ret"
  "lock_failed (muggle_array_blocking_queue_put d) = Stored MUGGLE_ERR_SYS_CALL"
  "blocked muggle_array_blocking_queue_take q = (abq_cnt q = 0)"
  "refuse muggle_array_blocking_queue_take q = None"
  "wait_cv muggle_array_blocking_queue_take = cv_not_empty"
  "act muggle_array_blocking_queue_take q =
    (let (q, data) = muggle_array_blocking_queue_dequeue q in (q, Taken data))"
  "notify_cv muggle_array_blocking_queue_take = cv_not_full"
  "result muggle_array_blocking_queue_take q ret = ret"
  "lock_failed muggle_array_blocking_queue_take = Taken None"
  by (simp_all add: muggle_array_blocking_queue_put_def muggle_array_blocking_queue_take_def)

lemma abq_inv_act:
  assumes "abq_inv c lg q" "\<not> blocked (abq_prog op) q" "act (abq_prog op) q = (q', l)"
  shows "abq_inv c (lg @ [(op, l)]) q'"
proof (cases op)
  case (Put d)
  then show ?thesis using assms abq_enqueue_wf[of q d] abq_enqueue_items[of q d]
    by (auto simp: abq_inv_def abq_enqueue_fields)
next
  case Take
  obtain q1 d where deq: "muggle_array_blocking_queue_dequeue q = (q1, d)" by fastforce
  then show ?thesis using assms Take abq_dequeue_wf[OF _ _ deq] abq_dequeue_items[OF _ _ deq] abq_dequeue_fields(1)[OF deq]
    by (auto simp: abq_inv_def)
qed

interpretation abq: monitor_laws abq_prog "abq_inv c" for c
  by unfold_locales (rule abq_inv_act)

interpretation abq_wake: monitor_wakeups abq_prog "abq_inv c" abq_avail for c
proof
  fix op :: "'a abq_call" and lg q
  show "notify_cv (abq_prog op) \<noteq> wait_cv (abq_prog op)" by (cases op) simp_all
  show "abq_avail (wait_cv (abq_prog op)) q = 0" if "blocked (abq_prog op) q"
    using that by (cases op) simp_all
  show "abq_avail (wait_cv (abq_prog op)) (fst (act (abq_prog op) q)) \<le> abq_avail (wait_cv (abq_prog op)) q - 1"
    by (cases op) (simp_all add: abq_enqueue_fields split_beta)
  show "abq_avail (notify_cv (abq_prog op)) (fst (act (abq_prog op) q)) \<le> Suc (abq_avail (notify_cv (abq_prog op)) q)"
    if "\<not> blocked (abq_prog op) q"
    using that by (cases op) (simp_all add: abq_enqueue_fields split_beta)
qed

lemma abq_run_inv:
  assumes "muggle_array_blocking_queue_init m capacity r1 r2 r3 = (MUGGLE_OK, q)" "capacity < 2 ^ 31"
    "mon_run abq_prog cs (mon_init q) = Some s"
  shows "abq_inv (nat capacity) [] q"
    "abq_inv (nat capacity) (map snd (mon_log abq_prog cs (mon_init q))) (mon_data s)"
proof -
  show i: "abq_inv (nat capacity) [] q" using abq_init_ok[OF assms(1,2)] by (simp add: abq_inv_def)
  show "abq_inv (nat capacity) (map snd (mon_log abq_prog cs (mon_init q))) (mon_data s)"
    by (rule abq.reach_inv[OF run_reach[OF assms(3)] i])
qed

section \<open>Properties\<close>

text \<open>A queue of two cells, and a schedule in which a \<open>take\<close> waits, a \<open>put\<close> wakes it up, and a third \<open>put\<close> has to wait.\<close>

definition abq_demo_queue :: "nat array_blocking_queue" where
  "abq_demo_queue = \<lparr>abq_datas = [None, None], abq_capacity = 2, abq_take_idx = 0, abq_put_idx = 0, abq_cnt = 0\<rparr>"

definition abq_demo_schedule :: "nat abq_call sched list" where
  "abq_demo_schedule = [Call Take, Run 0 None, Run 0 None, Call (Put (Some 7)), Run 1 None, Run 1 (Some 0), Run 1 None,
    Run 1 None, Run 0 None, Run 0 None, Run 0 None, Run 0 None, Call (Put (Some 8)), Run 2 None, Run 2 None, Run 2 None,
    Run 2 None, Call (Put (Some 9)), Run 3 None, Run 3 None, Run 3 None, Run 3 None, Call (Put (Some 10)),
    Run 4 None, Run 4 None]"

definition abq_demo_end :: "nat abq_monitor" where
  "abq_demo_end = \<lparr>mon_data = \<lparr>abq_datas = [Some 9, Some 8], abq_capacity = 2, abq_take_idx = 1, abq_put_idx = 1, abq_cnt = 2\<rparr>,
    mon_mutex = None,
    mon_threads = [(Take, Finished (Taken (Some 7))), (Put (Some 7), Finished (Stored MUGGLE_OK)),
      (Put (Some 8), Finished (Stored MUGGLE_OK)), (Put (Some 9), Finished (Stored MUGGLE_OK)),
      (Put (Some 10), Waiting cv_not_full)]\<rparr>"

lemmas abq_prog_run = muggle_array_blocking_queue_enqueue_def muggle_array_blocking_queue_dequeue_def

lemma abq_demo_init:
  "muggle_array_blocking_queue_init (Some (\<lambda>i. None)) 2 MUGGLE_OK MUGGLE_OK MUGGLE_OK = (MUGGLE_OK, abq_demo_queue)"
  by (simp add: muggle_array_blocking_queue_init_def abq_demo_queue_def abq_zero_def upt_rec)

lemma abq_demo_run: "mon_run abq_prog abq_demo_schedule (mon_init abq_demo_queue) = Some abq_demo_end"
  by (simp add: abq_demo_schedule_def abq_demo_queue_def abq_demo_end_def run_defs abq_prog_run)

lemma abq_demo_log:
  "mon_log abq_prog abq_demo_schedule (mon_init abq_demo_queue) =
    [(1, Put (Some 7), Stored MUGGLE_OK), (0, Take, Taken (Some 7)), (2, Put (Some 8), Stored MUGGLE_OK),
     (3, Put (Some 9), Stored MUGGLE_OK)]"
  by (simp add: abq_demo_schedule_def abq_demo_queue_def abq_demo_end_def run_defs abq_prog_run)

text \<open>
  C32. However many threads put and take, in whatever order they run, with spurious wake-ups and failing locks: the indices
  of the queue stay inside its array, the count inside the capacity, and at most one thread is inside the mutex.
\<close>

theorem abq_well_formed:
  assumes "muggle_array_blocking_queue_init m capacity r1 r2 r3 = (MUGGLE_OK, q)" "capacity < 2 ^ 31"
    and "mon_run abq_prog cs (mon_init q) = Some s"
  shows "0 < capacity \<and> length (abq_datas (mon_data s)) = nat capacity \<and>
    abq_take_idx (mon_data s) < nat capacity \<and> abq_put_idx (mon_data s) < nat capacity \<and>
    abq_cnt (mon_data s) \<le> nat capacity \<and>
    abq_put_idx (mon_data s) = (abq_take_idx (mon_data s) + abq_cnt (mon_data s)) mod nat capacity \<and>
    (\<forall>i < length (mon_threads s). \<forall>j < length (mon_threads s).
      holds (snd (mon_threads s ! i)) \<and> holds (snd (mon_threads s ! j)) \<longrightarrow> i = j)"
proof -
  have "mon_excl s" by (rule reach_excl[OF run_reach[OF assms(3)]])
  then have "\<forall>i < length (mon_threads s). \<forall>j < length (mon_threads s).
      holds (snd (mon_threads s ! i)) \<and> holds (snd (mon_threads s ! j)) \<longrightarrow> i = j"
    by (auto simp: mon_excl_def)
  then show ?thesis using abq_run_inv(2)[OF assms] abq_init_ok(1)[OF assms(1,2)] by (auto simp: abq_inv_def abq_wf_def)
qed

theorem abq_well_formed_witness:
  "0 < (2 :: int) \<and> length (abq_datas (mon_data abq_demo_end)) = nat 2 \<and>
    abq_take_idx (mon_data abq_demo_end) < nat 2 \<and> abq_put_idx (mon_data abq_demo_end) < nat 2"
  using abq_well_formed[OF abq_demo_init _ abq_demo_run] by simp



text \<open>
  C34. No wake-up is lost and the queue never deadlocks. From every reachable state the calls in flight take at most six steps
  each, and some run ends with no thread able to run; whenever no thread can run, the mutex is free and every call has
  returned, or is a \<open>put\<close> that waits because the queue is full, or a \<open>take\<close> that waits because it is empty.
\<close>

theorem abq_no_lost_wakeup:
  assumes "muggle_array_blocking_queue_init m capacity r1 r2 r3 = (MUGGLE_OK, q)" "capacity < 2 ^ 31"
    and "mon_run abq_prog cs (mon_init q) = Some s"
  shows "(\<forall>cs' s'. mon_run abq_prog cs' s = Some s' \<and> list_all is_step cs' \<longrightarrow>
        length cs' \<le> 6 * length (mon_threads s)) \<and>
    (\<exists>cs' s'. mon_run abq_prog cs' s = Some s' \<and> list_all is_step cs' \<and> quiet abq_prog s') \<and>
    (quiet abq_prog s \<longrightarrow> (\<forall>i < length (mon_threads s).
      mon_mutex s = None \<and>
      ((\<exists>r. snd (mon_threads s ! i) = Finished r) \<or>
       (\<exists>d. mon_threads s ! i = (Put d, Waiting cv_not_full) \<and> abq_cnt (mon_data s) = nat capacity) \<or>
       (mon_threads s ! i = (Take, Waiting cv_not_empty) \<and> abq_cnt (mon_data s) = 0))))"
proof -
  have inv: "abq_cnt (mon_data s) \<le> nat capacity" "abq_capacity (mon_data s) = nat capacity"
    using abq_run_inv(2)[OF assms] by (auto simp: abq_inv_def abq_wf_def)
  have "mon_mutex s = None \<and>
      ((\<exists>r. snd (mon_threads s ! i) = Finished r) \<or>
       (\<exists>d. mon_threads s ! i = (Put d, Waiting cv_not_full) \<and> abq_cnt (mon_data s) = nat capacity) \<or>
       (mon_threads s ! i = (Take, Waiting cv_not_empty) \<and> abq_cnt (mon_data s) = 0))"
    if "quiet abq_prog s" "i < length (mon_threads s)" for i
  proof -
    obtain op p where t: "mon_threads s ! i = (op, p)" by (cases "mon_threads s ! i")
    show ?thesis using abq_wake.quiet_waits[OF run_reach[OF assms(3)] abq_run_inv(1)[OF assms] that] inv t
      by (cases op) auto
  qed
  then show ?thesis using run_short[of abq_prog _ s] run_to_quiet[of abq_prog s] by blast
qed

theorem abq_no_lost_wakeup_witness:
  "quiet abq_prog abq_demo_end \<and> mon_threads abq_demo_end ! 4 = (Put (Some 10), Waiting cv_not_full) \<and>
   abq_cnt (mon_data abq_demo_end) = 2"
proof -
  have q: "quiet abq_prog abq_demo_end"
    by (simp add: quiet_def abq_demo_end_def run_defs upt_rec)
  have t: "mon_threads abq_demo_end ! 4 = (Put (Some 10), Waiting cv_not_full)" "4 < length (mon_threads abq_demo_end)"
    by (simp_all add: abq_demo_end_def)
  have "quiet abq_prog abq_demo_end \<longrightarrow> (\<forall>i < length (mon_threads abq_demo_end).
      mon_mutex abq_demo_end = None \<and>
      ((\<exists>r. snd (mon_threads abq_demo_end ! i) = Finished r) \<or>
       (\<exists>d. mon_threads abq_demo_end ! i = (Put d, Waiting cv_not_full) \<and> abq_cnt (mon_data abq_demo_end) = nat 2) \<or>
       (mon_threads abq_demo_end ! i = (Take, Waiting cv_not_empty) \<and> abq_cnt (mon_data abq_demo_end) = 0)))"
    using abq_no_lost_wakeup[OF abq_demo_init _ abq_demo_run] by simp
  then show ?thesis using q t by auto
qed

end
