(* ===== verification/Double_Buffer.thy ===== *)
theory Double_Buffer
  imports Monitor
begin

text \<open>
  The double buffer (\<^verbatim>\<open>muggle/c/sync/double_buffer.c\<close>, \<^verbatim>\<open>double_buffer.h\<close>): many writers append to the back buffer, one
  reader swaps the two buffers and gets the front one. The operations are procedures of \<^verbatim>\<open>Monitor\<close>, run by any number of
  threads in any order. A buffer is named by its index in \<^verbatim>\<open>buf\<close>. The counts are C integers between 0 and the capacity, so
  their increments do not overflow.
\<close>

section \<open>State and operations\<close>

record 'a single_buffer =
  sb_datas :: "'a ptr list"
  sb_cnt :: nat

record 'a double_buffer =
  db_buf :: "'a single_buffer list"
  db_front :: nat
  db_back :: nat
  db_capacity :: nat
  db_non_blocking :: bool

definition db_zero :: "'a double_buffer" where
  "db_zero = \<lparr>db_buf = [\<lparr>sb_datas = [], sb_cnt = 0\<rparr>, \<lparr>sb_datas = [], sb_cnt = 0\<rparr>], db_front = 0, db_back = 0,
     db_capacity = 0, db_non_blocking = False\<rparr>"

text \<open>
  One outcome of \<^verbatim>\<open>malloc\<close> for each buffer; the last three arguments are what the initialisations of the mutex and of the
  condition variables return. When the second \<^verbatim>\<open>malloc\<close> fails, the first array is released but
  \<^verbatim>\<open>buf[0].datas\<close> is not reset: the field keeps pointing to it.
\<close>

definition muggle_double_buffer_init ::
  "'a ptr malloc \<Rightarrow> 'a ptr malloc \<Rightarrow> int \<Rightarrow> bool \<Rightarrow> muggle_err \<Rightarrow> muggle_err \<Rightarrow> muggle_err \<Rightarrow>
   muggle_err \<times> 'a double_buffer" where
  "muggle_double_buffer_init m0 m1 capacity non_blocking mutex_ret not_full_ret not_empty_ret =
    (let buf = db_zero in
     if capacity \<le> 0 then (MUGGLE_ERR_INVALID_PARAM, buf)
     else
       (let buf = buf\<lparr>db_capacity := nat capacity\<rparr> in
        case malloc_array m0 (cells 8 (nat capacity)) of
          None \<Rightarrow> (MUGGLE_ERR_MEM_ALLOC, buf)
        | Some d0 \<Rightarrow>
            (case malloc_array m1 (cells 8 (nat capacity)) of
               None \<Rightarrow>
                 (MUGGLE_ERR_MEM_ALLOC, buf\<lparr>db_buf := (db_buf buf)[0 := (db_buf buf ! 0)\<lparr>sb_datas := d0\<rparr>]\<rparr>)
             | Some d1 \<Rightarrow>
                 (let buf = buf\<lparr>db_buf := [\<lparr>sb_datas = d0, sb_cnt = 0\<rparr>, \<lparr>sb_datas = d1, sb_cnt = 0\<rparr>],
                        db_front := 0, db_back := 1, db_non_blocking := non_blocking\<rparr> in
                  if mutex_ret \<noteq> MUGGLE_OK then (mutex_ret, buf)
                  else if not_full_ret \<noteq> MUGGLE_OK then (not_full_ret, buf)
                  else if not_empty_ret \<noteq> MUGGLE_OK then (not_empty_ret, buf)
                  else (MUGGLE_OK, buf)))))"

definition muggle_double_buffer_destroy :: "'a double_buffer \<Rightarrow> muggle_err \<times> 'a double_buffer" where
  "muggle_double_buffer_destroy buf =
    (MUGGLE_OK, buf\<lparr>db_buf := map (\<lambda>b. b\<lparr>sb_datas := []\<rparr>) (db_buf buf)\<rparr>)"

text \<open>What the two operations do under the mutex.\<close>

definition db_append :: "'a double_buffer \<Rightarrow> 'a ptr \<Rightarrow> 'a double_buffer" where
  "db_append buf data =
    (let p_back = db_buf buf ! db_back buf in
     buf\<lparr>db_buf := (db_buf buf)[db_back buf :=
       p_back\<lparr>sb_datas := (sb_datas p_back)[sb_cnt p_back := data], sb_cnt := sb_cnt p_back + 1\<rparr>]\<rparr>)"

definition db_swap :: "'a double_buffer \<Rightarrow> 'a double_buffer" where
  "db_swap buf =
    (let buf = buf\<lparr>db_buf := (db_buf buf)[db_front buf := (db_buf buf ! db_front buf)\<lparr>sb_cnt := 0\<rparr>]\<rparr>;
         tmp = db_front buf;
         buf = buf\<lparr>db_front := db_back buf\<rparr>
     in buf\<lparr>db_back := tmp\<rparr>)"

datatype 'a db_call = Write "'a ptr" | Read

datatype db_local = Ret muggle_err | Swapped

datatype db_ret = Written muggle_err | Buffer "nat ptr"

type_synonym 'a db_proc = "('a double_buffer, db_local, db_ret) procedure"

fun written :: "db_local \<Rightarrow> db_ret" where
  "written (Ret err) = Written err"
| "written Swapped = Written MUGGLE_OK"

definition muggle_double_buffer_write :: "'a ptr \<Rightarrow> 'a db_proc" where
  "muggle_double_buffer_write data =
    \<lparr>blocked = \<lambda>buf. sb_cnt (db_buf buf ! db_back buf) = db_capacity buf,
     refuse = \<lambda>buf. if db_non_blocking buf then Some (Ret MUGGLE_ERR_FULL) else None,
     wait_cv = cv_not_full,
     act = \<lambda>buf. (db_append buf data, Ret MUGGLE_OK),
     notify_cv = cv_not_empty,
     result = \<lambda>buf l. written l,
     lock_failed = Written MUGGLE_ERR_SYS_CALL\<rparr>"

text \<open>The pointer is read from the structure after the mutex was released.\<close>

definition muggle_double_buffer_read :: "'a db_proc" where
  "muggle_double_buffer_read =
    \<lparr>blocked = \<lambda>buf. sb_cnt (db_buf buf ! db_back buf) = 0,
     refuse = \<lambda>buf. None,
     wait_cv = cv_not_empty,
     act = \<lambda>buf. (db_swap buf, Swapped),
     notify_cv = cv_not_full,
     result = \<lambda>buf l. Buffer (Some (db_front buf)),
     lock_failed = Buffer None\<rparr>"

fun db_prog :: "'a db_call \<Rightarrow> 'a db_proc" where
  "db_prog (Write data) = muggle_double_buffer_write data"
| "db_prog Read = muggle_double_buffer_read"

type_synonym 'a db_monitor = "('a double_buffer, 'a db_call, db_local, db_ret) monitor"

section \<open>Batches\<close>

text \<open>
  What the writers and the reader see: writing appends to the pending data, reading turns the pending data into the next
  batch.
\<close>

fun db_spec_step :: "'a db_call \<Rightarrow> 'a ptr list list \<times> 'a ptr list \<Rightarrow> 'a ptr list list \<times> 'a ptr list" where
  "db_spec_step (Write d) (batches, pending) = (batches, pending @ [d])"
| "db_spec_step Read (batches, pending) = (batches @ [pending], [])"

definition db_spec :: "('a db_call \<times> db_local) list \<Rightarrow> 'a ptr list list \<times> 'a ptr list" where
  "db_spec lg = fold (\<lambda>e. db_spec_step (fst e)) lg ([], [])"

fun written_data :: "'a db_call \<times> db_local \<Rightarrow> 'a ptr list" where
  "written_data (Write d, l) = [d]"
| "written_data (Read, l) = []"

lemma db_spec_snoc: "db_spec (lg @ [e]) = db_spec_step (fst e) (db_spec lg)"
  by (simp add: db_spec_def)

lemma db_spec_data: "concat (fst (db_spec lg)) @ snd (db_spec lg) = concat (map written_data lg)"
proof (induction lg rule: rev_induct)
  case (snoc e lg)
  obtain op l where e: "e = (op, l)" by (cases e)
  obtain bs p where p: "db_spec lg = (bs, p)" by (cases "db_spec lg")
  show ?case using snoc by (cases op) (simp_all add: db_spec_snoc e p)
qed (simp add: db_spec_def)

section \<open>The buffers hold the last batch and the pending data\<close>

definition sb_items :: "'a double_buffer \<Rightarrow> nat \<Rightarrow> 'a ptr list" where
  "sb_items buf i = take (sb_cnt (db_buf buf ! i)) (sb_datas (db_buf buf ! i))"

definition db_wf :: "'a double_buffer \<Rightarrow> bool" where
  "db_wf buf = (length (db_buf buf) = 2 \<and> 0 < db_capacity buf \<and> db_front buf < 2 \<and> db_back buf < 2 \<and>
    db_front buf \<noteq> db_back buf \<and>
    (\<forall>i < 2. length (sb_datas (db_buf buf ! i)) = db_capacity buf \<and> sb_cnt (db_buf buf ! i) \<le> db_capacity buf))"

lemma db_append_wf:
  assumes "db_wf buf" "sb_cnt (db_buf buf ! db_back buf) \<noteq> db_capacity buf"
  shows "db_wf (db_append buf d)" "sb_items (db_append buf d) (db_back buf) = sb_items buf (db_back buf) @ [d]"
    "sb_items (db_append buf d) (db_front buf) = sb_items buf (db_front buf)"
proof -
  have b: "db_back buf < length (db_buf buf)" "db_front buf \<noteq> db_back buf" "db_back buf < 2"
    using assms(1) by (auto simp: db_wf_def)
  have c: "sb_cnt (db_buf buf ! db_back buf) < length (sb_datas (db_buf buf ! db_back buf))"
    using assms b(3) by (auto simp: db_wf_def le_less)
  show "sb_items (db_append buf d) (db_back buf) = sb_items buf (db_back buf) @ [d]"
    using b(1) c by (simp add: sb_items_def db_append_def Let_def take_update_snoc)
  show "sb_items (db_append buf d) (db_front buf) = sb_items buf (db_front buf)"
    using b(2) by (simp add: sb_items_def db_append_def Let_def)
  have "i < 2 \<Longrightarrow> length (sb_datas (db_buf (db_append buf d) ! i)) = db_capacity buf \<and>
    sb_cnt (db_buf (db_append buf d) ! i) \<le> db_capacity buf" for i
    using assms b c by (cases "i = db_back buf") (auto simp: db_wf_def db_append_def Let_def)
  then show "db_wf (db_append buf d)" using assms(1) by (simp add: db_wf_def db_append_def Let_def)
qed

lemma db_append_fields [simp]:
  "db_front (db_append buf d) = db_front buf" "db_back (db_append buf d) = db_back buf"
  "db_capacity (db_append buf d) = db_capacity buf" "db_non_blocking (db_append buf d) = db_non_blocking buf"
  by (simp_all add: db_append_def Let_def)

lemma db_append_cnt:
  "db_wf buf \<Longrightarrow> sb_cnt (db_buf (db_append buf d) ! db_back buf) = Suc (sb_cnt (db_buf buf ! db_back buf))"
  by (auto simp: db_wf_def db_append_def Let_def)

lemma db_swap_fields [simp]:
  "db_front (db_swap buf) = db_back buf" "db_back (db_swap buf) = db_front buf"
  "db_capacity (db_swap buf) = db_capacity buf" "db_non_blocking (db_swap buf) = db_non_blocking buf"
  by (simp_all add: db_swap_def Let_def)

lemma db_swap_cnt: "db_wf buf \<Longrightarrow> sb_cnt (db_buf (db_swap buf) ! db_front buf) = 0"
  by (auto simp: db_wf_def db_swap_def Let_def)

lemma db_swap_wf:
  assumes "db_wf buf"
  shows "db_wf (db_swap buf)" "sb_items (db_swap buf) (db_back buf) = sb_items buf (db_back buf)"
    "sb_items (db_swap buf) (db_front buf) = []"
proof -
  have b: "db_front buf < length (db_buf buf)" "db_front buf \<noteq> db_back buf" "db_front buf < 2" "db_back buf < 2"
    using assms by (auto simp: db_wf_def)
  show "sb_items (db_swap buf) (db_back buf) = sb_items buf (db_back buf)" "sb_items (db_swap buf) (db_front buf) = []"
    using b by (simp_all add: sb_items_def db_swap_def Let_def)
  have "i < 2 \<Longrightarrow> length (sb_datas (db_buf (db_swap buf) ! i)) = db_capacity buf \<and>
    sb_cnt (db_buf (db_swap buf) ! i) \<le> db_capacity buf" for i
    using assms b by (cases "i = db_front buf") (auto simp: db_wf_def db_swap_def Let_def)
  then show "db_wf (db_swap buf)" using assms b by (simp add: db_wf_def db_swap_def Let_def)
qed

definition db_inv :: "nat \<Rightarrow> bool \<Rightarrow> ('a db_call \<times> db_local) list \<Rightarrow> 'a double_buffer \<Rightarrow> bool" where
  "db_inv c nb lg buf = (db_wf buf \<and> db_capacity buf = c \<and> db_non_blocking buf = nb \<and>
    sb_items buf (db_back buf) = snd (db_spec lg) \<and>
    sb_items buf (db_front buf) = (if fst (db_spec lg) = [] then [] else List.last (fst (db_spec lg))) \<and>
    (\<forall>b \<in> set (fst (db_spec lg)). b \<noteq> [] \<and> length b \<le> c))"

text \<open>A writer has a reason to run when the back buffer is empty, the reader when it is not.\<close>

fun db_avail :: "cv \<Rightarrow> 'a double_buffer \<Rightarrow> nat" where
  "db_avail cv_not_full buf = (if sb_cnt (db_buf buf ! db_back buf) = 0 then 1 else 0)"
| "db_avail cv_not_empty buf = (if sb_cnt (db_buf buf ! db_back buf) = 0 then 0 else 1)"

lemma db_prog_simps [simp]:
  "blocked (muggle_double_buffer_write d) buf = (sb_cnt (db_buf buf ! db_back buf) = db_capacity buf)"
  "refuse (muggle_double_buffer_write d) buf = (if db_non_blocking buf then Some (Ret MUGGLE_ERR_FULL) else None)"
  "wait_cv (muggle_double_buffer_write d) = cv_not_full"
  "act (muggle_double_buffer_write d) buf = (db_append buf d, Ret MUGGLE_OK)"
  "notify_cv (muggle_double_buffer_write d) = cv_not_empty"
  "result (muggle_double_buffer_write d) buf l = written l"
  "lock_failed (muggle_double_buffer_write d) = Written MUGGLE_ERR_SYS_CALL"
  "blocked muggle_double_buffer_read buf = (sb_cnt (db_buf buf ! db_back buf) = 0)"
  "refuse muggle_double_buffer_read buf = None"
  "wait_cv muggle_double_buffer_read = cv_not_empty"
  "act muggle_double_buffer_read buf = (db_swap buf, Swapped)"
  "notify_cv muggle_double_buffer_read = cv_not_full"
  "result muggle_double_buffer_read buf l = Buffer (Some (db_front buf))"
  "lock_failed muggle_double_buffer_read = Buffer None"
  by (simp_all add: muggle_double_buffer_write_def muggle_double_buffer_read_def)

lemma db_inv_act:
  assumes "db_inv c nb lg buf" "\<not> blocked (db_prog op) buf" "act (db_prog op) buf = (buf', l)"
  shows "db_inv c nb (lg @ [(op, l)]) buf'"
proof -
  obtain bs p where spec: "db_spec lg = (bs, p)" by (cases "db_spec lg")
  have wf: "db_wf buf" and b: "db_back buf < 2" using assms(1) by (auto simp: db_inv_def db_wf_def)
  show ?thesis
  proof (cases op)
    case (Write d)
    then have "buf' = db_append buf d" "sb_cnt (db_buf buf ! db_back buf) \<noteq> db_capacity buf" using assms by simp_all
    then show ?thesis using assms(1) Write db_append_wf[OF wf, of d] by (auto simp: db_inv_def db_spec_snoc spec)
  next
    case Read
    have "sb_cnt (db_buf buf ! db_back buf) \<le> length (sb_datas (db_buf buf ! db_back buf))"
      "length (sb_datas (db_buf buf ! db_back buf)) = c"
      using assms(1) b by (auto simp: db_inv_def db_wf_def)
    then have "length (sb_items buf (db_back buf)) = sb_cnt (db_buf buf ! db_back buf)"
      "sb_cnt (db_buf buf ! db_back buf) \<le> c" by (simp_all add: sb_items_def)
    then have "sb_items buf (db_back buf) \<noteq> [] \<and> length (sb_items buf (db_back buf)) \<le> c"
      using assms(2) Read by auto
    moreover have "buf' = db_swap buf" using assms(3) Read by simp
    ultimately show ?thesis using assms(1) Read db_swap_wf[OF wf] by (simp add: db_inv_def db_spec_snoc spec ball_Un)
  qed
qed

interpretation db: monitor_laws db_prog "db_inv c nb" for c nb
  by unfold_locales (rule db_inv_act)

interpretation db_wake: monitor_wakeups db_prog "db_inv c nb" db_avail for c nb
proof
  fix op :: "'a db_call"
  show "notify_cv (db_prog op) \<noteq> wait_cv (db_prog op)" by (cases op) simp_all
next
  fix op :: "'a db_call" and lg and buf :: "'a double_buffer"
  assume inv: "db_inv c nb lg buf" and "blocked (db_prog op) buf"
  then show "db_avail (wait_cv (db_prog op)) buf = 0" by (cases op) (auto simp: db_inv_def db_wf_def)
next
  fix op :: "'a db_call" and lg and buf :: "'a double_buffer"
  assume inv: "db_inv c nb lg buf"
  then show "db_avail (wait_cv (db_prog op)) (fst (act (db_prog op) buf)) \<le> db_avail (wait_cv (db_prog op)) buf - 1"
    if "\<not> blocked (db_prog op) buf"
    using that by (cases op) (simp_all add: db_inv_def db_append_cnt db_swap_cnt)
  show "db_avail (notify_cv (db_prog op)) (fst (act (db_prog op) buf)) \<le> Suc (db_avail (notify_cv (db_prog op)) buf)"
    by (cases op) simp_all
qed

lemma db_init_ok:
  assumes "muggle_double_buffer_init m0 m1 capacity nb r1 r2 r3 = (MUGGLE_OK, buf)" "capacity < 2 ^ 31"
  shows "db_inv (nat capacity) nb [] buf"
proof -
  have c: "0 < capacity" using assms(1) by (auto simp: muggle_double_buffer_init_def Let_def split: if_splits)
  have "8 * nat capacity < 2 ^ 64" using c assms(2) by simp
  then have n: "cells 8 (nat capacity) = nat capacity" by (intro cells_small) simp_all
  obtain d0 d1 where d: "malloc_array m0 (nat capacity) = Some d0" "malloc_array m1 (nat capacity) = Some d1"
    using assms(1) c n by (auto simp: muggle_double_buffer_init_def Let_def split: if_splits option.splits)
  then have "buf = \<lparr>db_buf = [\<lparr>sb_datas = d0, sb_cnt = 0\<rparr>, \<lparr>sb_datas = d1, sb_cnt = 0\<rparr>], db_front = 0, db_back = 1,
      db_capacity = nat capacity, db_non_blocking = nb\<rparr>"
    using assms(1) c n by (auto simp: muggle_double_buffer_init_def db_zero_def Let_def split: if_splits)
  then show ?thesis using c d[THEN malloc_array_Some]
    by (auto simp: db_inv_def db_wf_def db_spec_def sb_items_def less_Suc_eq numeral_2_eq_2)
qed

lemma db_run_inv:
  assumes "muggle_double_buffer_init m0 m1 capacity nb r1 r2 r3 = (MUGGLE_OK, buf)" "capacity < 2 ^ 31"
    "mon_run db_prog cs (mon_init buf) = Some s"
  shows "db_inv (nat capacity) nb (map snd (mon_log db_prog cs (mon_init buf))) (mon_data s)"
  by (rule db.reach_inv[OF run_reach[OF assms(3)] db_init_ok[OF assms(1,2)]])

section \<open>The pointer that a read returns\<close>

text \<open>The call whose swap is the last one.\<close>

fun is_read :: "nat \<times> 'a db_call \<times> db_local \<Rightarrow> bool" where
  "is_read (i, Read, l) = True"
| "is_read (i, Write d, l) = False"

definition last_swap :: "(nat \<times> 'a db_call \<times> db_local) list \<Rightarrow> nat ptr" where
  "last_swap lg = (let es = filter is_read lg in if es = [] then None else Some (fst (List.last es)))"

lemma last_swap_simps:
  "last_swap [] = None" "last_swap (lg @ [(i, Read, l)]) = Some i" "last_swap (lg @ [(i, Write d, l)]) = last_swap lg"
  by (simp_all add: last_swap_def Let_def)

definition front_held :: "(nat \<times> 'a db_call \<times> db_local) list \<Rightarrow> 'a db_monitor \<Rightarrow> bool" where
  "front_held lg s = (\<forall>i. last_swap lg = Some i \<longrightarrow> i < length (mon_threads s) \<and> fst (mon_threads s ! i) = Read \<and>
    (snd (mon_threads s ! i) = Unlock Swapped \<or> snd (mon_threads s ! i) = Return Swapped \<or>
     snd (mon_threads s ! i) = Finished (Buffer (Some (db_front (mon_data s))))))"

lemma front_held_set_pc:
  assumes "front_held lg s" "j < length (mon_threads s)"
    "\<And>l r. snd (mon_threads s ! j) \<noteq> Unlock l \<and> snd (mon_threads s ! j) \<noteq> Return l \<and> snd (mon_threads s ! j) \<noteq> Finished r"
  shows "front_held lg (s\<lparr>mon_mutex := m, mon_threads := set_pc j p (mon_threads s)\<rparr>)"
  using assms by (auto simp: front_held_def)

lemma front_held_step:
  assumes h: "front_held lg s" and s': "mon_next db_prog ch s = Some s'"
  shows "front_held (lg @ mon_event db_prog ch s) s'"
  using s'
proof (cases rule: mon_nextE)
  case (act j w q' l ts')
  have ts': "snd (ts' ! j) = Unlock l" "\<And>i. fst (ts' ! i) = fst (mon_threads s ! i)" "length ts' = length (mon_threads s)"
    using notify_one_frame(1,2)[OF act(7)] notify_one_frame(3)[OF act(7), of j] act(3) by auto
  have other: "snd (ts' ! i) = snd (mon_threads s ! i)"
    if "i < length (mon_threads s)" "i \<noteq> j" "\<not> is_waiting (snd (mon_threads s ! i))" for i
    using notify_one_frame(3)[OF act(7), of i] act(3) that by auto
  show ?thesis
  proof (cases "fst (mon_threads s ! j)")
    case (Write d)
    have front: "db_front q' = db_front (mon_data s)" using act(6) Write by auto
    have "i < length (mon_threads s) \<and> fst (mon_threads s ! i) = Read \<and> snd (ts' ! i) = snd (mon_threads s ! i)"
      if "last_swap lg = Some i" for i
    proof -
      have i: "i < length (mon_threads s)" "fst (mon_threads s ! i) = Read" "\<not> is_waiting (snd (mon_threads s ! i))"
        using h that by (auto simp: front_held_def)
      then have "i \<noteq> j" using Write by auto
      then show ?thesis using other[OF i(1) _ i(3)] i by simp
    qed
    then show ?thesis using h act(2,8) Write front ts'(2,3)
      by (simp add: front_held_def last_swap_simps)
  next
    case Read
    then have "l = Swapped" using act(6) by auto
    then show ?thesis using act(2,3,8) Read ts' by (simp add: front_held_def last_swap_simps)
  qed
next
  case (call op)
  then show ?thesis using h by (auto simp: front_held_def nth_append)
next
  case (lock j w)
  then show ?thesis using front_held_set_pc[OF h lock(3), where m = "Some j" and p = Test] by auto
next
  case (refused j w l)
  then show ?thesis using front_held_set_pc[OF h refused(3), where m = "mon_mutex s" and p = "Unlock l"] by simp
next
  case (wait j w)
  then show ?thesis
    using front_held_set_pc[OF h wait(3), where m = None and p = "Waiting (wait_cv (db_prog (fst (mon_threads s ! j))))"] by simp
next
  case (lock_fails j)
  then show ?thesis
    using front_held_set_pc[OF h lock_fails(3), where m = "mon_mutex s" and
        p = "Finished (lock_failed (db_prog (fst (mon_threads s ! j))))"] by simp
next
  case (spurious j c)
  then show ?thesis using front_held_set_pc[OF h spurious(3), where m = "mon_mutex s" and p = Woken] by simp
next
  case (unlock j w l)
  then show ?thesis using h by (auto simp: front_held_def)
next
  case (return j w l)
  then show ?thesis using h by (auto simp: front_held_def)
qed

lemma reach_front_held: "mon_reach db_prog buf lg s \<Longrightarrow> front_held lg s"
  by (induction rule: mon_reach.induct)
    (simp_all add: front_held_step, simp add: front_held_def last_swap_simps)

section \<open>Who waits for room\<close>

text \<open>A writer waits only for a blocking buffer; in the other ones it returns an error.\<close>

definition writers_block :: "'a db_monitor \<Rightarrow> bool" where
  "writers_block s = (\<forall>i < length (mon_threads s). is_waiting (snd (mon_threads s ! i)) \<longrightarrow>
    fst (mon_threads s ! i) = Read \<or> \<not> db_non_blocking (mon_data s))"

lemma act_non_blocking: "act (db_prog op) buf = (buf', l) \<Longrightarrow> db_non_blocking buf' = db_non_blocking buf"
  by (cases op) auto

lemma writers_block_step:
  assumes h: "writers_block s" and s': "mon_next db_prog ch s = Some s'"
  shows "writers_block s'"
  using s'
proof (cases rule: mon_nextE)
  case (act j w q' l ts')
  have "is_waiting (snd (mon_threads s ! i))" if "i < length (mon_threads s)" "is_waiting (snd (ts' ! i))" for i
    using notify_one_frame(3)[OF act(7), of i] act(3) that by (cases "i = j") auto
  moreover have "length ts' = length (mon_threads s)" "fst (ts' ! i) = fst (mon_threads s ! i)" for i
    using notify_one_frame(1,2)[OF act(7)] by simp_all
  ultimately show ?thesis using h act(8) act_non_blocking[OF act(6)] by (simp add: writers_block_def)
next
  case (wait j w)
  then have "fst (mon_threads s ! j) = Read \<or> \<not> db_non_blocking (mon_data s)"
    by (cases "fst (mon_threads s ! j)") (auto split: if_splits)
  then show ?thesis using h wait(3,7) by (auto simp: writers_block_def)
qed (use h in \<open>auto simp: writers_block_def nth_append less_Suc_eq\<close>)

lemma reach_writers_block: "mon_reach db_prog buf lg s \<Longrightarrow> writers_block s"
  by (induction rule: mon_reach.induct) (auto intro: writers_block_step, simp add: writers_block_def mon_init_def)

section \<open>Properties\<close>

text \<open>
  A buffer of capacity two in which two writers wait, a read makes room for both, and one of them stays asleep.
\<close>

definition db_demo_buffer :: "nat double_buffer" where
  "db_demo_buffer = \<lparr>db_buf = [\<lparr>sb_datas = [None, None], sb_cnt = 0\<rparr>, \<lparr>sb_datas = [None, None], sb_cnt = 0\<rparr>],
    db_front = 0, db_back = 1, db_capacity = 2, db_non_blocking = False\<rparr>"

definition db_demo_schedule :: "nat db_call sched list" where
  "db_demo_schedule = [Call (Write (Some 1)), Run 0 None, Run 0 None, Run 0 None, Run 0 None,
    Call (Write (Some 2)), Run 1 None, Run 1 None, Run 1 None, Run 1 None,
    Call (Write (Some 3)), Run 2 None, Run 2 None, Call (Write (Some 4)), Run 3 None, Run 3 None,
    Call Read, Run 4 None, Run 4 (Some 2), Run 4 None, Run 4 None, Run 2 None, Run 2 None, Run 2 None, Run 2 None]"

definition db_demo_end :: "nat db_monitor" where
  "db_demo_end = \<lparr>mon_data = \<lparr>db_buf = [\<lparr>sb_datas = [Some 3, None], sb_cnt = 1\<rparr>, \<lparr>sb_datas = [Some 1, Some 2], sb_cnt = 2\<rparr>],
      db_front = 1, db_back = 0, db_capacity = 2, db_non_blocking = False\<rparr>,
    mon_mutex = None,
    mon_threads = [(Write (Some 1), Finished (Written MUGGLE_OK)), (Write (Some 2), Finished (Written MUGGLE_OK)),
      (Write (Some 3), Finished (Written MUGGLE_OK)), (Write (Some 4), Waiting cv_not_full),
      (Read, Finished (Buffer (Some 1)))]\<rparr>"

lemmas db_prog_run = db_append_def db_swap_def

lemma db_demo_init:
  "muggle_double_buffer_init (Some (\<lambda>i. None)) (Some (\<lambda>i. None)) 2 False MUGGLE_OK MUGGLE_OK MUGGLE_OK =
    (MUGGLE_OK, db_demo_buffer)"
  by (simp add: muggle_double_buffer_init_def db_demo_buffer_def db_zero_def upt_rec)

lemma db_demo_run: "mon_run db_prog db_demo_schedule (mon_init db_demo_buffer) = Some db_demo_end"
  by (simp add: db_demo_schedule_def db_demo_buffer_def db_demo_end_def run_defs db_prog_run)

lemma db_demo_log:
  "mon_log db_prog db_demo_schedule (mon_init db_demo_buffer) =
    [(0, Write (Some 1), Ret MUGGLE_OK), (1, Write (Some 2), Ret MUGGLE_OK), (4, Read, Swapped),
     (2, Write (Some 3), Ret MUGGLE_OK)]"
  by (simp add: db_demo_schedule_def db_demo_buffer_def db_demo_end_def run_defs db_prog_run)

lemma db_demo_quiet: "quiet db_prog db_demo_end"
  by (simp add: quiet_def db_demo_end_def run_defs upt_rec)



text \<open>
  C36. The double buffer never deadlocks: from every reachable state the calls in flight take at most six steps each, and some
  run ends with no thread able to run. Whenever no thread can run, the mutex is free and every call has returned, or is a
  read that waits because nothing is written, or is a write of a blocking buffer that waits while there are data to read. The
  writes of a non-blocking buffer never wait.
\<close>

theorem db_no_deadlock:
  assumes "muggle_double_buffer_init m0 m1 capacity nb r1 r2 r3 = (MUGGLE_OK, buf)" "capacity < 2 ^ 31"
    and "mon_run db_prog cs (mon_init buf) = Some s"
  shows "(\<forall>cs' s'. mon_run db_prog cs' s = Some s' \<and> list_all is_step cs' \<longrightarrow>
        length cs' \<le> 6 * length (mon_threads s)) \<and>
    (\<exists>cs' s'. mon_run db_prog cs' s = Some s' \<and> list_all is_step cs' \<and> quiet db_prog s') \<and>
    (quiet db_prog s \<longrightarrow> (\<forall>i < length (mon_threads s).
      mon_mutex s = None \<and>
      ((\<exists>r. snd (mon_threads s ! i) = Finished r) \<or>
       (mon_threads s ! i = (Read, Waiting cv_not_empty) \<and> sb_items (mon_data s) (db_back (mon_data s)) = []) \<or>
       (\<exists>d. \<not> nb \<and> mon_threads s ! i = (Write d, Waiting cv_not_full) \<and>
         sb_items (mon_data s) (db_back (mon_data s)) \<noteq> [])))) \<and>
    (nb \<longrightarrow> (\<forall>d c. (Write d, Waiting c) \<notin> set (mon_threads s)))"
proof -
  have nb: "db_non_blocking (mon_data s) = nb" using db_run_inv[OF assms] by (simp add: db_inv_def)
  have blk: "writers_block s" using reach_writers_block[OF run_reach[OF assms(3)]] .
  have "db_wf (mon_data s)" using db_run_inv[OF assms] by (simp add: db_inv_def)
  then have items: "sb_items (mon_data s) (db_back (mon_data s)) = [] \<longleftrightarrow>
      sb_cnt (db_buf (mon_data s) ! db_back (mon_data s)) = 0"
    by (auto simp: sb_items_def db_wf_def)
  have "mon_mutex s = None \<and>
      ((\<exists>r. snd (mon_threads s ! i) = Finished r) \<or>
       (mon_threads s ! i = (Read, Waiting cv_not_empty) \<and> sb_items (mon_data s) (db_back (mon_data s)) = []) \<or>
       (\<exists>d. \<not> nb \<and> mon_threads s ! i = (Write d, Waiting cv_not_full) \<and>
         sb_items (mon_data s) (db_back (mon_data s)) \<noteq> []))"
    if "quiet db_prog s" "i < length (mon_threads s)" for i
  proof -
    obtain op p where t: "mon_threads s ! i = (op, p)" by (cases "mon_threads s ! i")
    show ?thesis
      using db_wake.quiet_waits[OF run_reach[OF assms(3)] db_init_ok[OF assms(1,2)] that] items t blk nb that(2)
      by (cases op) (auto simp: writers_block_def split: if_splits)
  qed
  moreover have "(Write d, Waiting c) \<notin> set (mon_threads s)" if nb for d c
    using that nb blk by (fastforce simp: writers_block_def in_set_conv_nth)
  ultimately show ?thesis using run_short[of db_prog _ s] run_to_quiet[of db_prog s] by blast
qed

theorem db_no_deadlock_witness:
  "quiet db_prog db_demo_end \<and> mon_threads db_demo_end ! 3 = (Write (Some 4), Waiting cv_not_full) \<and>
   sb_items (mon_data db_demo_end) (db_back (mon_data db_demo_end)) \<noteq> []"
proof -
  have t: "mon_threads db_demo_end ! 3 = (Write (Some 4), Waiting cv_not_full)" "3 < length (mon_threads db_demo_end)"
    by (simp_all add: db_demo_end_def)
  have "quiet db_prog db_demo_end \<longrightarrow> (\<forall>i < length (mon_threads db_demo_end).
      mon_mutex db_demo_end = None \<and>
      ((\<exists>r. snd (mon_threads db_demo_end ! i) = Finished r) \<or>
       (mon_threads db_demo_end ! i = (Read, Waiting cv_not_empty) \<and>
        sb_items (mon_data db_demo_end) (db_back (mon_data db_demo_end)) = []) \<or>
       (\<exists>d. \<not> False \<and> mon_threads db_demo_end ! i = (Write d, Waiting cv_not_full) \<and>
        sb_items (mon_data db_demo_end) (db_back (mon_data db_demo_end)) \<noteq> [])))"
    using db_no_deadlock[OF db_demo_init _ db_demo_run] by simp
  then show ?thesis using db_demo_quiet t by auto
qed

text \<open>
  C37. A read frees the whole back buffer but wakes a single writer: there is a schedule after which no thread can run, the back
  buffer has room, and a writer of a blocking buffer still waits for room.
\<close>

theorem db_writer_left_waiting:
  "\<exists>buf cs s d.
    muggle_double_buffer_init (Some (\<lambda>i. None)) (Some (\<lambda>i. None)) 2 False MUGGLE_OK MUGGLE_OK MUGGLE_OK = (MUGGLE_OK, buf) \<and>
    mon_run db_prog cs (mon_init buf) = Some s \<and> quiet db_prog s \<and>
    sb_cnt (db_buf (mon_data s) ! db_back (mon_data s)) < db_capacity (mon_data s) \<and>
    (Write (d :: nat ptr), Waiting cv_not_full) \<in> set (mon_threads s)"
proof (intro exI conjI)
  show "sb_cnt (db_buf (mon_data db_demo_end) ! db_back (mon_data db_demo_end)) < db_capacity (mon_data db_demo_end)"
    "(Write (Some 4), Waiting cv_not_full) \<in> set (mon_threads db_demo_end)"
    by (simp_all add: db_demo_end_def)
qed (rule db_demo_init db_demo_run db_demo_quiet)+

end
