(* ===== verification/Pointer_Slot.thy ===== *)
theory Pointer_Slot
  imports Node_Alloc "HOL-Library.Word"
begin

text \<open>
  The pointer slots (\<^verbatim>\<open>muggle/c/memory/pointer_slot.c\<close>, \<^verbatim>\<open>pointer_slot.h\<close>): a fixed number of slots that hold data pointers, named
  by small integers. A ring of slots says which one is handed out next, and the slots in use form a doubly linked list in
  the order of insertion. A \<open>None\<close> is an access outside an allocation, a NULL dereference, or an assertion that fails in a
  debug build (\<open>release\<close> is \<^verbatim>\<open>MUGGLE_RELEASE\<close>). Rounding the capacity is \<open>next_pow_of_2\<close> of \<^verbatim>\<open>muggle/c/base/utils.c\<close>. The
  theorems show that slots behave as a finite map when the capacity is a power of two, and what goes wrong otherwise.
\<close>

unbundle bit_operations_syntax

section \<open>Powers of two\<close>

definition IS_POW_OF_2 :: "64 word \<Rightarrow> bool" where
  "IS_POW_OF_2 x = (x AND (x - 1) = 0)"

definition next_pow_of_2 :: "64 word \<Rightarrow> 64 word" where
  "next_pow_of_2 x =
    (if IS_POW_OF_2 x then x
     else
       let x = x OR drop_bit 1 x;
           x = x OR drop_bit 2 x;
           x = x OR drop_bit 4 x;
           x = x OR drop_bit 8 x;
           x = x OR drop_bit 16 x
       in x + 1)"

text \<open>\<^verbatim>\<open>IDX_IN_POW_OF_2_RING(idx, capacity)\<close> on \<^verbatim>\<open>unsigned int\<close>.\<close>

definition IDX_IN_POW_OF_2_RING :: "nat \<Rightarrow> nat \<Rightarrow> nat" where
  "IDX_IN_POW_OF_2_RING idx capacity = unat ((of_nat idx :: 32 word) AND (of_nat capacity - 1))"

section \<open>State\<close>

datatype slot_ref = SlotHead | SlotTail | Slot_at nat

record 'a pointer_slot_item =
  psi_prev :: "slot_ref ptr"
  psi_next :: "slot_ref ptr"
  psi_slot_idx :: nat
  psi_in_used :: nat
  psi_data :: "'a ptr"

text \<open>
  \<open>ps_slots\<close> is the number of items of the array \<^verbatim>\<open>slots\<close>, whose items, like \<^verbatim>\<open>head\<close> and \<^verbatim>\<open>tail\<close>, are in \<open>ps_items\<close>; \<open>ps_pp_slots\<close>
  holds the positions in \<^verbatim>\<open>slots\<close> that the pointers of \<^verbatim>\<open>pp_slots\<close> point to.
\<close>

record 'a pointer_slot =
  ps_items :: "slot_ref \<Rightarrow> 'a pointer_slot_item"
  ps_slots :: "nat ptr"
  ps_pp_slots :: "nat list ptr"
  ps_capacity :: nat
  ps_alloc_index :: nat
  ps_free_index :: nat

definition psi_zero :: "'a pointer_slot_item" where
  "psi_zero = \<lparr>psi_prev = None, psi_next = None, psi_slot_idx = 0, psi_in_used = 0, psi_data = None\<rparr>"

definition set_item ::
  "slot_ref \<Rightarrow> ('a pointer_slot_item \<Rightarrow> 'a pointer_slot_item) \<Rightarrow> 'a pointer_slot \<Rightarrow> 'a pointer_slot" where
  "set_item r f ps = ps\<lparr>ps_items := (ps_items ps)(r := f (ps_items ps r))\<rparr>"

section \<open>Operations\<close>

text \<open>The loop that initialises the slots.\<close>

primrec ps_init_slots :: "nat \<Rightarrow> 'a pointer_slot \<Rightarrow> 'a pointer_slot" where
  "ps_init_slots 0 ps = ps"
| "ps_init_slots (Suc i) ps =
    (let ps = ps_init_slots i ps;
         ps = set_item (Slot_at i) (\<lambda>it. it\<lparr>psi_prev := None, psi_next := None, psi_slot_idx := i, psi_in_used := 0,
           psi_data := None\<rparr>) ps
     in ps\<lparr>ps_pp_slots := map_option (\<lambda>pp. pp[i := i]) (ps_pp_slots ps)\<rparr>)"

definition muggle_pointer_slot_init ::
  "'a pointer_slot_item malloc \<Rightarrow> nat malloc \<Rightarrow> nat \<Rightarrow> muggle_err \<times> 'a pointer_slot" where
  "muggle_pointer_slot_init m_slots m_pp capacity =
    (let ps = \<lparr>ps_items = \<lambda>r. psi_zero, ps_slots = None, ps_pp_slots = None, ps_capacity = 0,
           ps_alloc_index = 0, ps_free_index = 0\<rparr>;
         capacity = (if capacity > 0 then capacity else 1);
         ps = ps\<lparr>ps_capacity := u32 (unat (next_pow_of_2 (of_nat capacity)))\<rparr>
     in case (m_slots, malloc_array m_pp capacity) of
          (Some junk, Some pp) \<Rightarrow>
            (let ps = ps\<lparr>ps_slots := Some capacity, ps_pp_slots := Some pp,
                   ps_items := (\<lambda>r. case r of Slot_at i \<Rightarrow> junk i | _ \<Rightarrow> psi_zero)\<rparr>;
                 ps = ps_init_slots capacity ps;
                 ps = ps\<lparr>ps_alloc_index := 0, ps_free_index := 0\<rparr>;
                 ps = set_item SlotHead (\<lambda>it. it\<lparr>psi_prev := None, psi_next := Some SlotTail\<rparr>) ps;
                 ps = set_item SlotTail (\<lambda>it. it\<lparr>psi_prev := Some SlotHead, psi_next := None\<rparr>) ps
             in (MUGGLE_OK, ps))
        | _ \<Rightarrow> (MUGGLE_ERR_MEM_ALLOC, ps))"

definition muggle_pointer_slot_destroy :: "'a pointer_slot \<Rightarrow> 'a pointer_slot" where
  "muggle_pointer_slot_destroy ps =
    (let ps = (if ps_slots ps \<noteq> None then ps\<lparr>ps_slots := None\<rparr> else ps)
     in if ps_pp_slots ps \<noteq> None then ps\<lparr>ps_pp_slots := None\<rparr> else ps)"

text \<open>
  The second component is what is written to \<^verbatim>\<open>*slot_idx\<close>, if anything. \<open>assert_ok\<close> is an assertion of the debug build.
\<close>

definition assert_ok :: "bool \<Rightarrow> bool \<Rightarrow> bool" where
  "assert_ok release x = (release \<or> x)"

definition muggle_pointer_slot_insert ::
  "bool \<Rightarrow> 'a pointer_slot \<Rightarrow> 'a ptr \<Rightarrow> (muggle_err \<times> nat ptr \<times> 'a pointer_slot) option" where
  "muggle_pointer_slot_insert release ps data =
    (let alloc_idx = IDX_IN_POW_OF_2_RING (ps_alloc_index ps) (ps_capacity ps);
         pp = the (ps_pp_slots ps) in
     if ps_pp_slots ps = None \<or> alloc_idx \<ge> length pp then None
     else if psi_in_used (ps_items ps (Slot_at (pp ! alloc_idx))) = 1 then
       (if assert_ok release (alloc_idx = IDX_IN_POW_OF_2_RING (ps_free_index ps) (ps_capacity ps))
        then Some (MUGGLE_ERR_MEM_ALLOC, None, ps) else None)
     else
       let p_slot = Slot_at (pp ! alloc_idx);
           ps = set_item p_slot (\<lambda>it. it\<lparr>psi_prev := psi_prev (ps_items ps SlotTail)\<rparr>) ps;
           ps = set_item p_slot (\<lambda>it. it\<lparr>psi_next := Some SlotTail\<rparr>) ps
       in case psi_prev (ps_items ps SlotTail) of
            None \<Rightarrow> None
          | Some before \<Rightarrow>
              (let ps = set_item before (\<lambda>it. it\<lparr>psi_next := Some p_slot\<rparr>) ps;
                   ps = set_item SlotTail (\<lambda>it. it\<lparr>psi_prev := Some p_slot\<rparr>) ps;
                   ps = set_item p_slot (\<lambda>it. it\<lparr>psi_data := data\<rparr>) ps;
                   ps = set_item p_slot (\<lambda>it. it\<lparr>psi_in_used := 1\<rparr>) ps;
                   slot_idx = psi_slot_idx (ps_items ps p_slot);
                   ps = ps\<lparr>ps_alloc_index := u32 (ps_alloc_index ps + 1)\<rparr>
               in Some (MUGGLE_OK, Some slot_idx, ps)))"

definition muggle_pointer_slot_remove ::
  "bool \<Rightarrow> 'a pointer_slot \<Rightarrow> nat \<Rightarrow> (muggle_err \<times> 'a pointer_slot) option" where
  "muggle_pointer_slot_remove release ps slot_idx =
    (if slot_idx \<ge> ps_capacity ps then
       (if assert_ok release (slot_idx < ps_capacity ps) then Some (MUGGLE_ERR_BEYOND_RANGE, ps) else None)
     else case ps_slots ps of None \<Rightarrow> None | Some n \<Rightarrow>
     if slot_idx \<ge> n then None
     else if psi_in_used (ps_items ps (Slot_at slot_idx)) = 0 then
       (if assert_ok release (psi_in_used (ps_items ps (Slot_at slot_idx)) = 1)
        then Some (MUGGLE_ERR_MEM_DUPLICATE_FREE, ps) else None)
     else
       let free_idx = IDX_IN_POW_OF_2_RING (ps_free_index ps) (ps_capacity ps);
           p_slot = Slot_at slot_idx;
           pp = the (ps_pp_slots ps) in
       if ps_pp_slots ps = None \<or> free_idx \<ge> length pp then None
       else
         let ps = ps\<lparr>ps_pp_slots := Some (pp[free_idx := slot_idx])\<rparr>
         in case (psi_prev (ps_items ps p_slot), psi_next (ps_items ps p_slot)) of
              (Some before, Some after) \<Rightarrow>
                (let ps = set_item before (\<lambda>it. it\<lparr>psi_next := psi_next (ps_items ps p_slot)\<rparr>) ps;
                     ps = set_item after (\<lambda>it. it\<lparr>psi_prev := psi_prev (ps_items ps p_slot)\<rparr>) ps;
                     ps = set_item p_slot (\<lambda>it. it\<lparr>psi_prev := None\<rparr>) ps;
                     ps = set_item p_slot (\<lambda>it. it\<lparr>psi_next := None\<rparr>) ps;
                     ps = set_item p_slot (\<lambda>it. it\<lparr>psi_in_used := 0\<rparr>) ps;
                     ps = set_item p_slot (\<lambda>it. it\<lparr>psi_data := None\<rparr>) ps;
                     ps = ps\<lparr>ps_free_index := u32 (ps_free_index ps + 1)\<rparr>
                 in Some (MUGGLE_OK, ps))
            | _ \<Rightarrow> None)"

definition muggle_pointer_slot_get :: "bool \<Rightarrow> 'a pointer_slot \<Rightarrow> nat \<Rightarrow> 'a ptr option" where
  "muggle_pointer_slot_get release ps idx =
    (if idx \<ge> ps_capacity ps then (if assert_ok release (idx < ps_capacity ps) then Some None else None)
     else case ps_slots ps of None \<Rightarrow> None | Some n \<Rightarrow>
     if idx \<ge> n then None
     else if psi_in_used (ps_items ps (Slot_at idx)) = 0 then Some None
     else Some (psi_data (ps_items ps (Slot_at idx))))"

definition muggle_pointer_slot_iter_begin :: "'a pointer_slot \<Rightarrow> slot_ref ptr" where
  "muggle_pointer_slot_iter_begin ps = psi_next (ps_items ps SlotHead)"

definition muggle_pointer_slot_iter_end :: "'a pointer_slot \<Rightarrow> slot_ref ptr" where
  "muggle_pointer_slot_iter_end ps = Some SlotTail"

definition muggle_pointer_slot_iter_data :: "'a pointer_slot \<Rightarrow> slot_ref \<Rightarrow> 'a ptr" where
  "muggle_pointer_slot_iter_data ps iter = psi_data (ps_items ps iter)"

section \<open>Rounding up\<close>

text \<open>A bit of \<open>y\<close> is set when one of the \<open>k\<close> bits of \<open>x\<close> from its position on is.\<close>

definition smeared :: "nat \<Rightarrow> 64 word \<Rightarrow> 64 word \<Rightarrow> bool" where
  "smeared k x y = (\<forall>n. bit y n = (\<exists>j < k. bit x (n + j)))"

lemma smeared_start: "smeared 1 x x"
  by (simp add: smeared_def)

lemma smeared_double:
  assumes "smeared k x y" "l = k + k"
  shows "smeared l x (y OR drop_bit k y)"
proof -
  have "(\<exists>j < k. bit x (n + j)) \<or> (\<exists>j < k. bit x (n + k + j)) \<longleftrightarrow> (\<exists>j < k + k. bit x (n + j))" for n
  proof -
    have "(\<exists>j < k. bit x (n + k + j)) \<longleftrightarrow> (\<exists>j. k \<le> j \<and> j < k + k \<and> bit x (n + j))"
      by (metis add.assoc add_less_cancel_left le_Suc_ex le_add1)
    moreover have "j < k \<or> k \<le> j" for j by auto
    ultimately show ?thesis by (meson le_add1 less_le_trans)
  qed
  then show ?thesis using assms by (simp add: smeared_def bit_or_iff bit_drop_bit_eq add.commute add.left_commute)
qed

lemma smeared_mask:
  assumes "smeared k x y" "\<And>n. bit x n \<Longrightarrow> n \<le> m" "bit x m" "m < k"
  shows "y = mask (Suc m)"
proof (rule bit_eqI)
  fix n assume "possible_bit TYPE(64 word) n"
  then have n: "n < 64" by simp
  have "bit y n \<longleftrightarrow> n \<le> m"
    using assms by (auto simp: smeared_def intro: exI[of _ "m - n"] dest: add_leD1)
  then show "bit y n = bit (mask (Suc m) :: 64 word) n" using n by (auto simp: bit_mask_iff)
qed

lemma bit_word_iff_div: "bit (x :: 64 word) n = odd (unat x div 2 ^ n)"
proof -
  have "bit x n = bit (unat x) n" by (simp add: bit_unsigned_iff)
  then show ?thesis by (simp add: bit_iff_odd)
qed

lemma top_bit:
  assumes "0 < unat (x :: 64 word)"
  obtains m where "bit x m" "\<And>n. bit x n \<Longrightarrow> n \<le> m" "2 ^ m \<le> unat x" "unat x < 2 ^ Suc m"
proof -
  obtain m where m: "2 ^ m \<le> unat x" "unat x < 2 ^ (m + 1)" using ex_power_ivl1[of 2 "unat x"] assms by auto
  have "unat x div 2 ^ m = 1" using m by (intro div_nat_eqI) simp_all
  then have "bit x m" by (simp add: bit_word_iff_div)
  moreover have "n \<le> m" if "bit x n" for n
  proof (rule ccontr)
    assume "\<not> n \<le> m"
    then have "(2 :: nat) ^ (m + 1) \<le> 2 ^ n" by (intro power_increasing) simp_all
    then have "unat x div 2 ^ n = 0" using m(2) by simp
    then show False using that by (simp add: bit_word_iff_div)
  qed
  ultimately show ?thesis using that m by simp
qed

lemma unat_pow64: "k < 64 \<Longrightarrow> unat (2 ^ k :: 64 word) = 2 ^ k"
proof -
  assume "k < 64"
  then have "(2 :: nat) ^ k < 2 ^ 64" by (rule power_strict_increasing) simp
  then have "unat (of_nat (2 ^ k) :: 64 word) = 2 ^ k" by (subst unat_of_nat) (simp add: take_bit_nat_eq_self)
  then show ?thesis by simp
qed

text \<open>A word whose predecessor shares no bit with it has one bit only.\<close>

lemma pow_of_2_single:
  assumes "IS_POW_OF_2 x" "bit x m" "2 ^ m \<le> unat x" "unat x < 2 ^ Suc m"
  shows "unat x = 2 ^ m"
proof (rule ccontr)
  assume ne: "unat x \<noteq> 2 ^ m"
  have x0: "x \<noteq> 0" using assms(2) by auto
  have u: "unat (x - 1) = unat x - 1" using x0 by (simp add: unat_minus_one)
  have "unat (x - 1) div 2 ^ m = 1" using ne assms(3,4) u by (intro div_nat_eqI) simp_all
  then have "bit (x - 1) m" by (simp add: bit_word_iff_div)
  then have "bit (x AND (x - 1)) m" using assms(2) by (simp add: bit_and_iff)
  then show False using assms(1) by (simp add: IS_POW_OF_2_def)
qed

lemma next_pow_of_2_cases:
  assumes "0 < unat x" "unat x \<le> 2 ^ 32"
  obtains m where "unat (next_pow_of_2 x) = 2 ^ m" "m \<le> 32" "unat x \<le> 2 ^ m" "2 ^ m < 2 * unat x"
proof -
  obtain m where m: "bit x m" "\<And>n. bit x n \<Longrightarrow> n \<le> m" "2 ^ m \<le> unat x" "unat x < 2 ^ Suc m"
    using top_bit[OF assms(1)] by blast
  show ?thesis
  proof (cases "IS_POW_OF_2 x")
    case True
    then have u: "unat x = 2 ^ m" using pow_of_2_single[OF True m(1,3,4)] by simp
    then have "m \<le> 32" using assms(2) power_le_imp_le_exp[of 2 m 32] by simp
    then show ?thesis using that[of m] u True by (simp add: next_pow_of_2_def)
  next
    case False
    have "unat x \<noteq> 2 ^ m"
    proof
      assume u: "unat x = 2 ^ m"
      have "n = m" if "bit x n" for n
        using that m(2)[OF that] by (auto simp: bit_word_iff_div u power_diff[symmetric] simp flip: power_diff)
      moreover have "\<not> bit (x - 1) m"
      proof -
        have "x \<noteq> 0" using assms(1) by auto
        then have "unat (x - 1) < 2 ^ m" using u by (simp add: unat_minus_one)
        then show ?thesis by (simp add: bit_word_iff_div)
      qed
      ultimately have "x AND (x - 1) = 0" by (intro bit_eqI) (auto simp: bit_and_iff)
      then show False using False by (simp add: IS_POW_OF_2_def)
    qed
    then have lt: "2 ^ m < unat x" using m(3) by simp
    have "m < 32"
    proof (rule ccontr)
      assume "\<not> m < 32"
      then have "(2 :: nat) ^ 32 \<le> 2 ^ m" by (intro power_increasing) simp_all
      then show False using lt assms(2) by simp
    qed
    define y1 where "y1 = x OR drop_bit 1 x"
    define y2 where "y2 = y1 OR drop_bit 2 y1"
    define y4 where "y4 = y2 OR drop_bit 4 y2"
    define y8 where "y8 = y4 OR drop_bit 8 y4"
    define y16 where "y16 = y8 OR drop_bit 16 y8"
    have "smeared 2 x y1" unfolding y1_def by (rule smeared_double[OF smeared_start]) simp
    then have "smeared 4 x y2" unfolding y2_def by (rule smeared_double) simp
    then have "smeared 8 x y4" unfolding y4_def by (rule smeared_double) simp
    then have "smeared 16 x y8" unfolding y8_def by (rule smeared_double) simp
    then have "smeared 32 x y16" unfolding y16_def by (rule smeared_double) simp
    then have "y16 = mask (Suc m)" by (rule smeared_mask[OF _ m(2,1) \<open>m < 32\<close>])
    moreover have "next_pow_of_2 x = y16 + 1"
      using False by (simp only: next_pow_of_2_def Let_def if_False y1_def y2_def y4_def y8_def y16_def)
    ultimately have "next_pow_of_2 x = mask (Suc m) + 1" by simp
    also have "\<dots> = 2 ^ Suc m" by (simp add: mask_eq_exp_minus_1)
    finally have "unat (next_pow_of_2 x) = 2 ^ Suc m"
      using \<open>m < 32\<close> unat_pow64[of "Suc m"] by (simp only: less_trans[of "Suc m" 33 64] Suc_less_eq)
    then show ?thesis using that[of "Suc m"] \<open>m < 32\<close> m(4) lt by simp
  qed
qed

lemma next_pow_of_2_id: "next_pow_of_2 (2 ^ k) = 2 ^ k"
proof -
  have "(2 ^ k AND mask k :: 64 word) = 0"
    by (rule bit_eqI) (auto simp: bit_and_iff bit_exp_iff bit_mask_iff)
  then have "IS_POW_OF_2 (2 ^ k)" by (simp add: IS_POW_OF_2_def mask_eq_exp_minus_1)
  then show ?thesis by (simp add: next_pow_of_2_def)
qed

lemma ring_index_mod:
  assumes "k < 32" "a < 2 ^ 32"
  shows "IDX_IN_POW_OF_2_RING a (2 ^ k) = a mod 2 ^ k"
proof -
  have "(of_nat (2 ^ k) - 1 :: 32 word) = mask k" by (simp add: mask_eq_exp_minus_1)
  then have "IDX_IN_POW_OF_2_RING a (2 ^ k) = unat (take_bit k (of_nat a :: 32 word))"
    by (simp only: IDX_IN_POW_OF_2_RING_def take_bit_eq_mask)
  also have "\<dots> = take_bit k a" using assms by (simp add: unsigned_take_bit_eq unat_of_nat)
  finally show ?thesis by (simp add: take_bit_eq_mod)
qed

section \<open>The slots in use and the free ones\<close>

definition ps_free :: "'a pointer_slot \<Rightarrow> nat list \<Rightarrow> nat list" where
  "ps_free ps us = ring_window (the (ps_pp_slots ps)) (ps_alloc_index ps) (ps_capacity ps - length us)"

definition slot_refs :: "nat list \<Rightarrow> slot_ref list" where
  "slot_refs us = SlotHead # map Slot_at us @ [SlotTail]"

text \<open>
  \<open>us\<close> are the slots in use in the order of insertion; they are linked, and the ring from the allocation index holds exactly the
  other slots, up to the free index.
\<close>

definition ps_rep :: "'a pointer_slot \<Rightarrow> nat list \<Rightarrow> bool" where
  "ps_rep ps us = (
    (\<exists>k < 32. ps_capacity ps = 2 ^ k) \<and> ps_slots ps = Some (ps_capacity ps) \<and>
    (\<exists>pp. ps_pp_slots ps = Some pp \<and> length pp = ps_capacity ps \<and> set pp \<subseteq> {..<ps_capacity ps}) \<and>
    distinct (us @ ps_free ps us) \<and> set us \<subseteq> {..<ps_capacity ps} \<and>
    ps_alloc_index ps < 2 ^ 32 \<and> ps_free_index ps < 2 ^ 32 \<and>
    ps_free_index ps mod ps_capacity ps = (ps_alloc_index ps + (ps_capacity ps - length us)) mod ps_capacity ps \<and>
    links (\<lambda>r. psi_next (ps_items ps r)) (\<lambda>r. psi_prev (ps_items ps r)) (slot_refs us) \<and>
    (\<forall>i < ps_capacity ps. psi_slot_idx (ps_items ps (Slot_at i)) = i \<and>
      psi_in_used (ps_items ps (Slot_at i)) = (if i \<in> set us then 1 else 0)))"

text \<open>What the slots hold, as a finite map.\<close>

definition ps_map :: "'a pointer_slot \<Rightarrow> nat list \<Rightarrow> nat \<Rightarrow> 'a ptr option" where
  "ps_map ps us i = (if i \<in> set us then Some (psi_data (ps_items ps (Slot_at i))) else None)"

lemma set_item_fields [simp]:
  "ps_items (set_item r f ps) = (ps_items ps)(r := f (ps_items ps r))" "ps_slots (set_item r f ps) = ps_slots ps"
  "ps_pp_slots (set_item r f ps) = ps_pp_slots ps" "ps_capacity (set_item r f ps) = ps_capacity ps"
  "ps_alloc_index (set_item r f ps) = ps_alloc_index ps" "ps_free_index (set_item r f ps) = ps_free_index ps"
  by (simp_all add: set_item_def)

lemma ps_repD:
  assumes "ps_rep ps us"
  shows "0 < ps_capacity ps" "ps_slots ps = Some (ps_capacity ps)" "distinct us" "length us \<le> ps_capacity ps"
    "IDX_IN_POW_OF_2_RING (ps_alloc_index ps) (ps_capacity ps) = ps_alloc_index ps mod ps_capacity ps"
    "IDX_IN_POW_OF_2_RING (ps_free_index ps) (ps_capacity ps) = ps_free_index ps mod ps_capacity ps"
    "u32 (a + 1) mod ps_capacity ps = (a + 1) mod ps_capacity ps"
    "length us = ps_capacity ps \<longleftrightarrow> set us = {..<ps_capacity ps}"
proof -
  obtain k where k: "k < 32" "ps_capacity ps = 2 ^ k" using assms by (auto simp: ps_rep_def)
  show "0 < ps_capacity ps" "ps_slots ps = Some (ps_capacity ps)" "distinct us"
    using assms k by (auto simp: ps_rep_def)
  have sub: "set us \<subseteq> {..<ps_capacity ps}" using assms by (simp add: ps_rep_def)
  then have "card (set us) \<le> ps_capacity ps" using card_mono[of "{..<ps_capacity ps}" "set us"] by simp
  then show "length us \<le> ps_capacity ps" using \<open>distinct us\<close> by (simp add: distinct_card)
  show "length us = ps_capacity ps \<longleftrightarrow> set us = {..<ps_capacity ps}"
    using sub \<open>distinct us\<close> card_subset_eq[OF _ sub] by (auto simp: distinct_card dest: distinct_card)
  show "IDX_IN_POW_OF_2_RING (ps_alloc_index ps) (ps_capacity ps) = ps_alloc_index ps mod ps_capacity ps"
    "IDX_IN_POW_OF_2_RING (ps_free_index ps) (ps_capacity ps) = ps_free_index ps mod ps_capacity ps"
    using assms k by (simp_all add: ps_rep_def ring_index_mod)
  have "(2 :: nat) ^ k dvd 2 ^ 32" using k(1) by (intro le_imp_power_dvd) simp
  then show "u32 (a + 1) mod ps_capacity ps = (a + 1) mod ps_capacity ps"
    unfolding u32_def k(2) by (rule mod_mod_cancel)
qed

lemma ps_free_set:
  assumes "ps_rep ps us"
  shows "set (ps_free ps us) = {..<ps_capacity ps} - set us"
proof -
  obtain pp where pp: "ps_pp_slots ps = Some pp" "length pp = ps_capacity ps" "set pp \<subseteq> {..<ps_capacity ps}"
    using assms by (auto simp: ps_rep_def)
  have d: "distinct (us @ ps_free ps us)" and us: "set us \<subseteq> {..<ps_capacity ps}" using assms by (simp_all add: ps_rep_def)
  have "pp \<noteq> []" using pp(2) ps_repD(1)[OF assms] by auto
  then have sub: "set (ps_free ps us) \<subseteq> {..<ps_capacity ps} - set us"
    using set_ring_window_subset[of pp] pp d by (fastforce simp: ps_free_def)
  have "card (set (ps_free ps us)) = ps_capacity ps - length us"
    using d by (simp add: distinct_card) (simp add: ps_free_def)
  also have "\<dots> = card ({..<ps_capacity ps} - set us)"
    using us d by (simp add: card_Diff_subset distinct_card)
  finally show ?thesis using card_subset_eq[OF _ sub] by simp
qed

text \<open>The neighbours of a place in the list.\<close>

definition slot_before :: "nat list \<Rightarrow> slot_ref" where
  "slot_before xs = List.last (SlotHead # map Slot_at xs)"

definition slot_after :: "nat list \<Rightarrow> slot_ref" where
  "slot_after ys = hd (map Slot_at ys @ [SlotTail])"

lemma slot_refs_gap:
  "slot_refs (xs @ ys) =
    butlast (SlotHead # map Slot_at xs) @ slot_before xs # slot_after ys # tl (map Slot_at ys @ [SlotTail])"
proof -
  have "SlotHead # map Slot_at xs = butlast (SlotHead # map Slot_at xs) @ [slot_before xs]"
    by (simp only: slot_before_def append_butlast_last_id list.distinct not_False_eq_True)
  moreover have "map Slot_at ys @ [SlotTail] = slot_after ys # tl (map Slot_at ys @ [SlotTail])"
    by (cases ys) (simp_all add: slot_after_def)
  ultimately show ?thesis unfolding slot_refs_def by (metis append.assoc append_Cons append_Nil map_append)
qed

lemma slot_refs_gap_node:
  "slot_refs (xs @ n # ys) = butlast (SlotHead # map Slot_at xs) @ slot_before xs # Slot_at n # slot_after ys #
    tl (map Slot_at ys @ [SlotTail])"
proof -
  have "map Slot_at ys @ [SlotTail] = slot_after ys # tl (map Slot_at ys @ [SlotTail])"
    by (cases ys) (simp_all add: slot_after_def)
  then show ?thesis using slot_refs_gap[of xs "n # ys"] by (simp add: slot_after_def)
qed

lemma distinct_slot_refs: "distinct (slot_refs us) = distinct us"
  by (auto simp: slot_refs_def distinct_map inj_on_def)

lemma in_slot_refs: "Slot_at n \<in> set (slot_refs us) \<longleftrightarrow> n \<in> set us"
  by (auto simp: slot_refs_def)

lemma slot_after_Nil [simp]: "slot_after [] = SlotTail"
  by (simp add: slot_after_def)

lemma ps_insert_full:
  assumes "ps_rep ps us" "length us = ps_capacity ps"
  shows "muggle_pointer_slot_insert release ps data = Some (MUGGLE_ERR_MEM_ALLOC, None, ps)"
proof -
  note r = ps_repD[OF assms(1)]
  obtain pp where pp: "ps_pp_slots ps = Some pp" "length pp = ps_capacity ps" "set pp \<subseteq> {..<ps_capacity ps}"
    using assms by (auto simp: ps_rep_def)
  have i: "ps_alloc_index ps mod ps_capacity ps < length pp" using r(1) pp(2) by simp
  then have "pp ! (ps_alloc_index ps mod ps_capacity ps) \<in> set us" using r(8) assms(2) pp(3) nth_mem by blast
  then have "psi_in_used (ps_items ps (Slot_at (pp ! (ps_alloc_index ps mod ps_capacity ps)))) = 1"
    using assms r(8) by (auto simp: ps_rep_def)
  moreover have "ps_free_index ps mod ps_capacity ps = ps_alloc_index ps mod ps_capacity ps"
    using assms by (simp add: ps_rep_def)
  ultimately show ?thesis using pp(1) i r(5,6)
    by (simp add: muggle_pointer_slot_insert_def assert_ok_def)
qed

text \<open>One insertion, as an update of the items: the slot \<open>n\<close> is linked between \<open>b\<close> and the tail.\<close>

definition ps_linked_in :: "nat \<Rightarrow> slot_ref \<Rightarrow> 'a ptr \<Rightarrow> 'a pointer_slot \<Rightarrow> 'a pointer_slot" where
  "ps_linked_in n b data ps = ps\<lparr>ps_items := (ps_items ps)
     (Slot_at n := (ps_items ps (Slot_at n))\<lparr>psi_prev := Some b, psi_next := Some SlotTail, psi_data := data, psi_in_used := 1\<rparr>,
      b := (ps_items ps b)\<lparr>psi_next := Some (Slot_at n)\<rparr>,
      SlotTail := (ps_items ps SlotTail)\<lparr>psi_prev := Some (Slot_at n)\<rparr>),
    ps_alloc_index := u32 (ps_alloc_index ps + 1)\<rparr>"

lemma ps_insert_links:
  assumes "ps_pp_slots ps = Some pp" "IDX_IN_POW_OF_2_RING (ps_alloc_index ps) (ps_capacity ps) < length pp"
    "pp ! IDX_IN_POW_OF_2_RING (ps_alloc_index ps) (ps_capacity ps) = n"
    "psi_in_used (ps_items ps (Slot_at n)) = 0" "psi_slot_idx (ps_items ps (Slot_at n)) = n"
    "psi_prev (ps_items ps SlotTail) = Some b" "b \<noteq> SlotTail" "b \<noteq> Slot_at n"
  shows "muggle_pointer_slot_insert release ps data = Some (MUGGLE_OK, Some n, ps_linked_in n b data ps)"
  using assms
  by (simp add: not_le muggle_pointer_slot_insert_def Let_def ps_linked_in_def set_item_def fun_upd_twist)

lemma ps_insert_ok:
  assumes "ps_rep ps us" "length us < ps_capacity ps"
  defines "n \<equiv> hd (ps_free ps us)"
  obtains ps' where "muggle_pointer_slot_insert release ps data = Some (MUGGLE_OK, Some n, ps')"
    "ps_rep ps' (us @ [n])" "n < ps_capacity ps" "n \<notin> set us" "ps_capacity ps' = ps_capacity ps"
    "ps_free ps' (us @ [n]) = tl (ps_free ps us)" "ps_map ps' (us @ [n]) = (ps_map ps us)(n \<mapsto> data)"
proof -
  note r = ps_repD[OF assms(1)]
  let ?c = "ps_capacity ps" and ?a = "ps_alloc_index ps"
  obtain pp where pp: "ps_pp_slots ps = Some pp" "length pp = ?c" "set pp \<subseteq> {..<?c}"
    using assms by (auto simp: ps_rep_def)
  have len: "length (ps_free ps us) = Suc (?c - length us - 1)" using assms(2) by (simp add: ps_free_def)
  have F: "ps_free ps us = n # ring_window pp (?a + 1) (?c - length us - 1)" and n: "pp ! (?a mod ?c) = n"
    using ring_window_Suc[of pp ?a "?c - length us - 1"] assms(2) pp by (auto simp: ps_free_def n_def Suc_diff_Suc)
  have nF: "n \<in> set (ps_free ps us)" by (simp add: F)
  then have nn: "n < ?c" "n \<notin> set us" using ps_free_set[OF assms(1)] by auto
  have used: "psi_in_used (ps_items ps (Slot_at n)) = 0" "psi_slot_idx (ps_items ps (Slot_at n)) = n"
    using assms(1) nn by (auto simp: ps_rep_def)
  have chain: "links (\<lambda>r. psi_next (ps_items ps r)) (\<lambda>r. psi_prev (ps_items ps r))
      (butlast (SlotHead # map Slot_at us) @ slot_before us # SlotTail # [])"
    using assms(1) slot_refs_gap[of us "[]"] by (simp add: ps_rep_def)
  have prev: "psi_prev (ps_items ps SlotTail) = Some (slot_before us)" using chain by (simp add: links_append)
  have dist: "distinct (butlast (SlotHead # map Slot_at us) @ slot_before us # SlotTail # [])"
    "Slot_at n \<notin> set (butlast (SlotHead # map Slot_at us) @ slot_before us # SlotTail # [])"
    using slot_refs_gap[of us "[]"] distinct_slot_refs[of us] in_slot_refs[of n us] r(3) nn(2) by simp_all
  then have ne: "slot_before us \<noteq> SlotTail" "slot_before us \<noteq> Slot_at n" by auto
  define ps' where "ps' = ps_linked_in n (slot_before us) data ps"
  define its where "its = ps_items ps'"
  note its_def = its_def ps'_def ps_linked_in_def
  have ins: "muggle_pointer_slot_insert release ps data = Some (MUGGLE_OK, Some n, ps')"
    unfolding ps'_def by (rule ps_insert_links[OF pp(1)]) (use pp(2) r(1,5) n used prev ne in simp_all)
  have "links (\<lambda>r. psi_next (its r)) (\<lambda>r. psi_prev (its r))
      (butlast (SlotHead # map Slot_at us) @ slot_before us # Slot_at n # SlotTail # [])"
    by (rule links_link[OF chain dist]) (use ne in \<open>auto simp: its_def\<close>)
  then have chain': "links (\<lambda>r. psi_next (its r)) (\<lambda>r. psi_prev (its r)) (slot_refs (us @ [n]))"
    using slot_refs_gap_node[of us n "[]"] by simp
  have free': "ps_free ps' (us @ [n]) = ring_window pp (?a + 1) (?c - length us - 1)"
    using pp(1,2) ring_window_mod[of pp "u32 (?a + 1)"] ring_window_mod[of pp "?a + 1"] r(7)[of ?a]
    by (simp add: ps_free_def ps'_def ps_linked_in_def)
  have flds: "psi_slot_idx (its (Slot_at i)) = psi_slot_idx (ps_items ps (Slot_at i))"
    "psi_in_used (its (Slot_at i)) = (if i = n then 1 else psi_in_used (ps_items ps (Slot_at i)))"
    "psi_data (its (Slot_at i)) = (if i = n then data else psi_data (ps_items ps (Slot_at i)))" for i
    using used(2) ne by (auto simp: its_def)
  have flds': "ps_capacity ps' = ?c" "ps_slots ps' = ps_slots ps" "ps_pp_slots ps' = ps_pp_slots ps"
    "ps_alloc_index ps' = u32 (?a + 1)" "ps_free_index ps' = ps_free_index ps"
    by (simp_all add: ps'_def ps_linked_in_def)
  have its_eq: "its = ps_items ps'" by (simp add: its_def)
  have "(?a + (?c - length us)) mod ?c = (u32 (?a + 1) + (?c - length us - 1)) mod ?c"
  proof -
    have "(u32 (?a + 1) + (?c - length us - 1)) mod ?c = ((?a + 1) mod ?c + (?c - length us - 1)) mod ?c"
      using r(7)[of ?a] by (metis mod_add_left_eq)
    also have "\<dots> = (?a + 1 + (?c - length us - 1)) mod ?c" by (rule mod_add_left_eq)
    also have "?a + 1 + (?c - length us - 1) = ?a + (?c - length us)" using assms(2) by simp
    finally show ?thesis by simp
  qed
  moreover have "u32 (?a + 1) < 2 ^ 32" by (simp add: u32_def)
  ultimately have "ps_rep ps' (us @ [n])"
    using assms(1) chain' flds free' F nn flds' unfolding ps_rep_def by (auto simp flip: its_eq)
  moreover have "ps_map ps' (us @ [n]) = (ps_map ps us)(n \<mapsto> data)"
    using flds nn(2) by (auto simp: ps_map_def simp flip: its_eq)
  ultimately show ?thesis using that ins nn flds' free' F by simp
qed

text \<open>The calls with an index that is out of range or not in use.\<close>

lemma ps_remove_refused:
  assumes "ps_rep ps us" "n \<notin> set us"
  shows "muggle_pointer_slot_remove release ps n =
    (if release then Some (if n < ps_capacity ps then MUGGLE_ERR_MEM_DUPLICATE_FREE else MUGGLE_ERR_BEYOND_RANGE, ps) else None)"
  using assms by (auto simp: muggle_pointer_slot_remove_def ps_rep_def assert_ok_def)

lemma distinct_three: "distinct (us @ a # n # b # vs) \<Longrightarrow> a \<noteq> n \<and> b \<noteq> n \<and> a \<noteq> b"
  by auto

lemma ps_remove_ok:
  assumes "ps_rep ps us" "n \<in> set us"
  obtains ps' where "muggle_pointer_slot_remove release ps n = Some (MUGGLE_OK, ps')"
    "ps_rep ps' (remove1 n us)" "ps_capacity ps' = ps_capacity ps" "ps_free ps' (remove1 n us) = ps_free ps us @ [n]"
    "ps_map ps' (remove1 n us) = (ps_map ps us)(n := None)"
proof -
  note r = ps_repD[OF assms(1)]
  let ?c = "ps_capacity ps" and ?a = "ps_alloc_index ps" and ?f = "ps_free_index ps"
  obtain pp where pp: "ps_pp_slots ps = Some pp" "length pp = ?c" "set pp \<subseteq> {..<?c}"
    using assms by (auto simp: ps_rep_def)
  obtain xs ys where us: "us = xs @ n # ys" "n \<notin> set xs" using split_list_first[OF assms(2)] by blast
  have rm: "remove1 n us = xs @ ys" using us by (simp add: remove1_append)
  have nn: "n < ?c" "n \<notin> set ys" "n \<notin> set (ps_free ps us)" using assms(1) us by (auto simp: ps_rep_def)
  have used: "psi_in_used (ps_items ps (Slot_at n)) = 1" using assms nn(1) by (simp add: ps_rep_def)
  let ?u = "butlast (SlotHead # map Slot_at xs)" and ?v = "tl (map Slot_at ys @ [SlotTail])"
  let ?b = "slot_before xs" and ?e = "slot_after ys"
  have chain: "links (\<lambda>r. psi_next (ps_items ps r)) (\<lambda>r. psi_prev (ps_items ps r)) (?u @ ?b # Slot_at n # ?e # ?v)"
    using assms(1) unfolding us(1) slot_refs_gap_node[symmetric] by (simp add: ps_rep_def)
  have dist: "distinct (?u @ ?b # Slot_at n # ?e # ?v)"
    using r(3) us(1) by (simp only: distinct_slot_refs flip: slot_refs_gap_node)
  have nb: "psi_prev (ps_items ps (Slot_at n)) = Some ?b" "psi_next (ps_items ps (Slot_at n)) = Some ?e"
    using chain by (simp_all only: links_append links_Cons2)
  have ne: "?b \<noteq> Slot_at n" "?e \<noteq> Slot_at n" "?b \<noteq> ?e" using distinct_three[OF dist] by simp_all
  define its where "its = (ps_items ps)
     (?b := (ps_items ps ?b)\<lparr>psi_next := Some ?e\<rparr>, ?e := (ps_items ps ?e)\<lparr>psi_prev := Some ?b\<rparr>,
      Slot_at n := (ps_items ps (Slot_at n))\<lparr>psi_prev := None, psi_next := None, psi_in_used := 0, psi_data := None\<rparr>)"
  define ps' where "ps' = ps\<lparr>ps_pp_slots := Some (pp[?f mod ?c := n]), ps_items := its, ps_free_index := u32 (?f + 1)\<rparr>"
  have rem: "muggle_pointer_slot_remove release ps n = Some (MUGGLE_OK, ps')"
    using pp(1,2) r(1,2,6) nn(1) used nb ne mod_less_divisor[OF r(1), of ?f]
    by (simp add: not_le muggle_pointer_slot_remove_def Let_def ps'_def its_def set_item_def fun_upd_twist)
  have "links (\<lambda>r. if r = ?b then Some ?e else psi_next (ps_items ps r))
      (\<lambda>r. if r = ?e then Some ?b else psi_prev (ps_items ps r)) (?u @ ?b # ?e # ?v)"
    by (rule links_unlink[OF chain dist]) simp_all
  moreover have "Slot_at n \<notin> set (?u @ ?b # ?e # ?v)"
    using in_slot_refs[of n "xs @ ys"] us(2) nn(2) slot_refs_gap[of xs ys] by simp
  ultimately have "links (\<lambda>r. psi_next (its r)) (\<lambda>r. psi_prev (its r)) (?u @ ?b # ?e # ?v)"
    using ne by (elim links_cong) (auto simp: its_def dest!: in_set_butlastD set_tlD simp del: butlast.simps)
  then have chain': "links (\<lambda>r. psi_next (its r)) (\<lambda>r. psi_prev (its r)) (slot_refs (xs @ ys))"
    by (simp add: slot_refs_gap)
  have "length us - 1 < ?c" "0 < length us" using r(4) us(1) by simp_all
  then have m: "?c - length (xs @ ys) = Suc (?c - length us)" "?c - length us < length pp"
    using r(4) us(1) pp(2) by simp_all
  have idx: "?f mod ?c = (?a + (?c - length us)) mod length pp" using assms(1) pp(2) by (simp add: ps_rep_def)
  have free': "ps_free ps' (xs @ ys) = ps_free ps us @ [n]"
    using ring_window_snoc[OF m(2), of ?a n] m(1) idx pp(1) by (simp add: ps_free_def ps'_def)
  have flds: "psi_slot_idx (its (Slot_at i)) = psi_slot_idx (ps_items ps (Slot_at i))"
    "psi_in_used (its (Slot_at i)) = (if i = n then 0 else psi_in_used (ps_items ps (Slot_at i)))"
    "i \<noteq> n \<Longrightarrow> psi_data (its (Slot_at i)) = psi_data (ps_items ps (Slot_at i))" for i
    using ne by (auto simp: its_def)
  have "u32 (?f + 1) mod ?c = (?a + (?c - length (xs @ ys))) mod ?c"
  proof -
    have "u32 (?f + 1) mod ?c = (?f mod ?c + 1) mod ?c" using r(7)[of ?f] by (simp add: mod_simps)
    also have "\<dots> = (?a + (?c - length us) + 1) mod ?c" unfolding idx pp(2) by (rule mod_add_left_eq)
    finally show ?thesis using m(1) by simp
  qed
  moreover have "u32 (?f + 1) < 2 ^ 32" by (simp add: u32_def)
  moreover have "set (pp[?f mod ?c := n]) \<subseteq> {..<?c}" using pp(3) nn(1) set_update_subset_insert[of pp "?f mod ?c" n] by auto
  moreover have "distinct (xs @ ys @ ps_free ps us @ [n])" "set (xs @ ys) \<subseteq> {..<?c}"
    using assms(1) us nn by (auto simp: ps_rep_def)
  ultimately have "ps_rep ps' (xs @ ys)"
    using assms(1) chain' flds free' pp(2) us nn r(2) unfolding ps_rep_def by (simp add: ps'_def)
  moreover have "ps_map ps' (xs @ ys) = (ps_map ps us)(n := None)"
    using flds us nn(2) by (auto simp: ps_map_def ps'_def)
  ultimately show ?thesis using that rem free' rm by (simp add: ps'_def)
qed

section \<open>Initialisation\<close>

lemma ps_init_slots_eq:
  assumes "ps_pp_slots ps = Some pp" "n \<le> length pp"
  shows "ps_slots (ps_init_slots n ps) = ps_slots ps" "ps_capacity (ps_init_slots n ps) = ps_capacity ps"
    "ps_pp_slots (ps_init_slots n ps) = Some ([0..<n] @ drop n pp)"
    "i < n \<Longrightarrow> ps_items (ps_init_slots n ps) (Slot_at i) =
      (ps_items ps (Slot_at i))\<lparr>psi_prev := None, psi_next := None, psi_slot_idx := i, psi_in_used := 0, psi_data := None\<rparr>"
    "n \<le> i \<Longrightarrow> ps_items (ps_init_slots n ps) (Slot_at i) = ps_items ps (Slot_at i)"
proof -
  have "ps_slots (ps_init_slots n ps) = ps_slots ps \<and> ps_capacity (ps_init_slots n ps) = ps_capacity ps \<and>
    ps_pp_slots (ps_init_slots n ps) = Some ([0..<n] @ drop n pp) \<and>
    (\<forall>i < n. ps_items (ps_init_slots n ps) (Slot_at i) =
      (ps_items ps (Slot_at i))\<lparr>psi_prev := None, psi_next := None, psi_slot_idx := i, psi_in_used := 0, psi_data := None\<rparr>) \<and>
    (\<forall>i \<ge> n. ps_items (ps_init_slots n ps) (Slot_at i) = ps_items ps (Slot_at i))"
    using assms
  proof (induction n)
    case (Suc n)
    then have "drop n pp = pp ! n # drop (Suc n) pp" by (simp add: Cons_nth_drop_Suc)
    then show ?case using Suc by (auto simp: Let_def list_update_append less_Suc_eq)
  qed simp
  then show "ps_slots (ps_init_slots n ps) = ps_slots ps" "ps_capacity (ps_init_slots n ps) = ps_capacity ps"
    "ps_pp_slots (ps_init_slots n ps) = Some ([0..<n] @ drop n pp)"
    "i < n \<Longrightarrow> ps_items (ps_init_slots n ps) (Slot_at i) =
      (ps_items ps (Slot_at i))\<lparr>psi_prev := None, psi_next := None, psi_slot_idx := i, psi_in_used := 0, psi_data := None\<rparr>"
    "n \<le> i \<Longrightarrow> ps_items (ps_init_slots n ps) (Slot_at i) = ps_items ps (Slot_at i)"
    by simp_all
qed

lemma ps_init_rep:
  assumes "k < 32"
  obtains ps where "muggle_pointer_slot_init (Some junk) (Some junk') (2 ^ k) = (MUGGLE_OK, ps)"
    "ps_rep ps []" "ps_capacity ps = 2 ^ k" "ps_free ps [] = [0..<2 ^ k]"
proof -
  let ?c = "2 ^ k :: nat"
  have k64: "k < 64" using assms by simp
  have cap: "u32 (unat (next_pow_of_2 (of_nat ?c))) = ?c"
  proof -
    have "?c < 2 ^ 32" using assms by (intro power_strict_increasing) simp_all
    then show ?thesis using unat_pow64[OF k64] by (simp add: next_pow_of_2_id)
  qed
  define ps0 where "ps0 = \<lparr>ps_items = (\<lambda>r. case r of Slot_at i \<Rightarrow> junk i | _ \<Rightarrow> psi_zero), ps_slots = Some ?c,
    ps_pp_slots = Some (map junk' [0..<?c]), ps_capacity = ?c, ps_alloc_index = 0, ps_free_index = 0\<rparr>"
  define ps1 where "ps1 = (ps_init_slots ?c ps0)\<lparr>ps_alloc_index := 0, ps_free_index := 0\<rparr>"
  define ps where "ps = set_item SlotTail (\<lambda>it. it\<lparr>psi_prev := Some SlotHead, psi_next := None\<rparr>)
    (set_item SlotHead (\<lambda>it. it\<lparr>psi_prev := None, psi_next := Some SlotTail\<rparr>) ps1)"
  have i: "muggle_pointer_slot_init (Some junk) (Some junk') ?c = (MUGGLE_OK, ps)"
    using cap by (simp add: muggle_pointer_slot_init_def Let_def ps_def ps1_def ps0_def)
  note e = ps_init_slots_eq[of ps0 "map junk' [0..<?c]" ?c]
  have f: "ps_slots ps = Some ?c" "ps_capacity ps = ?c" "ps_pp_slots ps = Some [0..<?c]"
    "ps_alloc_index ps = 0" "ps_free_index ps = 0"
    using e(1-3) by (simp_all add: ps_def ps1_def ps0_def)
  have g: "psi_slot_idx (ps_items ps (Slot_at j)) = j \<and> psi_in_used (ps_items ps (Slot_at j)) = 0" if "j < ?c" for j
    using e(4)[OF _ _ that] by (simp add: ps_def ps1_def ps0_def)
  have h: "links (\<lambda>r. psi_next (ps_items ps r)) (\<lambda>r. psi_prev (ps_items ps r)) (slot_refs [])"
    by (simp add: slot_refs_def links_Cons2 ps_def)
  have free: "ps_free ps [] = [0..<?c]"
    using ring_window_straight[of 0 ?c "[0..<?c]"] f by (simp add: ps_free_def)
  have "ps_rep ps []" unfolding ps_rep_def using f g h free assms by auto
  then show ?thesis using that i f free by simp
qed

section \<open>Properties\<close>

lemma next_pow_of_2_beyond: "next_pow_of_2 (2 ^ 40 + 1) = 0x1fffffffe02"
proof -
  have "(2 ^ 40 + 1 :: 64 word) = 0x10000000001" by simp
  then show ?thesis by (simp only:) (simp add: next_pow_of_2_def IS_POW_OF_2_def cong: let_weak_cong)
qed

lemma next_pow_of_2_3: "next_pow_of_2 3 = 4"
  by (simp add: next_pow_of_2_def IS_POW_OF_2_def cong: let_weak_cong)

lemma ring_index_4: "a < 2 ^ 32 \<Longrightarrow> IDX_IN_POW_OF_2_RING a 4 = a mod 4"
  using ring_index_mod[of 2 a] by simp

lemma ps_init_three:
  "\<exists>ps. muggle_pointer_slot_init (Some (\<lambda>i. psi_zero)) (Some (\<lambda>i. 0)) 3 = (MUGGLE_OK, ps) \<and> ps_capacity ps = 4 \<and>
    ps_slots ps = Some 3 \<and> ps_pp_slots ps = Some [0, 1, 2] \<and> ps_alloc_index ps = 0 \<and> ps_free_index ps = 0 \<and>
    psi_prev (ps_items ps SlotTail) = Some SlotHead \<and>
    (\<forall>i < 3. psi_slot_idx (ps_items ps (Slot_at i)) = i \<and> psi_in_used (ps_items ps (Slot_at i)) = 0)"
proof -
  define ps0 :: "'a pointer_slot" where "ps0 = \<lparr>ps_items = (\<lambda>r. case r of Slot_at i \<Rightarrow> psi_zero | _ \<Rightarrow> psi_zero),
    ps_slots = Some 3, ps_pp_slots = Some (map (\<lambda>i. 0) [0..<3]), ps_capacity = 4, ps_alloc_index = 0, ps_free_index = 0\<rparr>"
  have "[0..<3] = [0, 1, 2 :: nat]" by (simp add: upt_rec)
  then show ?thesis
    using ps_init_slots_eq[of ps0 "map (\<lambda>i. 0) [0..<3]" 3]
    by (simp add: muggle_pointer_slot_init_def next_pow_of_2_3 Let_def ps0_def)
qed

text \<open>Two slots, both free, and the same after two insertions.\<close>

definition ps_demo :: "nat pointer_slot" where
  "ps_demo = snd (muggle_pointer_slot_init (Some (\<lambda>i. psi_zero)) (Some (\<lambda>i. 0)) 2)"

lemma ps_demo_rep: "ps_rep ps_demo []" "ps_capacity ps_demo = 2" "ps_free ps_demo [] = [0, 1]"
proof -
  obtain ps :: "nat pointer_slot" where "muggle_pointer_slot_init (Some (\<lambda>i. psi_zero)) (Some (\<lambda>i. 0)) (2 ^ 1) = (MUGGLE_OK, ps)"
    "ps_rep ps []" "ps_capacity ps = 2 ^ 1" "ps_free ps [] = [0..<2 ^ 1]"
    using ps_init_rep[of 1] by (metis one_less_numeral_iff semiring_norm(76))
  then show "ps_rep ps_demo []" "ps_capacity ps_demo = 2" "ps_free ps_demo [] = [0, 1]"
    by (simp_all add: ps_demo_def upt_rec)
qed

text \<open>
  C38. Pointer slots of a power of two are a finite map. After \<open>init\<close> no slot is in use, and all are free in the order of their
  indices. \<open>insert\<close> fails exactly when all slots are in use; otherwise it stores the datum in the slot that is free for the
  longest time, the front of the queue of free slots, takes it off that queue and returns its index. \<open>remove\<close> of a slot in use
  empties it and puts it at the end of the queue; \<open>get\<close> returns what the map holds. No debug assertion fails in these cases,
  and the slots in use stay linked in the order of insertion. \<open>remove\<close> of a slot that is not in use, or of an index out of
  range, and \<open>get\<close> of an index out of range fail an assertion in the debug build; in the release build \<open>remove\<close> returns the
  error for the case and changes nothing, and \<open>get\<close> returns NULL.
\<close>

theorem ps_finite_map:
  assumes "ps_rep ps us"
  shows "(\<forall>k < 32. \<exists>ps0. muggle_pointer_slot_init (Some junk) (Some junk') (2 ^ k) = (MUGGLE_OK, ps0) \<and>
      ps_rep ps0 [] \<and> ps_capacity ps0 = 2 ^ k \<and> ps_free ps0 [] = [0..<2 ^ k]) \<and>
    (length us = ps_capacity ps \<longrightarrow>
      muggle_pointer_slot_insert release ps data = Some (MUGGLE_ERR_MEM_ALLOC, None, ps)) \<and>
    (length us < ps_capacity ps \<longrightarrow>
      (\<exists>n ps'. muggle_pointer_slot_insert release ps data = Some (MUGGLE_OK, Some n, ps') \<and>
        n = hd (ps_free ps us) \<and> n < ps_capacity ps \<and> n \<notin> set us \<and> ps_rep ps' (us @ [n]) \<and>
        ps_free ps' (us @ [n]) = tl (ps_free ps us) \<and> ps_map ps' (us @ [n]) = (ps_map ps us)(n \<mapsto> data))) \<and>
    (\<forall>n \<in> set us. \<exists>ps'. muggle_pointer_slot_remove release ps n = Some (MUGGLE_OK, ps') \<and>
        ps_rep ps' (remove1 n us) \<and> ps_free ps' (remove1 n us) = ps_free ps us @ [n] \<and>
        ps_map ps' (remove1 n us) = (ps_map ps us)(n := None)) \<and>
    (\<forall>n. n \<notin> set us \<longrightarrow> muggle_pointer_slot_remove release ps n =
        (if release then Some (if n < ps_capacity ps then MUGGLE_ERR_MEM_DUPLICATE_FREE else MUGGLE_ERR_BEYOND_RANGE, ps)
         else None)) \<and>
    (\<forall>n. muggle_pointer_slot_get release ps n =
        (if n < ps_capacity ps then Some (Option.bind (ps_map ps us n) (\<lambda>d. d)) else if release then Some None else None))"
proof (intro conjI impI ballI allI)
  show "\<exists>ps0. muggle_pointer_slot_init (Some junk) (Some junk') (2 ^ k) = (MUGGLE_OK, ps0) \<and>
      ps_rep ps0 [] \<and> ps_capacity ps0 = 2 ^ k \<and> ps_free ps0 [] = [0..<2 ^ k]" if "k < 32" for k
    using ps_init_rep[OF that] by metis
  show "muggle_pointer_slot_insert release ps data = Some (MUGGLE_ERR_MEM_ALLOC, None, ps)"
    if "length us = ps_capacity ps" using ps_insert_full[OF assms that] .
  show "\<exists>n ps'. muggle_pointer_slot_insert release ps data = Some (MUGGLE_OK, Some n, ps') \<and>
        n = hd (ps_free ps us) \<and> n < ps_capacity ps \<and> n \<notin> set us \<and> ps_rep ps' (us @ [n]) \<and>
        ps_free ps' (us @ [n]) = tl (ps_free ps us) \<and> ps_map ps' (us @ [n]) = (ps_map ps us)(n \<mapsto> data)"
    if "length us < ps_capacity ps"
    using ps_insert_ok[OF assms that] by metis
  show "\<exists>ps'. muggle_pointer_slot_remove release ps n = Some (MUGGLE_OK, ps') \<and>
        ps_rep ps' (remove1 n us) \<and> ps_free ps' (remove1 n us) = ps_free ps us @ [n] \<and>
        ps_map ps' (remove1 n us) = (ps_map ps us)(n := None)" if "n \<in> set us" for n
    using ps_remove_ok[OF assms that] by metis
  show "muggle_pointer_slot_remove release ps n =
      (if release then Some (if n < ps_capacity ps then MUGGLE_ERR_MEM_DUPLICATE_FREE else MUGGLE_ERR_BEYOND_RANGE, ps)
       else None)" if "n \<notin> set us" for n
    by (rule ps_remove_refused[OF assms that])
  show "muggle_pointer_slot_get release ps n =
      (if n < ps_capacity ps then Some (Option.bind (ps_map ps us n) (\<lambda>d. d)) else if release then Some None else None)" for n
    using assms ps_repD(2)[OF assms] by (auto simp: muggle_pointer_slot_get_def ps_map_def ps_rep_def assert_ok_def)
qed

theorem ps_finite_map_witness:
  "(\<exists>ps'. muggle_pointer_slot_insert False ps_demo (Some 7) = Some (MUGGLE_OK, Some 0, ps') \<and> ps_rep ps' [0] \<and>
     ps_free ps' [0] = [1]) \<and>
   muggle_pointer_slot_remove True ps_demo 1 = Some (MUGGLE_ERR_MEM_DUPLICATE_FREE, ps_demo) \<and>
   muggle_pointer_slot_remove True ps_demo 2 = Some (MUGGLE_ERR_BEYOND_RANGE, ps_demo)"
  using ps_finite_map[OF ps_demo_rep(1), of "\<lambda>i. psi_zero" "\<lambda>i. 0" False "Some 7"]
    ps_finite_map[OF ps_demo_rep(1), of "\<lambda>i. psi_zero" "\<lambda>i. 0" True "Some 7"] ps_demo_rep(2,3) by auto

text \<open>
  C39. \<open>next_pow_of_2\<close> returns the smallest power of two that is not below its argument, for every argument between 1 and
  \<open>2 ^ 32\<close>, the range of the capacities the library rounds; beyond it the result need not be a power of two.
\<close>

theorem next_pow_of_2_rounds:
  "(0 < unat x \<and> unat x \<le> 2 ^ 32 \<longrightarrow>
     (\<exists>m \<le> 32. unat (next_pow_of_2 x) = 2 ^ m \<and> unat x \<le> 2 ^ m \<and> (\<forall>j. unat x \<le> 2 ^ j \<longrightarrow> m \<le> j))) \<and>
   \<not> IS_POW_OF_2 (next_pow_of_2 (2 ^ 40 + 1))"
proof (intro conjI impI)
  assume x: "0 < unat x \<and> unat x \<le> 2 ^ 32"
  then obtain m where m: "unat (next_pow_of_2 x) = 2 ^ m" "m \<le> 32" "unat x \<le> 2 ^ m" "2 ^ m < 2 * unat x"
    using next_pow_of_2_cases[of x] by blast
  have "m \<le> j" if "unat x \<le> 2 ^ j" for j
  proof -
    have "(2 :: nat) ^ m < 2 ^ Suc j" using m(4) that by simp
    then have "m < Suc j" by (rule power_less_imp_less_exp[rotated]) simp
    then show ?thesis by simp
  qed
  then show "\<exists>m \<le> 32. unat (next_pow_of_2 x) = 2 ^ m \<and> unat x \<le> 2 ^ m \<and> (\<forall>j. unat x \<le> 2 ^ j \<longrightarrow> m \<le> j)"
    using m by blast
next
  show "\<not> IS_POW_OF_2 (next_pow_of_2 (2 ^ 40 + 1))"
    by (simp only: next_pow_of_2_beyond) (simp add: IS_POW_OF_2_def)
qed

theorem next_pow_of_2_rounds_witness:
  "\<exists>m \<le> 32. unat (next_pow_of_2 5) = 2 ^ m \<and> unat (5 :: 64 word) \<le> 2 ^ m \<and> (\<forall>j. unat (5 :: 64 word) \<le> 2 ^ j \<longrightarrow> m \<le> j)"
proof -
  have "0 < unat (5 :: 64 word) \<and> unat (5 :: 64 word) \<le> 2 ^ 32" by simp
  then show ?thesis using next_pow_of_2_rounds[of 5] by blast
qed

text \<open>
  C40. A capacity that is no power of two is rounded up for the checks of the indices, but the arrays are allocated with the
  capacity that was asked for: with a capacity of 3, the fourth insertion and every access to slot 3 leave the arrays.
\<close>

theorem ps_rounding_out_of_bounds:
  "\<exists>ps0 ps1 ps2 ps3 :: nat pointer_slot.
    muggle_pointer_slot_init (Some (\<lambda>i. psi_zero)) (Some (\<lambda>i. 0)) 3 = (MUGGLE_OK, ps0) \<and>
    muggle_pointer_slot_insert release ps0 (Some 10) = Some (MUGGLE_OK, Some 0, ps1) \<and>
    muggle_pointer_slot_insert release ps1 (Some 11) = Some (MUGGLE_OK, Some 1, ps2) \<and>
    muggle_pointer_slot_insert release ps2 (Some 12) = Some (MUGGLE_OK, Some 2, ps3) \<and>
    muggle_pointer_slot_insert release ps3 (Some 13) = None \<and>
    3 < ps_capacity ps3 \<and> muggle_pointer_slot_get release ps3 3 = None \<and> muggle_pointer_slot_remove release ps3 3 = None"
proof -
  obtain ps0 :: "nat pointer_slot" where ps0:
    "muggle_pointer_slot_init (Some (\<lambda>i. psi_zero)) (Some (\<lambda>i. 0)) 3 = (MUGGLE_OK, ps0)" "ps_capacity ps0 = 4"
    "ps_slots ps0 = Some 3" "ps_pp_slots ps0 = Some [0, 1, 2]" "ps_alloc_index ps0 = 0" "ps_free_index ps0 = 0"
    "psi_prev (ps_items ps0 SlotTail) = Some SlotHead"
    "\<And>i. i < 3 \<Longrightarrow> psi_slot_idx (ps_items ps0 (Slot_at i)) = i \<and> psi_in_used (ps_items ps0 (Slot_at i)) = 0"
    using ps_init_three by metis
  let ?ps1 = "ps_linked_in 0 SlotHead (Some 10) ps0"
  let ?ps2 = "ps_linked_in 1 (Slot_at 0) (Some 11) ?ps1"
  let ?ps3 = "ps_linked_in 2 (Slot_at 1) (Some 12) ?ps2"
  have 1: "muggle_pointer_slot_insert release ps0 (Some 10) = Some (MUGGLE_OK, Some 0, ?ps1)"
    by (rule ps_insert_links[OF ps0(4)]) (simp_all add: ps0 ring_index_4)
  have 2: "muggle_pointer_slot_insert release ?ps1 (Some 11) = Some (MUGGLE_OK, Some 1, ?ps2)"
    by (rule ps_insert_links[of _ "[0, 1, 2]"]) (simp_all add: ps0 ring_index_4 ps_linked_in_def)
  have 3: "muggle_pointer_slot_insert release ?ps2 (Some 12) = Some (MUGGLE_OK, Some 2, ?ps3)"
    by (rule ps_insert_links[of _ "[0, 1, 2]"]) (simp_all add: ps0 ring_index_4 ps_linked_in_def)
  have f: "ps_pp_slots ?ps3 = Some [0, 1, 2]" "ps_alloc_index ?ps3 = 3" "ps_capacity ?ps3 = 4" "ps_slots ?ps3 = Some 3"
    by (simp_all add: ps_linked_in_def ps0)
  then have "muggle_pointer_slot_insert release ?ps3 (Some 13) = None" "muggle_pointer_slot_get release ?ps3 3 = None"
    "muggle_pointer_slot_remove release ?ps3 3 = None"
    by (simp_all add: muggle_pointer_slot_insert_def muggle_pointer_slot_get_def muggle_pointer_slot_remove_def ring_index_4
        del: One_nat_def)
  then show ?thesis using ps0(1) 1 2 3 f(3) by (intro exI conjI) (assumption | simp)+
qed

end
