(* ===== verification/Spec2Isabelle.thy ===== *)
theory Spec2Isabelle
  imports Muggle_Prelude Memory_Pool Dsaa_Utils Array_List Stack Heap Sort Node_Alloc Linked_List Queue Hash_Table
    Avl_Tree Avl_Tree_Laws Bytes_Buffer Block_Modes Byte_Lanes Aes_Internal Aes_Openssl Aes Aes_Equiv Aes_Laws
    Monitor Array_Blocking_Queue Double_Buffer Pointer_Slot
begin

text \<open>
  muggleCC is a C library of containers, memory pools, ciphers, inter-thread queues, logging and sockets. This
  development models the memory pool, the pointer slots and the bytes buffer (\<^verbatim>\<open>src/muggle/c/memory\<close>), the containers and sorts
  (\<^verbatim>\<open>src/muggle/c/dsaa\<close>), the AES cipher in both of its builds (\<^verbatim>\<open>src/muggle/c/crypt\<close>), and the two queues between threads that
  are built on a mutex and condition variables (\<^verbatim>\<open>src/muggle/c/sync\<close>).

  \<^bold>\<open>How the parts interact.\<close> The linked containers (linked list, queue, hash table, AVL tree) take their nodes from the memory
  pool when they are initialised with a capacity, and from \<^verbatim>\<open>malloc\<close> otherwise; all ordered structures and the sorts
  call a compare callback of the user; heap sort runs on the heap. The AES modes run their block function over the
  message; the block function and the key schedule are those of \<^verbatim>\<open>openssl/openssl_aes.c\<close> when
  \<^verbatim>\<open>MUGGLE_CRYPT_OPTIMIZATION\<close> is set (the default build), and those of \<^verbatim>\<open>internal/internal_aes.c\<close> otherwise. The blocking
  queue and the double buffer take the mutex, wait on a condition variable, act, notify the other one and unlock.

  \<^bold>\<open>Conventions.\<close> A pointer is an option, \<^verbatim>\<open>None\<close> is \<^verbatim>\<open>NULL\<close>. An operation takes its state as a record and returns it
  updated; a function that can fail returns the C result as well (a \<^verbatim>\<open>bool\<close>, an index, a \<^verbatim>\<open>NULL\<close> pointer, an error code of
  \<^verbatim>\<open>base/err.h\<close>). Every outcome of \<^verbatim>\<open>malloc\<close>, and the indeterminate content of a fresh block, is an argument of the
  operation, so the theorems hold for all of them. Pointer structures live in a store from addresses to nodes. Counters
  that can wrap go through \<^const>\<open>u32\<close>, \<^const>\<open>to_u64\<close> or \<^const>\<open>to_int32\<close>; the ciphers compute on machine words. Memory
  read at two widths is little-endian. User callbacks (compare, release) are arguments; the compare contract is the
  locale \<^verbatim>\<open>data_cmp\<close>.

  \<^bold>\<open>Theories.\<close>
  \<^item> \<^verbatim>\<open>Muggle_Prelude\<close>: pointers, allocations, casts, copy loops, cyclic windows of an array, error codes.
  \<^item> \<^verbatim>\<open>Memory_Pool\<close> (\<^verbatim>\<open>memory/memory_pool.c\<close>): the ring of free blocks and its growth. The reachable states keep the
    invariant that no block is handed out twice and no two blocks overlap, as long as the sizes of the buffers, which the
    code computes in 32 bits, do not wrap; the ring refines a queue of free blocks, except for the growth of an idle pool.
  \<^item> \<^verbatim>\<open>Dsaa_Utils\<close> (\<^verbatim>\<open>dsaa/dsaa_utils.h\<close>): the capacity check and the compare callbacks of the test suite, on which
    \<^verbatim>\<open>data_cmp\<close> is interpreted.
  \<^item> \<^verbatim>\<open>Array_List\<close>, \<^verbatim>\<open>Stack\<close> (\<^verbatim>\<open>dsaa/array_list.c\<close>, \<^verbatim>\<open>dsaa/stack.c\<close>): growing arrays; refinements of lists.
  \<^item> \<^verbatim>\<open>Heap\<close>, \<^verbatim>\<open>Sort\<close> (\<^verbatim>\<open>dsaa/heap.c\<close>, \<^verbatim>\<open>dsaa/sort.c\<close>): heap order, multiset of the contents, minimality of what is
    extracted; the five sorts sort and permute, merge sort is stable, and the recursive ones stay in bounds.
  \<^item> \<^verbatim>\<open>Node_Alloc\<close>: the allocation of nodes shared by the linked containers, and what they rely on, the locale
    \<^verbatim>\<open>node_source\<close>, interpreted on the memory pool.
  \<^item> \<^verbatim>\<open>Linked_List\<close>, \<^verbatim>\<open>Queue\<close>, \<^verbatim>\<open>Hash_Table\<close> (\<^verbatim>\<open>dsaa/linked_list.c\<close>, \<^verbatim>\<open>dsaa/queue.c\<close>, \<^verbatim>\<open>dsaa/hash_table.c\<close>): the pointers of
    the store form the list, the queue or the chains of the slots; refinement of lists and the laws of a dictionary.
  \<^item> \<^verbatim>\<open>Avl_Tree\<close>, \<^verbatim>\<open>Avl_Tree_Laws\<close> (\<^verbatim>\<open>dsaa/avl_tree.c\<close>): rotations, both retracing loops, search; the store forms an
    ordered tree in balance, whose height bounds the search, and the operations are those of a dictionary.
  \<^item> \<^verbatim>\<open>Bytes_Buffer\<close> (\<^verbatim>\<open>memory/bytes_buffer.c\<close>): the four positions form a queue of bytes, across the jump to the front; what
    reading does at a truncate position that is left over, and where the zero-copy reader differs from \<^verbatim>\<open>read\<close>.
  \<^item> \<^verbatim>\<open>Pointer_Slot\<close> (\<^verbatim>\<open>memory/pointer_slot.c\<close>, \<^verbatim>\<open>base/utils.c\<close>): the ring of free slots and the linked slots in use; a finite map
    when the capacity is a power of two, and an access out of bounds when it is not. Rounding up to a power of two.
  \<^item> \<^verbatim>\<open>Block_Modes\<close> (\<^verbatim>\<open>crypt/crypt_utils.h\<close> and the mode loops of \<^verbatim>\<open>crypt/aes.c\<close>): the five modes over any block function; the
    locale \<^verbatim>\<open>block_cipher\<close> gives their round trips.
  \<^item> \<^verbatim>\<open>Byte_Lanes\<close>: words as rows of bytes, the rules that carry word arithmetic to each byte.
  \<^item> \<^verbatim>\<open>Aes_Internal\<close> (\<^verbatim>\<open>crypt/internal/internal_aes.c\<close>): the block functions after FIPS-197; decryption undoes encryption.
  \<^item> \<^verbatim>\<open>Aes_Openssl\<close> (\<^verbatim>\<open>crypt/openssl/openssl_aes.c\<close>): the constant-time block functions and key expansion.
  \<^item> \<^verbatim>\<open>Aes\<close> (\<^verbatim>\<open>crypt/aes.c\<close>): key setup, the block function and the five modes, with and without \<^verbatim>\<open>MUGGLE_CRYPT_OPTIMIZATION\<close>, in
    the release build, where \<^verbatim>\<open>MUGGLE_ASSERT_MSG\<close> is empty.
  \<^item> \<^verbatim>\<open>Aes_Equiv\<close>, \<^verbatim>\<open>Aes_Laws\<close>: the two builds compute the same; round trips, messages in pieces, the errors, and the
    pointers that are dereferenced without a check.
  \<^item> \<^verbatim>\<open>Monitor\<close> (\<^verbatim>\<open>sync/mutex.c\<close>, \<^verbatim>\<open>sync/condition_variable.c\<close>): calls in flight as frames with a program counter, and a scheduler
    that chooses the thread that steps, the thread a notification wakes, spurious wake-ups and failing locks. Mutual
    exclusion, each call acts once and returns what it saw, no notification is lost, every run is short; the locales
    \<^verbatim>\<open>monitor_laws\<close> and \<^verbatim>\<open>monitor_wakeups\<close> are what the procedures owe for it.
  \<^item> \<^verbatim>\<open>Array_Blocking_Queue\<close>, \<^verbatim>\<open>Double_Buffer\<close> (\<^verbatim>\<open>sync/array_blocking_queue.c\<close>, \<^verbatim>\<open>sync/double_buffer.c\<close>): the procedures and their
    contracts. First in, first out in every interleaving; batches; who may wait when no thread can run.

  \<^bold>\<open>Loops.\<close> Loops that end are recursive functions with their termination proofs. Loops that follow pointers or trust a
  callback (\<^verbatim>\<open>muggle_heap_remove\<close>, the clear loops, the walks of the AVL tree) are partial functions
  whose value \<^verbatim>\<open>None\<close> is a loop that does not end, a failed assertion or a \<^verbatim>\<open>NULL\<close> dereference; the theorems show that
  they return. No fuel is used except in \<^const>\<open>av_find_within\<close>, which counts the comparisons of a search and is used
  only to bound them. The waiting loops of \<^verbatim>\<open>sync\<close> are steps of the scheduler: that they end is a theorem about runs, with
  six steps for each call as the bound between spurious wake-ups.

  \<^bold>\<open>Not modelled.\<close>
  \<^item> Overlapping input and output buffers of the ciphers, and alignment of blocks beyond the block size.
  \<^item> \<^verbatim>\<open>crypt/des.c\<close>, \<^verbatim>\<open>crypt/tdes.c\<close>, \<^verbatim>\<open>crypt/parity.c\<close> and the matrix helpers of \<^verbatim>\<open>crypt/crypt_utils.c\<close>.
  \<^item> \<^verbatim>\<open>dsaa/trie.c\<close>, \<^verbatim>\<open>base/str.c\<close>, \<^verbatim>\<open>os/path.c\<close>.
  \<^item> \<^verbatim>\<open>sync/ring_buffer.c\<close>, \<^verbatim>\<open>sync/channel.c\<close>, \<^verbatim>\<open>sync/futex.c\<close>, \<^verbatim>\<open>memory/sowr_memory_pool.c\<close>, \<^verbatim>\<open>memory/threadsafe_memory_pool.c\<close>: their
    correctness depends on the C11 memory model and on futexes.
  \<^item> Errors of \<^verbatim>\<open>pthread_cond_wait\<close> and \<^verbatim>\<open>pthread_mutex_unlock\<close>, which the code ignores and which arise from misuse only.
  \<^item> \<^verbatim>\<open>net\<close>, \<^verbatim>\<open>log\<close>, \<^verbatim>\<open>os\<close>, \<^verbatim>\<open>time\<close>, \<^verbatim>\<open>base/thread.c\<close>, \<^verbatim>\<open>base/sleep.c\<close>: calls of the operating system, with no
    behaviour of their own beyond it.
  \<^item> Examples, benchmarks and tests, except the compare callbacks of \<^verbatim>\<open>test_utils/test_utils.cpp\<close>.
\<close>

end
